(* ===== verification/Gateway_Prelude.thy ===== *)
theory Gateway_Prelude
  imports Main "HOL-Library.Word" "HOL-Library.Monad_Syntax"
begin

text \<open>
  Shared vocabulary of the development: the machine types of the C++ sources, bounds-checked
  access to a \<^verbatim>\<open>std::span\<close> or \<^verbatim>\<open>std::array\<close> (an out-of-range access is undefined behaviour
  in C++ and the value \<^term>\<open>None\<close> here), \<^verbatim>\<open>memcpy\<close>, value initialisation \<^verbatim>\<open>T{}\<close> as the
  class \<^verbatim>\<open>default\<close>, the little-endian reading of byte lists that the codec is compared with,
  powers of two and mask indexing, and the reading of a ring buffer as a list.
\<close>

unbundle bit_operations_syntax

text \<open>Rules that evaluate span accesses, wire layouts and ring contents.\<close>

named_theorems span_simps
named_theorems wire_simps
named_theorems ring_simps

section \<open>Machine types\<close>

type_synonym byte = "8 word"
type_synonym u16 = "16 word"
type_synonym u32 = "32 word"
type_synonym u64 = "64 word"
type_synonym size_t = "64 word"
type_synonym span = "byte list"

text \<open>Value initialisation \<^verbatim>\<open>T{}\<close>: zero for the integer types, the member initialisers for a struct.\<close>

instantiation word :: (len) default
begin
definition default_word :: "'a word" where
  "default_word = 0"
instance ..
end

section \<open>Bounds-checked spans\<close>

definition span_get :: "'a list \<Rightarrow> nat \<Rightarrow> 'a option" where
  "span_get xs i = (if i < length xs then Some (xs ! i) else None)"

definition span_set :: "'a list \<Rightarrow> nat \<Rightarrow> 'a \<Rightarrow> 'a list option" where
  "span_set xs i x = (if i < length xs then Some (xs[i := x]) else None)"

text \<open>
  \<^verbatim>\<open>std::memcpy(dst + d, src + s, n)\<close> between distinct arrays: both ranges must lie inside
  their arrays.
\<close>

definition memcpy :: "'a list \<Rightarrow> nat \<Rightarrow> 'a list \<Rightarrow> nat \<Rightarrow> nat \<Rightarrow> 'a list option" where
  "memcpy dst d src s n =
     (if d + n \<le> length dst \<and> s + n \<le> length src
      then Some (take d dst @ take n (drop s src) @ drop (d + n) dst)
      else None)"

text \<open>Overwriting a run of elements, and the list of single writes that does the same.\<close>

definition blit :: "'a list \<Rightarrow> nat \<Rightarrow> 'a list \<Rightarrow> 'a list" where
  "blit xs d ys = take d xs @ ys @ drop (d + length ys) xs"

fun span_stores :: "'a list \<Rightarrow> nat \<Rightarrow> 'a list \<Rightarrow> 'a list option" where
  "span_stores xs d [] = Some xs"
| "span_stores xs d (y # ys) = do { xs \<leftarrow> span_set xs d y; span_stores xs (Suc d) ys }"

lemma length_blit [simp]: "d + length ys \<le> length xs \<Longrightarrow> length (blit xs d ys) = length xs"
  by (simp add: blit_def)

lemma blit_Nil [simp]: "blit xs d [] = xs"
  by (simp add: blit_def)

lemma blit_Cons: "d < length xs \<Longrightarrow> blit xs d (y # ys) = blit (xs[d := y]) (Suc d) ys"
  by (simp add: blit_def upd_conv_take_nth_drop take_Suc_conv_app_nth add.commute)

lemma blit_append:
  "d + length ys \<le> length xs \<Longrightarrow> blit (blit xs d ys) (d + length ys) zs = blit xs d (ys @ zs)"
  by (simp add: blit_def ac_simps)

lemma take_blit_0: "take (length ys) (blit xs 0 ys) = ys"
  by (simp add: blit_def)

lemma drop_blit_0: "drop (length ys) (blit xs 0 ys) = drop (length ys) xs"
  by (simp add: blit_def)

lemma blit_whole: "length ys = length xs \<Longrightarrow> blit xs 0 ys = ys"
  by (simp add: blit_def)

lemma span_stores_blit:
  "span_stores xs d ys =
     (if ys = [] \<or> d + length ys \<le> length xs then Some (blit xs d ys) else None)"
  by (induction ys arbitrary: xs d) (auto simp: span_set_def blit_Cons)

lemma memcpy_blit:
  "d + n \<le> length dst \<Longrightarrow> s + n \<le> length src \<Longrightarrow>
     memcpy dst d src s n = Some (blit dst d (take n (drop s src)))"
  by (simp add: memcpy_def blit_def)

section \<open>Little-endian byte lists\<close>

text \<open>
  The reference meaning of the wire integers: the low byte first. \<open>le_bytes n w\<close> is the
  \<open>n\<close>-byte encoding and \<open>le_word\<close> its inverse.
\<close>

fun le_bytes :: "nat \<Rightarrow> 'a::len word \<Rightarrow> byte list" where
  "le_bytes 0 w = []"
| "le_bytes (Suc n) w = ucast w # le_bytes n (drop_bit 8 w)"

fun le_word :: "byte list \<Rightarrow> 'a::len word" where
  "le_word [] = 0"
| "le_word (b # bs) = ucast b OR push_bit 8 (le_word bs)"

lemma length_le_bytes [simp]: "length (le_bytes n w) = n"
  by (induction n arbitrary: w) auto

lemma le_word_zeros [simp]: "le_word (replicate n 0) = 0"
  by (induction n) auto

lemma bit_le_word: "bit (le_word bs :: 'a::len word) n \<Longrightarrow> n < 8 * length bs"
proof (induction bs arbitrary: n)
  case (Cons b bs)
  show ?case
  proof (cases "n < 8")
    case False
    with Cons.prems have "bit (le_word bs :: 'a word) (n - 8)"
      by (auto simp: bit_simps dest: bit_imp_le_length)
    from Cons.IH [OF this] False show ?thesis by simp
  qed simp
qed simp

lemma le_word_le_bytes: "le_word (le_bytes n w) = take_bit (8 * n) (w :: 'a::len word)"
proof (induction n arbitrary: w)
  case (Suc n)
  show ?case
    by (rule bit_word_eqI) (auto simp: Suc bit_simps)
qed simp

lemma le_bytes_le_word:
  "8 * length bs \<le> LENGTH('a) \<Longrightarrow> le_bytes (length bs) (le_word bs :: 'a::len word) = bs"
proof (induction bs)
  case (Cons b bs)
  have "ucast (ucast b OR push_bit 8 (le_word bs :: 'a word)) = b"
    using Cons.prems by (intro bit_word_eqI) (auto simp: bit_simps)
  moreover have "drop_bit 8 (ucast b OR push_bit 8 (le_word bs :: 'a word)) = (le_word bs :: 'a word)"
    using Cons.prems
    by (intro bit_word_eqI) (auto simp: bit_simps dest: bit_le_word bit_imp_le_length)
  ultimately show ?case using Cons by simp
qed simp

lemma le_word_inverse [wire_simps]:
  "le_word (le_bytes 2 (a :: u16)) = a"
  "le_word (le_bytes 4 (b :: u32)) = b"
  "le_word (le_bytes 8 (c :: u64)) = c"
  by (simp_all add: le_word_le_bytes take_bit_word_eq_self)

section \<open>Powers of two and mask indexing\<close>

text \<open>\<^verbatim>\<open>std::has_single_bit\<close>: exactly one bit of the value is set.\<close>

definition has_single_bit :: "size_t \<Rightarrow> bool" where
  "has_single_bit x \<longleftrightarrow> length (filter (bit x) [0..<64]) = 1"

lemma unat_exp_size [simp]:
  assumes "k < 64"
  shows "unat (2 ^ k :: size_t) = 2 ^ k"
proof -
  have "(2::nat) ^ k < 2 ^ 64" using assms by (intro power_strict_increasing) auto
  moreover have "unat (of_nat (2 ^ k) :: size_t) = 2 ^ k mod 2 ^ 64" by (simp only: unat_of_nat len_of_numeral_defs) simp
  ultimately show ?thesis by simp
qed

lemma unat_and_mask:
  assumes "k < 64"
  shows "unat (x AND (2 ^ k - 1) :: size_t) = unat x mod 2 ^ k"
proof -
  have "x AND (2 ^ k - 1) = take_bit k x"
    by (simp add: take_bit_eq_mask mask_eq_exp_minus_1)
  then show ?thesis by (simp add: unsigned_take_bit_eq flip: take_bit_eq_mod)
qed

lemma exp_dvd_size: "k < 64 \<Longrightarrow> (2::nat) ^ k dvd 2 ^ 64"
  by (rule le_imp_power_dvd) simp

lemma unat_add_mod_exp:
  assumes "k < 64"
  shows "unat (x + of_nat n :: size_t) mod 2 ^ k = (unat x + n) mod 2 ^ k"
proof -
  have "unat (x + of_nat n :: size_t) = (unat x + n) mod 2 ^ 64"
    by (simp add: unat_word_ariths unat_of_nat mod_simps)
  then show ?thesis
    using exp_dvd_size [OF assms] by (simp add: mod_mod_cancel)
qed

lemma bit_exp_iff_size: "bit (2 ^ k :: size_t) n \<longleftrightarrow> k < 64 \<and> n = k"
  by (auto simp: bit_exp_iff)

lemma has_single_bit_iff: "has_single_bit x \<longleftrightarrow> (\<exists>k<64. x = 2 ^ k)"
proof
  assume "has_single_bit x"
  then obtain k where k: "filter (bit x) [0..<64] = [k]"
    by (auto simp: has_single_bit_def length_Suc_conv)
  have "set (filter (bit x) [0..<64]) = {k}" unfolding k by simp
  then have set: "n < 64 \<and> bit x n \<longleftrightarrow> n = k" for n by (simp add: set_eq_iff)
  then have "x = 2 ^ k"
    by (intro bit_word_eqI) (auto simp: bit_exp_iff_size)
  with set show "\<exists>k<64. x = 2 ^ k" by blast
next
  assume "\<exists>k<64. x = 2 ^ k"
  then obtain k where "k < 64" "x = 2 ^ k" by blast
  then have "set (filter (bit x) [0..<64]) = {k}" "distinct (filter (bit x) [0..<64])"
    by (auto simp: bit_exp_iff_size)
  then show "has_single_bit x"
    unfolding has_single_bit_def by (metis card.empty card_insert_if distinct_card empty_iff finite.emptyI One_nat_def)
qed

end
