(* ===== verification/Protocol.thy ===== *)
theory Protocol
  imports Gateway_Prelude
begin

text \<open>
  The wire vocabulary of \<^verbatim>\<open>protocol.hpp\<close>: constants, enumerations, message structs and wire
  offsets. A C++ \<^verbatim>\<open>enum class\<close> with a fixed underlying type can hold every value of that type
  (\<^verbatim>\<open>decode_header\<close> casts an arbitrary \<^verbatim>\<open>uint16_t\<close> from the wire), so each enumeration that the
  codec casts has a constructor for the values without an enumerator; the predicates \<open>..._ok\<close>
  say that this constructor is not used for a named value. A struct is a record, its member
  initialisers are its \<open>default\<close>, and the wire offsets are natural numbers.
\<close>

section \<open>Constants\<close>

definition kMagic :: u32 where
  "kMagic = 0x6c6c7467"

definition kVersion :: u16 where
  "kVersion = 1"

definition kFrameSize :: nat where
  [simp]: "kFrameSize = 64"

definition kHeaderSize :: nat where
  [simp]: "kHeaderSize = 32"

definition kPayloadSize :: nat where
  [simp]: "kPayloadSize = 32"

section \<open>Enumerations\<close>

datatype MessageType =
    NewOrder | CancelOrder | ModifyOrder | Heartbeat | Logout
  | Accepted | Rejected | Cancelled | Modified | Trade
  | MessageType_raw u16

datatype Side = Buy | Sell | Side_raw u64

datatype DecodeStatus =
    Ok | NeedMoreData | BadMagic | BadVersion | UnknownMessageType | BadPayloadLength

datatype RejectReason =
    NoReason | BadSequence | DuplicateClientOrderId | UnknownClientOrderId
  | InvalidPrice | InvalidQuantity | UnsupportedMessageType
  | RejectReason_raw u64

text \<open>
  \<^verbatim>\<open>static_cast\<close> between an enumeration and its underlying type (the enumerator \<^verbatim>\<open>None\<close> of
  \<^verbatim>\<open>RejectReason\<close> is \<open>NoReason\<close>, since \<open>None\<close> is the option constructor).
\<close>

fun u16_of_MessageType :: "MessageType \<Rightarrow> u16" where
  "u16_of_MessageType MessageType.NewOrder = 1"
| "u16_of_MessageType MessageType.CancelOrder = 2"
| "u16_of_MessageType MessageType.ModifyOrder = 3"
| "u16_of_MessageType MessageType.Heartbeat = 4"
| "u16_of_MessageType MessageType.Logout = 5"
| "u16_of_MessageType MessageType.Accepted = 101"
| "u16_of_MessageType MessageType.Rejected = 102"
| "u16_of_MessageType MessageType.Cancelled = 103"
| "u16_of_MessageType MessageType.Modified = 104"
| "u16_of_MessageType MessageType.Trade = 105"
| "u16_of_MessageType (MessageType_raw w) = w"

definition MessageType_of_u16 :: "u16 \<Rightarrow> MessageType" where
  "MessageType_of_u16 w =
     (if w = 1 then MessageType.NewOrder
      else if w = 2 then MessageType.CancelOrder
      else if w = 3 then MessageType.ModifyOrder
      else if w = 4 then MessageType.Heartbeat
      else if w = 5 then MessageType.Logout
      else if w = 101 then MessageType.Accepted
      else if w = 102 then MessageType.Rejected
      else if w = 103 then MessageType.Cancelled
      else if w = 104 then MessageType.Modified
      else if w = 105 then MessageType.Trade
      else MessageType_raw w)"

fun MessageType_ok :: "MessageType \<Rightarrow> bool" where
  "MessageType_ok (MessageType_raw w) \<longleftrightarrow> w \<notin> {1, 2, 3, 4, 5, 101, 102, 103, 104, 105}"
| "MessageType_ok t \<longleftrightarrow> True"

fun u64_of_Side :: "Side \<Rightarrow> u64" where
  "u64_of_Side Side.Buy = 1"
| "u64_of_Side Side.Sell = 2"
| "u64_of_Side (Side_raw w) = w"

definition Side_of_u64 :: "u64 \<Rightarrow> Side" where
  "Side_of_u64 w = (if w = 1 then Side.Buy else if w = 2 then Side.Sell else Side_raw w)"

fun Side_ok :: "Side \<Rightarrow> bool" where
  "Side_ok (Side_raw w) \<longleftrightarrow> w \<notin> {1, 2}"
| "Side_ok s \<longleftrightarrow> True"

fun u64_of_RejectReason :: "RejectReason \<Rightarrow> u64" where
  "u64_of_RejectReason NoReason = 0"
| "u64_of_RejectReason BadSequence = 1"
| "u64_of_RejectReason DuplicateClientOrderId = 2"
| "u64_of_RejectReason UnknownClientOrderId = 3"
| "u64_of_RejectReason InvalidPrice = 4"
| "u64_of_RejectReason InvalidQuantity = 5"
| "u64_of_RejectReason UnsupportedMessageType = 6"
| "u64_of_RejectReason (RejectReason_raw w) = w"

definition RejectReason_of_u64 :: "u64 \<Rightarrow> RejectReason" where
  "RejectReason_of_u64 w =
     (if w = 0 then NoReason
      else if w = 1 then BadSequence
      else if w = 2 then DuplicateClientOrderId
      else if w = 3 then UnknownClientOrderId
      else if w = 4 then InvalidPrice
      else if w = 5 then InvalidQuantity
      else if w = 6 then UnsupportedMessageType
      else RejectReason_raw w)"

fun RejectReason_ok :: "RejectReason \<Rightarrow> bool" where
  "RejectReason_ok (RejectReason_raw w) \<longleftrightarrow> w \<notin> {0, 1, 2, 3, 4, 5, 6}"
| "RejectReason_ok r \<longleftrightarrow> True"

instantiation MessageType :: default
begin
definition default_MessageType :: MessageType where
  "default_MessageType = MessageType_of_u16 0"
instance ..
end

section \<open>Header and payload structs\<close>

record MessageHeader =
  magic :: u32
  version :: u16
  message_type :: MessageType
  payload_length :: u16
  flags :: u16
  sequence_number :: u64
  session_id :: u64
  reserved :: u32

instantiation MessageHeader_ext :: (default) default
begin
definition default_MessageHeader_ext :: "'a MessageHeader_scheme" where
  "default_MessageHeader_ext =
     \<lparr>MessageHeader.magic = kMagic, MessageHeader.version = kVersion,
      MessageHeader.message_type = default, MessageHeader.payload_length = 0,
      MessageHeader.flags = 0, MessageHeader.sequence_number = 0,
      MessageHeader.session_id = 0, MessageHeader.reserved = 0,
      \<dots> = default\<rparr>"
instance ..
end

definition MessageHeader_off_magic :: nat where
  [simp]: "MessageHeader_off_magic = 0"

definition MessageHeader_off_version :: nat where
  [simp]: "MessageHeader_off_version = 4"

definition MessageHeader_off_message_type :: nat where
  [simp]: "MessageHeader_off_message_type = 6"

definition MessageHeader_off_payload_length :: nat where
  [simp]: "MessageHeader_off_payload_length = 8"

definition MessageHeader_off_flags :: nat where
  [simp]: "MessageHeader_off_flags = 10"

definition MessageHeader_off_sequence_number :: nat where
  [simp]: "MessageHeader_off_sequence_number = 12"

definition MessageHeader_off_session_id :: nat where
  [simp]: "MessageHeader_off_session_id = 20"

definition MessageHeader_off_reserved :: nat where
  [simp]: "MessageHeader_off_reserved = 28"

record NewOrder =
  client_order_id :: u64
  side :: Side
  price :: u64
  quantity :: u64

instantiation NewOrder_ext :: (default) default
begin
definition default_NewOrder_ext :: "'a NewOrder_scheme" where
  "default_NewOrder_ext =
     \<lparr>NewOrder.client_order_id = 0, NewOrder.side = Side.Buy,
      NewOrder.price = 0, NewOrder.quantity = 0,
      \<dots> = default\<rparr>"
instance ..
end

definition NewOrder_off_id :: nat where
  [simp]: "NewOrder_off_id = 0"

definition NewOrder_off_side :: nat where
  [simp]: "NewOrder_off_side = 8"

definition NewOrder_off_price :: nat where
  [simp]: "NewOrder_off_price = 16"

definition NewOrder_off_quantity :: nat where
  [simp]: "NewOrder_off_quantity = 24"

record CancelOrder =
  client_order_id :: u64
  reserved1 :: u64
  reserved2 :: u64
  reserved3 :: u64

instantiation CancelOrder_ext :: (default) default
begin
definition default_CancelOrder_ext :: "'a CancelOrder_scheme" where
  "default_CancelOrder_ext =
     \<lparr>CancelOrder.client_order_id = 0, CancelOrder.reserved1 = 0,
      CancelOrder.reserved2 = 0, CancelOrder.reserved3 = 0,
      \<dots> = default\<rparr>"
instance ..
end

definition CancelOrder_off_id :: nat where
  [simp]: "CancelOrder_off_id = 0"

record ModifyOrder =
  client_order_id :: u64
  new_price :: u64
  new_quantity :: u64
  reserved :: u64

instantiation ModifyOrder_ext :: (default) default
begin
definition default_ModifyOrder_ext :: "'a ModifyOrder_scheme" where
  "default_ModifyOrder_ext =
     \<lparr>ModifyOrder.client_order_id = 0, ModifyOrder.new_price = 0,
      ModifyOrder.new_quantity = 0, ModifyOrder.reserved = 0,
      \<dots> = default\<rparr>"
instance ..
end

definition ModifyOrder_off_id :: nat where
  [simp]: "ModifyOrder_off_id = 0"

definition ModifyOrder_off_new_price :: nat where
  [simp]: "ModifyOrder_off_new_price = 8"

definition ModifyOrder_off_new_quantity :: nat where
  [simp]: "ModifyOrder_off_new_quantity = 16"

record Accepted =
  client_order_id :: u64
  order_handle :: u64
  reserved1 :: u64
  reserved2 :: u64

instantiation Accepted_ext :: (default) default
begin
definition default_Accepted_ext :: "'a Accepted_scheme" where
  "default_Accepted_ext =
     \<lparr>Accepted.client_order_id = 0, Accepted.order_handle = 0,
      Accepted.reserved1 = 0, Accepted.reserved2 = 0,
      \<dots> = default\<rparr>"
instance ..
end

definition Accepted_off_client_order_id :: nat where
  [simp]: "Accepted_off_client_order_id = 0"

definition Accepted_off_order_handle :: nat where
  [simp]: "Accepted_off_order_handle = 8"

definition Accepted_off_reserved1 :: nat where
  [simp]: "Accepted_off_reserved1 = 16"

definition Accepted_off_reserved2 :: nat where
  [simp]: "Accepted_off_reserved2 = 24"

record Rejected =
  client_order_id :: u64
  reason :: RejectReason
  reserved1 :: u64
  reserved2 :: u64

instantiation Rejected_ext :: (default) default
begin
definition default_Rejected_ext :: "'a Rejected_scheme" where
  "default_Rejected_ext =
     \<lparr>Rejected.client_order_id = 0, Rejected.reason = NoReason,
      Rejected.reserved1 = 0, Rejected.reserved2 = 0,
      \<dots> = default\<rparr>"
instance ..
end

definition Rejected_off_client_order_id :: nat where
  [simp]: "Rejected_off_client_order_id = 0"

definition Rejected_off_reason :: nat where
  [simp]: "Rejected_off_reason = 8"

definition Rejected_off_reserved1 :: nat where
  [simp]: "Rejected_off_reserved1 = 16"

definition Rejected_off_reserved2 :: nat where
  [simp]: "Rejected_off_reserved2 = 24"

record Cancelled =
  client_order_id :: u64
  order_handle :: u64
  reserved1 :: u64
  reserved2 :: u64

instantiation Cancelled_ext :: (default) default
begin
definition default_Cancelled_ext :: "'a Cancelled_scheme" where
  "default_Cancelled_ext =
     \<lparr>Cancelled.client_order_id = 0, Cancelled.order_handle = 0,
      Cancelled.reserved1 = 0, Cancelled.reserved2 = 0,
      \<dots> = default\<rparr>"
instance ..
end

definition Cancelled_off_client_order_id :: nat where
  [simp]: "Cancelled_off_client_order_id = 0"

definition Cancelled_off_order_handle :: nat where
  [simp]: "Cancelled_off_order_handle = 8"

definition Cancelled_off_reserved1 :: nat where
  [simp]: "Cancelled_off_reserved1 = 16"

definition Cancelled_off_reserved2 :: nat where
  [simp]: "Cancelled_off_reserved2 = 24"

record Modified =
  client_order_id :: u64
  order_handle :: u64
  reserved1 :: u64
  reserved2 :: u64

instantiation Modified_ext :: (default) default
begin
definition default_Modified_ext :: "'a Modified_scheme" where
  "default_Modified_ext =
     \<lparr>Modified.client_order_id = 0, Modified.order_handle = 0,
      Modified.reserved1 = 0, Modified.reserved2 = 0,
      \<dots> = default\<rparr>"
instance ..
end

definition Modified_off_client_order_id :: nat where
  [simp]: "Modified_off_client_order_id = 0"

definition Modified_off_order_handle :: nat where
  [simp]: "Modified_off_order_handle = 8"

definition Modified_off_reserved1 :: nat where
  [simp]: "Modified_off_reserved1 = 16"

definition Modified_off_reserved2 :: nat where
  [simp]: "Modified_off_reserved2 = 24"

record Trade =
  client_order_id :: u64
  order_handle :: u64
  price :: u64
  quantity :: u64

instantiation Trade_ext :: (default) default
begin
definition default_Trade_ext :: "'a Trade_scheme" where
  "default_Trade_ext =
     \<lparr>Trade.client_order_id = 0, Trade.order_handle = 0,
      Trade.price = 0, Trade.quantity = 0,
      \<dots> = default\<rparr>"
instance ..
end

definition Trade_off_client_order_id :: nat where
  [simp]: "Trade_off_client_order_id = 0"

definition Trade_off_order_handle :: nat where
  [simp]: "Trade_off_order_handle = 8"

definition Trade_off_price :: nat where
  [simp]: "Trade_off_price = 16"

definition Trade_off_quantity :: nat where
  [simp]: "Trade_off_quantity = 24"

record Heartbeat =
  reserved1 :: u64
  reserved2 :: u64
  reserved3 :: u64
  reserved4 :: u64

instantiation Heartbeat_ext :: (default) default
begin
definition default_Heartbeat_ext :: "'a Heartbeat_scheme" where
  "default_Heartbeat_ext =
     \<lparr>Heartbeat.reserved1 = 0, Heartbeat.reserved2 = 0,
      Heartbeat.reserved3 = 0, Heartbeat.reserved4 = 0,
      \<dots> = default\<rparr>"
instance ..
end

record Logout =
  reserved1 :: u64
  reserved2 :: u64
  reserved3 :: u64
  reserved4 :: u64

instantiation Logout_ext :: (default) default
begin
definition default_Logout_ext :: "'a Logout_scheme" where
  "default_Logout_ext =
     \<lparr>Logout.reserved1 = 0, Logout.reserved2 = 0,
      Logout.reserved3 = 0, Logout.reserved4 = 0,
      \<dots> = default\<rparr>"
instance ..
end

lemmas message_defaults [simp] =
  default_MessageHeader_ext_def default_NewOrder_ext_def default_CancelOrder_ext_def
  default_ModifyOrder_ext_def default_Accepted_ext_def default_Rejected_ext_def
  default_Cancelled_ext_def default_Modified_ext_def default_Trade_ext_def
  default_Heartbeat_ext_def default_Logout_ext_def

section \<open>The casts are inverse to each other\<close>

lemma u16_of_MessageType_of_u16 [simp]: "u16_of_MessageType (MessageType_of_u16 w) = w"
  by (simp add: MessageType_of_u16_def)

lemma MessageType_of_u16_ok [simp]: "MessageType_ok (MessageType_of_u16 w)"
  by (simp add: MessageType_of_u16_def)

lemma MessageType_of_u16_inverse: "MessageType_ok t \<Longrightarrow> MessageType_of_u16 (u16_of_MessageType t) = t"
  by (cases t) (simp_all add: MessageType_of_u16_def)

lemma u64_of_Side_of_u64 [simp]: "u64_of_Side (Side_of_u64 w) = w"
  by (simp add: Side_of_u64_def)

lemma Side_of_u64_ok [simp]: "Side_ok (Side_of_u64 w)"
  by (simp add: Side_of_u64_def)

lemma Side_of_u64_inverse: "Side_ok s \<Longrightarrow> Side_of_u64 (u64_of_Side s) = s"
  by (cases s) (simp_all add: Side_of_u64_def)

lemma u64_of_RejectReason_of_u64 [simp]: "u64_of_RejectReason (RejectReason_of_u64 w) = w"
  by (simp add: RejectReason_of_u64_def)

lemma RejectReason_of_u64_ok [simp]: "RejectReason_ok (RejectReason_of_u64 w)"
  by (simp add: RejectReason_of_u64_def)

lemma RejectReason_of_u64_inverse: "RejectReason_ok r \<Longrightarrow> RejectReason_of_u64 (u64_of_RejectReason r) = r"
  by (cases r) (simp_all add: RejectReason_of_u64_def)

end
