(* ===== verification/Codec.thy ===== *)
theory Codec
  imports Protocol
begin

text \<open>
  \<^verbatim>\<open>codec.hpp\<close>: the little-endian load and store helpers, the header codec with its validation,
  and one encoder and one decoder for each message. Every access goes through the bounds-checked
  span operations, so a result \<^term>\<open>None\<close> is an access outside the span (undefined behaviour of
  the C++ code) and a result \<^term>\<open>Some x\<close> is a defined execution. An encoder returns its return
  value and the span it has written; a decoder takes the caller's object, as its reference
  parameter \<^verbatim>\<open>out\<close>, and returns the status with that object updated.
\<close>

section \<open>Little-endian helpers\<close>

text \<open>\<^verbatim>\<open>static_cast<std::byte>((value >> n) & 0xff)\<close>\<close>

definition byte_at :: "nat \<Rightarrow> 'a::len word \<Rightarrow> byte" where
  "byte_at n value = ucast (drop_bit n value AND 0xff)"

definition store_u16_le :: "span \<Rightarrow> nat \<Rightarrow> u16 \<Rightarrow> span option" where
  "store_u16_le out offset value = do {
     out \<leftarrow> span_set out (offset + 0) (byte_at 0 value);
     span_set out (offset + 1) (byte_at 8 value)
   }"

definition store_u32_le :: "span \<Rightarrow> nat \<Rightarrow> u32 \<Rightarrow> span option" where
  "store_u32_le out offset value = do {
     out \<leftarrow> span_set out (offset + 0) (byte_at 0 value);
     out \<leftarrow> span_set out (offset + 1) (byte_at 8 value);
     out \<leftarrow> span_set out (offset + 2) (byte_at 16 value);
     span_set out (offset + 3) (byte_at 24 value)
   }"

definition store_u64_le :: "span \<Rightarrow> nat \<Rightarrow> u64 \<Rightarrow> span option" where
  "store_u64_le out offset value = do {
     out \<leftarrow> span_set out (offset + 0) (byte_at 0 value);
     out \<leftarrow> span_set out (offset + 1) (byte_at 8 value);
     out \<leftarrow> span_set out (offset + 2) (byte_at 16 value);
     out \<leftarrow> span_set out (offset + 3) (byte_at 24 value);
     out \<leftarrow> span_set out (offset + 4) (byte_at 32 value);
     out \<leftarrow> span_set out (offset + 5) (byte_at 40 value);
     out \<leftarrow> span_set out (offset + 6) (byte_at 48 value);
     span_set out (offset + 7) (byte_at 56 value)
   }"

definition load_u16_le :: "span \<Rightarrow> nat \<Rightarrow> u16 option" where
  "load_u16_le inp offset = do {
     let res = 0;
     b \<leftarrow> span_get inp (offset + 0);
     let res = res OR ucast b;
     b \<leftarrow> span_get inp (offset + 1);
     let res = res OR push_bit 8 (ucast b);
     Some res
   }"

definition load_u32_le :: "span \<Rightarrow> nat \<Rightarrow> u32 option" where
  "load_u32_le inp offset = do {
     let res = 0;
     b \<leftarrow> span_get inp (offset + 0);
     let res = res OR ucast b;
     b \<leftarrow> span_get inp (offset + 1);
     let res = res OR push_bit 8 (ucast b);
     b \<leftarrow> span_get inp (offset + 2);
     let res = res OR push_bit 16 (ucast b);
     b \<leftarrow> span_get inp (offset + 3);
     let res = res OR push_bit 24 (ucast b);
     Some res
   }"

definition load_u64_le :: "span \<Rightarrow> nat \<Rightarrow> u64 option" where
  "load_u64_le inp offset = do {
     let res = 0;
     b \<leftarrow> span_get inp (offset + 0);
     let res = res OR ucast b;
     b \<leftarrow> span_get inp (offset + 1);
     let res = res OR push_bit 8 (ucast b);
     b \<leftarrow> span_get inp (offset + 2);
     let res = res OR push_bit 16 (ucast b);
     b \<leftarrow> span_get inp (offset + 3);
     let res = res OR push_bit 24 (ucast b);
     b \<leftarrow> span_get inp (offset + 4);
     let res = res OR push_bit 32 (ucast b);
     b \<leftarrow> span_get inp (offset + 5);
     let res = res OR push_bit 40 (ucast b);
     b \<leftarrow> span_get inp (offset + 6);
     let res = res OR push_bit 48 (ucast b);
     b \<leftarrow> span_get inp (offset + 7);
     let res = res OR push_bit 56 (ucast b);
     Some res
   }"

section \<open>Header\<close>

definition encode_header :: "MessageHeader \<Rightarrow> span \<Rightarrow> span option" where
  "encode_header h out = do {
     out \<leftarrow> store_u32_le out MessageHeader_off_magic (magic h);
     out \<leftarrow> store_u16_le out MessageHeader_off_version (version h);
     out \<leftarrow> store_u16_le out MessageHeader_off_message_type (u16_of_MessageType (message_type h));
     out \<leftarrow> store_u16_le out MessageHeader_off_payload_length (payload_length h);
     out \<leftarrow> store_u16_le out MessageHeader_off_flags (flags h);
     out \<leftarrow> store_u64_le out MessageHeader_off_sequence_number (sequence_number h);
     out \<leftarrow> store_u64_le out MessageHeader_off_session_id (session_id h);
     store_u32_le out MessageHeader_off_reserved (MessageHeader.reserved h)
   }"

definition decode_header :: "span \<Rightarrow> MessageHeader \<Rightarrow> (DecodeStatus \<times> MessageHeader) option" where
  "decode_header inp out =
     (if length inp < kHeaderSize then Some (DecodeStatus.NeedMoreData, out)
      else do {
        w \<leftarrow> load_u32_le inp MessageHeader_off_magic;
        let out = out\<lparr>magic := w\<rparr>;
        w \<leftarrow> load_u16_le inp MessageHeader_off_version;
        let out = out\<lparr>version := w\<rparr>;
        w \<leftarrow> load_u16_le inp MessageHeader_off_message_type;
        let out = out\<lparr>message_type := MessageType_of_u16 w\<rparr>;
        w \<leftarrow> load_u16_le inp MessageHeader_off_payload_length;
        let out = out\<lparr>payload_length := w\<rparr>;
        w \<leftarrow> load_u16_le inp MessageHeader_off_flags;
        let out = out\<lparr>flags := w\<rparr>;
        w \<leftarrow> load_u64_le inp MessageHeader_off_sequence_number;
        let out = out\<lparr>sequence_number := w\<rparr>;
        w \<leftarrow> load_u64_le inp MessageHeader_off_session_id;
        let out = out\<lparr>session_id := w\<rparr>;
        w \<leftarrow> load_u32_le inp MessageHeader_off_reserved;
        let out = out\<lparr>MessageHeader.reserved := w\<rparr>;
        Some (if magic out \<noteq> kMagic then DecodeStatus.BadMagic
              else if version out \<noteq> kVersion then DecodeStatus.BadVersion
              else DecodeStatus.Ok, out)
      })"

section \<open>Header validation\<close>

fun is_known_request_type :: "MessageType \<Rightarrow> bool" where
  "is_known_request_type MessageType.NewOrder = True"
| "is_known_request_type MessageType.CancelOrder = True"
| "is_known_request_type MessageType.ModifyOrder = True"
| "is_known_request_type MessageType.Heartbeat = True"
| "is_known_request_type MessageType.Logout = True"
| "is_known_request_type _ = False"

fun is_known_response_type :: "MessageType \<Rightarrow> bool" where
  "is_known_response_type MessageType.Accepted = True"
| "is_known_response_type MessageType.Rejected = True"
| "is_known_response_type MessageType.Cancelled = True"
| "is_known_response_type MessageType.Modified = True"
| "is_known_response_type MessageType.Trade = True"
| "is_known_response_type _ = False"

fun expected_payload_size :: "MessageType \<Rightarrow> u16" where
  "expected_payload_size MessageType.NewOrder = of_nat kPayloadSize"
| "expected_payload_size MessageType.CancelOrder = of_nat kPayloadSize"
| "expected_payload_size MessageType.ModifyOrder = of_nat kPayloadSize"
| "expected_payload_size MessageType.Heartbeat = of_nat kPayloadSize"
| "expected_payload_size MessageType.Logout = of_nat kPayloadSize"
| "expected_payload_size _ = 0"

definition validate_header :: "MessageHeader \<Rightarrow> DecodeStatus" where
  "validate_header h =
     (if \<not> is_known_request_type (message_type h) then DecodeStatus.UnknownMessageType
      else let expected = expected_payload_size (message_type h)
           in if payload_length h \<noteq> expected then DecodeStatus.BadPayloadLength
              else DecodeStatus.Ok)"

definition validate_request_header :: "MessageHeader \<Rightarrow> DecodeStatus" where
  "validate_request_header h =
     (if \<not> is_known_request_type (message_type h) then DecodeStatus.UnknownMessageType
      else if payload_length h \<noteq> of_nat kPayloadSize then DecodeStatus.BadPayloadLength
      else DecodeStatus.Ok)"

definition validate_response_header :: "MessageHeader \<Rightarrow> DecodeStatus" where
  "validate_response_header h =
     (if \<not> is_known_response_type (message_type h) then DecodeStatus.UnknownMessageType
      else if payload_length h \<noteq> of_nat kPayloadSize then DecodeStatus.BadPayloadLength
      else DecodeStatus.Ok)"

section \<open>Message encoders and decoders\<close>

text \<open>
  Each encoder copies the caller's header, overwrites \<^verbatim>\<open>message_type\<close> and \<^verbatim>\<open>payload_length\<close> and
  stores the header and then the payload fields. \<^verbatim>\<open>encode_cancel_order\<close> and
  \<^verbatim>\<open>encode_modify_order\<close> leave the reserved payload bytes of the span as they are.
\<close>

definition encode_new_order :: "MessageHeader \<Rightarrow> NewOrder \<Rightarrow> span \<Rightarrow> (nat \<times> span) option" where
  "encode_new_order header order out = do {
     let total_size = kHeaderSize + kPayloadSize;
     let h = header\<lparr>message_type := MessageType.NewOrder, payload_length := of_nat kPayloadSize\<rparr>;
     out \<leftarrow> encode_header h out;
     let base = kHeaderSize;
     out \<leftarrow> store_u64_le out (base + NewOrder_off_id) (NewOrder.client_order_id order);
     out \<leftarrow> store_u64_le out (base + NewOrder_off_side) (u64_of_Side (NewOrder.side order));
     out \<leftarrow> store_u64_le out (base + NewOrder_off_price) (NewOrder.price order);
     out \<leftarrow> store_u64_le out (base + NewOrder_off_quantity) (NewOrder.quantity order);
     Some (total_size, out)
   }"

definition decode_new_order :: "span \<Rightarrow> NewOrder \<Rightarrow> (DecodeStatus \<times> NewOrder) option" where
  "decode_new_order inp out =
     (if length inp < kHeaderSize + kPayloadSize then Some (DecodeStatus.NeedMoreData, out)
      else do {
        let base = kHeaderSize;
        w \<leftarrow> load_u64_le inp (base + NewOrder_off_id);
        let out = out\<lparr>NewOrder.client_order_id := w\<rparr>;
        w \<leftarrow> load_u64_le inp (base + NewOrder_off_side);
        let out = out\<lparr>NewOrder.side := Side_of_u64 w\<rparr>;
        w \<leftarrow> load_u64_le inp (base + NewOrder_off_price);
        let out = out\<lparr>NewOrder.price := w\<rparr>;
        w \<leftarrow> load_u64_le inp (base + NewOrder_off_quantity);
        let out = out\<lparr>NewOrder.quantity := w\<rparr>;
        Some (DecodeStatus.Ok, out)
      })"

definition encode_cancel_order :: "MessageHeader \<Rightarrow> CancelOrder \<Rightarrow> span \<Rightarrow> (nat \<times> span) option" where
  "encode_cancel_order header order out = do {
     let total_size = kHeaderSize + kPayloadSize;
     let h = header\<lparr>message_type := MessageType.CancelOrder, payload_length := of_nat kPayloadSize\<rparr>;
     out \<leftarrow> encode_header h out;
     let base = kHeaderSize;
     out \<leftarrow> store_u64_le out (base + CancelOrder_off_id) (CancelOrder.client_order_id order);
     Some (total_size, out)
   }"

definition decode_cancel_order :: "span \<Rightarrow> CancelOrder \<Rightarrow> (DecodeStatus \<times> CancelOrder) option" where
  "decode_cancel_order inp out =
     (if length inp < kHeaderSize + kPayloadSize then Some (DecodeStatus.NeedMoreData, out)
      else do {
        let base = kHeaderSize;
        w \<leftarrow> load_u64_le inp (base + CancelOrder_off_id);
        let out = out\<lparr>CancelOrder.client_order_id := w\<rparr>;
        Some (DecodeStatus.Ok, out)
      })"

definition encode_modify_order :: "MessageHeader \<Rightarrow> ModifyOrder \<Rightarrow> span \<Rightarrow> (nat \<times> span) option" where
  "encode_modify_order header order out = do {
     let total_size = kHeaderSize + kPayloadSize;
     let h = header\<lparr>message_type := MessageType.ModifyOrder, payload_length := of_nat kPayloadSize\<rparr>;
     out \<leftarrow> encode_header h out;
     let base = kHeaderSize;
     out \<leftarrow> store_u64_le out (base + ModifyOrder_off_id) (ModifyOrder.client_order_id order);
     out \<leftarrow> store_u64_le out (base + ModifyOrder_off_new_price) (ModifyOrder.new_price order);
     out \<leftarrow> store_u64_le out (base + ModifyOrder_off_new_quantity) (ModifyOrder.new_quantity order);
     Some (total_size, out)
   }"

definition decode_modify_order :: "span \<Rightarrow> ModifyOrder \<Rightarrow> (DecodeStatus \<times> ModifyOrder) option" where
  "decode_modify_order inp out =
     (if length inp < kHeaderSize + kPayloadSize then Some (DecodeStatus.NeedMoreData, out)
      else do {
        let base = kHeaderSize;
        w \<leftarrow> load_u64_le inp (base + ModifyOrder_off_id);
        let out = out\<lparr>ModifyOrder.client_order_id := w\<rparr>;
        w \<leftarrow> load_u64_le inp (base + ModifyOrder_off_new_price);
        let out = out\<lparr>ModifyOrder.new_price := w\<rparr>;
        w \<leftarrow> load_u64_le inp (base + ModifyOrder_off_new_quantity);
        let out = out\<lparr>ModifyOrder.new_quantity := w\<rparr>;
        Some (DecodeStatus.Ok, out)
      })"

definition encode_accepted :: "MessageHeader \<Rightarrow> Accepted \<Rightarrow> span \<Rightarrow> (nat \<times> span) option" where
  "encode_accepted header response out = do {
     let h = header\<lparr>message_type := MessageType.Accepted, payload_length := of_nat kPayloadSize\<rparr>;
     out \<leftarrow> encode_header h out;
     let base = kHeaderSize;
     out \<leftarrow> store_u64_le out (base + Accepted_off_client_order_id) (Accepted.client_order_id response);
     out \<leftarrow> store_u64_le out (base + Accepted_off_order_handle) (Accepted.order_handle response);
     out \<leftarrow> store_u64_le out (base + Accepted_off_reserved1) (Accepted.reserved1 response);
     out \<leftarrow> store_u64_le out (base + Accepted_off_reserved2) (Accepted.reserved2 response);
     Some (kFrameSize, out)
   }"

definition decode_accepted :: "span \<Rightarrow> Accepted \<Rightarrow> (DecodeStatus \<times> Accepted) option" where
  "decode_accepted inp out =
     (if length inp < kFrameSize then Some (DecodeStatus.NeedMoreData, out)
      else do {
        let base = kHeaderSize;
        w \<leftarrow> load_u64_le inp (base + Accepted_off_client_order_id);
        let out = out\<lparr>Accepted.client_order_id := w\<rparr>;
        w \<leftarrow> load_u64_le inp (base + Accepted_off_order_handle);
        let out = out\<lparr>Accepted.order_handle := w\<rparr>;
        w \<leftarrow> load_u64_le inp (base + Accepted_off_reserved1);
        let out = out\<lparr>Accepted.reserved1 := w\<rparr>;
        w \<leftarrow> load_u64_le inp (base + Accepted_off_reserved2);
        let out = out\<lparr>Accepted.reserved2 := w\<rparr>;
        Some (DecodeStatus.Ok, out)
      })"

definition encode_rejected :: "MessageHeader \<Rightarrow> Rejected \<Rightarrow> span \<Rightarrow> (nat \<times> span) option" where
  "encode_rejected header response out = do {
     let h = header\<lparr>message_type := MessageType.Rejected, payload_length := of_nat kPayloadSize\<rparr>;
     out \<leftarrow> encode_header h out;
     let base = kHeaderSize;
     out \<leftarrow> store_u64_le out (base + Rejected_off_client_order_id) (Rejected.client_order_id response);
     out \<leftarrow> store_u64_le out (base + Rejected_off_reason) (u64_of_RejectReason (Rejected.reason response));
     out \<leftarrow> store_u64_le out (base + Rejected_off_reserved1) (Rejected.reserved1 response);
     out \<leftarrow> store_u64_le out (base + Rejected_off_reserved2) (Rejected.reserved2 response);
     Some (kFrameSize, out)
   }"

definition decode_rejected :: "span \<Rightarrow> Rejected \<Rightarrow> (DecodeStatus \<times> Rejected) option" where
  "decode_rejected inp out =
     (if length inp < kFrameSize then Some (DecodeStatus.NeedMoreData, out)
      else do {
        let base = kHeaderSize;
        w \<leftarrow> load_u64_le inp (base + Rejected_off_client_order_id);
        let out = out\<lparr>Rejected.client_order_id := w\<rparr>;
        w \<leftarrow> load_u64_le inp (base + Rejected_off_reason);
        let out = out\<lparr>Rejected.reason := RejectReason_of_u64 w\<rparr>;
        w \<leftarrow> load_u64_le inp (base + Rejected_off_reserved1);
        let out = out\<lparr>Rejected.reserved1 := w\<rparr>;
        w \<leftarrow> load_u64_le inp (base + Rejected_off_reserved2);
        let out = out\<lparr>Rejected.reserved2 := w\<rparr>;
        Some (DecodeStatus.Ok, out)
      })"

definition encode_cancelled :: "MessageHeader \<Rightarrow> Cancelled \<Rightarrow> span \<Rightarrow> (nat \<times> span) option" where
  "encode_cancelled header response out = do {
     let h = header\<lparr>message_type := MessageType.Cancelled, payload_length := of_nat kPayloadSize\<rparr>;
     out \<leftarrow> encode_header h out;
     let base = kHeaderSize;
     out \<leftarrow> store_u64_le out (base + Cancelled_off_client_order_id) (Cancelled.client_order_id response);
     out \<leftarrow> store_u64_le out (base + Cancelled_off_order_handle) (Cancelled.order_handle response);
     out \<leftarrow> store_u64_le out (base + Cancelled_off_reserved1) (Cancelled.reserved1 response);
     out \<leftarrow> store_u64_le out (base + Cancelled_off_reserved2) (Cancelled.reserved2 response);
     Some (kFrameSize, out)
   }"

definition decode_cancelled :: "span \<Rightarrow> Cancelled \<Rightarrow> (DecodeStatus \<times> Cancelled) option" where
  "decode_cancelled inp out =
     (if length inp < kFrameSize then Some (DecodeStatus.NeedMoreData, out)
      else do {
        let base = kHeaderSize;
        w \<leftarrow> load_u64_le inp (base + Cancelled_off_client_order_id);
        let out = out\<lparr>Cancelled.client_order_id := w\<rparr>;
        w \<leftarrow> load_u64_le inp (base + Cancelled_off_order_handle);
        let out = out\<lparr>Cancelled.order_handle := w\<rparr>;
        w \<leftarrow> load_u64_le inp (base + Cancelled_off_reserved1);
        let out = out\<lparr>Cancelled.reserved1 := w\<rparr>;
        w \<leftarrow> load_u64_le inp (base + Cancelled_off_reserved2);
        let out = out\<lparr>Cancelled.reserved2 := w\<rparr>;
        Some (DecodeStatus.Ok, out)
      })"

definition encode_modified :: "MessageHeader \<Rightarrow> Modified \<Rightarrow> span \<Rightarrow> (nat \<times> span) option" where
  "encode_modified header response out = do {
     let h = header\<lparr>message_type := MessageType.Modified, payload_length := of_nat kPayloadSize\<rparr>;
     out \<leftarrow> encode_header h out;
     let base = kHeaderSize;
     out \<leftarrow> store_u64_le out (base + Modified_off_client_order_id) (Modified.client_order_id response);
     out \<leftarrow> store_u64_le out (base + Modified_off_order_handle) (Modified.order_handle response);
     out \<leftarrow> store_u64_le out (base + Modified_off_reserved1) (Modified.reserved1 response);
     out \<leftarrow> store_u64_le out (base + Modified_off_reserved2) (Modified.reserved2 response);
     Some (kFrameSize, out)
   }"

definition decode_modified :: "span \<Rightarrow> Modified \<Rightarrow> (DecodeStatus \<times> Modified) option" where
  "decode_modified inp out =
     (if length inp < kFrameSize then Some (DecodeStatus.NeedMoreData, out)
      else do {
        let base = kHeaderSize;
        w \<leftarrow> load_u64_le inp (base + Modified_off_client_order_id);
        let out = out\<lparr>Modified.client_order_id := w\<rparr>;
        w \<leftarrow> load_u64_le inp (base + Modified_off_order_handle);
        let out = out\<lparr>Modified.order_handle := w\<rparr>;
        w \<leftarrow> load_u64_le inp (base + Modified_off_reserved1);
        let out = out\<lparr>Modified.reserved1 := w\<rparr>;
        w \<leftarrow> load_u64_le inp (base + Modified_off_reserved2);
        let out = out\<lparr>Modified.reserved2 := w\<rparr>;
        Some (DecodeStatus.Ok, out)
      })"

definition encode_trade :: "MessageHeader \<Rightarrow> Trade \<Rightarrow> span \<Rightarrow> (nat \<times> span) option" where
  "encode_trade header response out = do {
     let h = header\<lparr>message_type := MessageType.Trade, payload_length := of_nat kPayloadSize\<rparr>;
     out \<leftarrow> encode_header h out;
     let base = kHeaderSize;
     out \<leftarrow> store_u64_le out (base + Trade_off_client_order_id) (Trade.client_order_id response);
     out \<leftarrow> store_u64_le out (base + Trade_off_order_handle) (Trade.order_handle response);
     out \<leftarrow> store_u64_le out (base + Trade_off_price) (Trade.price response);
     out \<leftarrow> store_u64_le out (base + Trade_off_quantity) (Trade.quantity response);
     Some (kFrameSize, out)
   }"

definition decode_trade :: "span \<Rightarrow> Trade \<Rightarrow> (DecodeStatus \<times> Trade) option" where
  "decode_trade inp out =
     (if length inp < kFrameSize then Some (DecodeStatus.NeedMoreData, out)
      else do {
        let base = kHeaderSize;
        w \<leftarrow> load_u64_le inp (base + Trade_off_client_order_id);
        let out = out\<lparr>Trade.client_order_id := w\<rparr>;
        w \<leftarrow> load_u64_le inp (base + Trade_off_order_handle);
        let out = out\<lparr>Trade.order_handle := w\<rparr>;
        w \<leftarrow> load_u64_le inp (base + Trade_off_price);
        let out = out\<lparr>Trade.price := w\<rparr>;
        w \<leftarrow> load_u64_le inp (base + Trade_off_quantity);
        let out = out\<lparr>Trade.quantity := w\<rparr>;
        Some (DecodeStatus.Ok, out)
      })"

section \<open>The helpers are little-endian\<close>

lemma byte_at_ucast [wire_simps]: "byte_at n w = ucast (drop_bit n w)"
proof -
  have "byte_at n w = ucast (take_bit 8 (drop_bit n w))"
    by (simp add: byte_at_def take_bit_eq_mask mask_eq_exp_minus_1)
  also have "\<dots> = ucast (drop_bit n w)"
    by (rule bit_word_eqI) (auto simp: bit_simps dest: bit_imp_le_length)
  finally show ?thesis .
qed

lemma store_u16_le_bytes: "store_u16_le out d v = span_stores out d (le_bytes 2 v)"
  by (simp add: store_u16_le_def wire_simps numeral_eq_Suc)

lemma store_u32_le_bytes: "store_u32_le out d v = span_stores out d (le_bytes 4 v)"
  by (simp add: store_u32_le_def wire_simps numeral_eq_Suc)

lemma store_u64_le_bytes: "store_u64_le out d v = span_stores out d (le_bytes 8 v)"
  by (simp add: store_u64_le_def wire_simps numeral_eq_Suc)

lemma le_bytes_neq_Nil: "0 < n \<Longrightarrow> le_bytes n w \<noteq> []"
  by (cases n) auto

lemma store_le_blit [wire_simps]:
  "store_u16_le out d a = (if d + 2 \<le> length out then Some (blit out d (le_bytes 2 a)) else None)"
  "store_u32_le out d b = (if d + 4 \<le> length out then Some (blit out d (le_bytes 4 b)) else None)"
  "store_u64_le out d c = (if d + 8 \<le> length out then Some (blit out d (le_bytes 8 c)) else None)"
  by (simp_all add: store_u16_le_bytes store_u32_le_bytes store_u64_le_bytes span_stores_blit
      le_bytes_neq_Nil)

text \<open>Loading \<open>n\<close> bytes one by one, and what the unrolled loads compute.\<close>

lemma take_drop_Cons:
  "d < length xs \<Longrightarrow> take (Suc n) (drop d xs) = xs ! d # take n (drop (Suc d) xs)"
  by (simp add: Cons_nth_drop_Suc [symmetric])

lemma load_u16_le_word [wire_simps]:
  "load_u16_le inp d = (if d + 2 \<le> length inp then Some (le_word (take 2 (drop d inp))) else None)"
  by (simp add: load_u16_le_def span_get_def take_drop_Cons numeral_eq_Suc)

lemma load_u32_le_word [wire_simps]:
  "load_u32_le inp d = (if d + 4 \<le> length inp then Some (le_word (take 4 (drop d inp))) else None)"
  by (simp add: load_u32_le_def span_get_def take_drop_Cons numeral_eq_Suc or.assoc)

lemma load_u64_le_word [wire_simps]:
  "load_u64_le inp d = (if d + 8 \<le> length inp then Some (le_word (take 8 (drop d inp))) else None)"
  by (simp add: load_u64_le_def span_get_def take_drop_Cons numeral_eq_Suc or.assoc)

section \<open>The wire image of a header\<close>

definition header_bytes :: "MessageHeader \<Rightarrow> byte list" where
  "header_bytes h =
     le_bytes 4 (magic h) @ le_bytes 2 (version h) @
     le_bytes 2 (u16_of_MessageType (message_type h)) @ le_bytes 2 (payload_length h) @
     le_bytes 2 (flags h) @ le_bytes 8 (sequence_number h) @ le_bytes 8 (session_id h) @
     le_bytes 4 (MessageHeader.reserved h)"

lemma length_header_bytes [simp]: "length (header_bytes h) = 32"
  by (simp add: header_bytes_def)

lemma blit_extend [wire_simps]:
  "d' = d + length ys \<Longrightarrow> d' \<le> length xs \<Longrightarrow> blit (blit xs d ys) d' zs = blit xs d (ys @ zs)"
  by (simp add: blit_append)

lemma encode_header_layout [wire_simps]:
  "encode_header h out = (if 32 \<le> length out then Some (blit out 0 (header_bytes h)) else None)"
  by (simp add: encode_header_def wire_simps header_bytes_def)

definition header_status :: "MessageHeader \<Rightarrow> DecodeStatus" where
  "header_status h =
     (if magic h \<noteq> kMagic then DecodeStatus.BadMagic
      else if version h \<noteq> kVersion then DecodeStatus.BadVersion else DecodeStatus.Ok)"

definition read_header :: "byte list \<Rightarrow> MessageHeader" where
  "read_header bs =
     \<lparr>magic = le_word (take 4 bs), version = le_word (take 2 (drop 4 bs)),
      message_type = MessageType_of_u16 (le_word (take 2 (drop 6 bs))),
      payload_length = le_word (take 2 (drop 8 bs)), flags = le_word (take 2 (drop 10 bs)),
      sequence_number = le_word (take 8 (drop 12 bs)), session_id = le_word (take 8 (drop 20 bs)),
      MessageHeader.reserved = le_word (take 4 (drop 28 bs))\<rparr>"

lemma decode_header_layout:
  "decode_header inp old =
     (if length inp < 32 then Some (DecodeStatus.NeedMoreData, old)
      else Some (header_status (read_header inp), read_header inp))"
  by (simp add: decode_header_def wire_simps header_status_def read_header_def Let_def)

lemma read_header_bytes:
  "MessageType_ok (message_type h) \<Longrightarrow> read_header (header_bytes h @ rest) = h"
  by (simp add: read_header_def header_bytes_def wire_simps MessageType_of_u16_inverse)

lemma le_bytes_read [wire_simps]:
  "length bs = 2 \<Longrightarrow> le_bytes 2 (le_word bs :: u16) = bs"
  "length bs = 4 \<Longrightarrow> le_bytes 4 (le_word bs :: u32) = bs"
  "length bs = 8 \<Longrightarrow> le_bytes 8 (le_word bs :: u64) = bs"
  using le_bytes_le_word [of bs, where 'a = 16] le_bytes_le_word [of bs, where 'a = 32]
    le_bytes_le_word [of bs, where 'a = 64] by auto

text \<open>Consecutive slices of a list glue back together.\<close>

lemma slice_glue [wire_simps]:
  "d' = d + n \<Longrightarrow> take n (drop d xs) @ take m (drop d' xs) = take (n + m) (drop d xs)"
  by (simp add: take_add add.commute [of d n])

lemma slice_glue_0 [wire_simps]:
  "take n xs @ take m (drop n xs) = take (n + m) xs"
  by (simp add: take_add)

lemma slice_glue_0_assoc [wire_simps]:
  "take n xs @ take m (drop n xs) @ ys = take (n + m) xs @ ys"
  by (simp add: take_add)

lemma slice_glue_assoc [wire_simps]:
  "d' = d + n \<Longrightarrow> take n (drop d xs) @ take m (drop d' xs) @ ys = take (n + m) (drop d xs) @ ys"
  by (simp add: take_add add.commute [of d n])

lemma header_bytes_read:
  assumes "32 \<le> length bs"
  shows "header_bytes (read_header bs) = take 32 bs"
  using assms
  by (simp add: header_bytes_def read_header_def wire_simps)

section \<open>The interface of a message codec\<close>

text \<open>
  What the clients of the codec rely on, for one message type. \<open>payload\<close> is the wire image of
  the fields an encoder stores, \<open>read\<close> what a decoder makes of the payload bytes and the object
  it fills, and \<open>transfer m old\<close> the object \<open>old\<close> with the transmitted fields of \<open>m\<close>.
\<close>

definition stamp :: "MessageType \<Rightarrow> MessageHeader \<Rightarrow> MessageHeader" where
  "stamp t h = h\<lparr>message_type := t, payload_length := of_nat kPayloadSize\<rparr>"

locale message_codec =
  fixes encode :: "MessageHeader \<Rightarrow> 'm \<Rightarrow> span \<Rightarrow> (nat \<times> span) option"
    and decode :: "span \<Rightarrow> 'm \<Rightarrow> (DecodeStatus \<times> 'm) option"
    and mtype :: MessageType
    and payload :: "'m \<Rightarrow> byte list"
    and read :: "byte list \<Rightarrow> 'm \<Rightarrow> 'm"
    and transfer :: "'m \<Rightarrow> 'm \<Rightarrow> 'm"
    and ok :: "'m \<Rightarrow> bool"
  assumes encode_layout:
      "encode h m out =
         (if 32 + length (payload m) \<le> length out
          then Some (64, blit out 0 (header_bytes (stamp mtype h) @ payload m)) else None)"
    and decode_layout:
      "decode inp old =
         (if length inp < 64 then Some (DecodeStatus.NeedMoreData, old)
          else Some (DecodeStatus.Ok, read (drop 32 inp) old))"
    and payload_fits: "length (payload m) \<le> 32"
    and read_payload: "ok m \<Longrightarrow> read (payload m @ rest) old = transfer m old"
    and mtype_named: "MessageType_ok mtype"
begin

lemma encode_defined:
  assumes "64 \<le> length out"
  shows "encode h m out = Some (64, blit out 0 (header_bytes (stamp mtype h) @ payload m))"
  using assms payload_fits [of m] by (simp add: encode_layout)

lemma encode_frame:
  assumes "encode h m out = Some (n, out')"
  shows "n = 64" and "length out' = length out" and "drop 64 out' = drop 64 out"
proof -
  have "32 + length (payload m) \<le> length out"
    and out': "out' = blit out 0 (header_bytes (stamp mtype h) @ payload m)" and n: "n = 64"
    using assms by (auto simp: encode_layout split: if_splits)
  then show "length out' = length out" by simp
  have "drop (64 - (32 + length (payload m))) (drop (32 + length (payload m)) out') = drop 64 out"
    using payload_fits [of m] out' by (simp add: blit_def)
  then show "drop 64 out' = drop 64 out" using payload_fits [of m] by simp
  show "n = 64" by (fact n)
qed

lemma encode_header_decodes:
  assumes "encode h m out = Some (n, out')"
  shows "decode_header out' old = Some (header_status h, stamp mtype h)"
proof -
  have "out' = header_bytes (stamp mtype h) @ payload m @ drop (32 + length (payload m)) out"
    and "32 \<le> length out"
    using assms by (auto simp: encode_layout blit_def split: if_splits)
  moreover have "MessageType_ok (message_type (stamp mtype h))"
    by (simp add: stamp_def mtype_named)
  ultimately have "decode_header out' old = Some (header_status (stamp mtype h), stamp mtype h)"
    by (simp add: decode_header_layout read_header_bytes)
  then show ?thesis by (simp add: header_status_def stamp_def)
qed

lemma decode_encode:
  assumes "64 \<le> length out" and "ok m" and "encode h m out = Some (n, out')"
  shows "decode out' old = Some (DecodeStatus.Ok, transfer m old)"
proof -
  have "out' = header_bytes (stamp mtype h) @ payload m @ drop (32 + length (payload m)) out"
    using assms(1,3) encode_defined [of out h m] by (simp add: blit_def)
  moreover have "length out' = length out" using assms(3) by (rule encode_frame)
  ultimately show ?thesis using assms(1) read_payload [OF assms(2)] by (simp add: decode_layout)
qed

text \<open>The whole contract of an encoder on a frame-sized span.\<close>

lemma roundtrip:
  assumes "64 \<le> length out" and "ok m"
  shows "\<exists>out'. encode h m out = Some (64, out') \<and> length out' = length out \<and>
           drop 64 out' = drop 64 out \<and>
           decode_header out' hdr = Some (header_status h, stamp mtype h) \<and>
           decode out' old = Some (DecodeStatus.Ok, transfer m old)"
proof -
  obtain out' where e: "encode h m out = Some (64, out')"
    using encode_defined [OF assms(1)] by blast
  then show ?thesis
    using encode_frame [OF e] encode_header_decodes [OF e] decode_encode [OF assms e] by blast
qed

lemma decode_defined: "\<exists>st m. decode inp old = Some (st, m)"
  by (simp add: decode_layout)

end

text \<open>A codec that transmits the whole payload: what was decoded determines the 32 payload bytes.\<close>

locale full_codec = message_codec +
  assumes transfer_all: "transfer m old = m"
    and payload_read: "32 \<le> length bs \<Longrightarrow> payload (read bs old) = take 32 bs"
begin

lemma encode_decode:
  assumes "64 \<le> length inp" and "decode inp old = Some (DecodeStatus.Ok, m)"
    and "message_type h = mtype" and "payload_length h = 32"
    and "take 32 inp = header_bytes h" and "length out = 64"
  shows "encode h m out = Some (64, take 64 inp)"
proof -
  have m: "m = read (drop 32 inp) old" using assms(1,2) by (simp add: decode_layout)
  have p: "payload m = take 32 (drop 32 inp)" using assms(1) unfolding m by (simp add: payload_read)
  have h: "stamp mtype h = h" using assms(3,4) by (simp add: stamp_def)
  have "take 64 inp = take 32 inp @ take 32 (drop 32 inp)" using take_add [of 32 32 inp] by simp
  then show ?thesis using assms(1,5,6) p h by (simp add: encode_layout blit_def)
qed

end

context full_codec
begin

lemma response:
  assumes "64 \<le> length out" and "header_status h = DecodeStatus.Ok"
    and "is_known_response_type mtype" and "ok m"
  shows "\<exists>o1 h1. encode h m out = Some (64, o1) \<and> decode_header o1 hdr = Some (DecodeStatus.Ok, h1) \<and>
           validate_response_header h1 = DecodeStatus.Ok \<and> decode o1 old = Some (DecodeStatus.Ok, m)"
proof -
  have "validate_response_header (stamp mtype h) = DecodeStatus.Ok"
    using assms(3) by (simp add: validate_response_header_def stamp_def)
  then show ?thesis
    using roundtrip [OF assms(1,4), of h hdr old] assms(2) by (auto simp: transfer_all)
qed

end

section \<open>The eight codecs keep the interface\<close>

lemmas codec_simps = wire_simps stamp_def Let_def Side_of_u64_inverse RejectReason_of_u64_inverse

definition new_order_payload :: "NewOrder \<Rightarrow> byte list" where
  "new_order_payload m =
     le_bytes 8 (NewOrder.client_order_id m) @
     le_bytes 8 (u64_of_Side (NewOrder.side m)) @
     le_bytes 8 (NewOrder.price m) @
     le_bytes 8 (NewOrder.quantity m)"

definition new_order_read :: "byte list \<Rightarrow> NewOrder \<Rightarrow> NewOrder" where
  "new_order_read bs m =
     m\<lparr>NewOrder.client_order_id := le_word (take 8 bs),
       NewOrder.side := Side_of_u64 (le_word (take 8 (drop 8 bs))),
       NewOrder.price := le_word (take 8 (drop 16 bs)),
       NewOrder.quantity := le_word (take 8 (drop 24 bs))\<rparr>"

interpretation new_order_codec: full_codec encode_new_order decode_new_order MessageType.NewOrder
    new_order_payload new_order_read "\<lambda>m old. m" "\<lambda>m. Side_ok (NewOrder.side m)"
  by unfold_locales
    (simp_all add: encode_new_order_def decode_new_order_def new_order_payload_def new_order_read_def
      codec_simps)

definition cancel_order_payload :: "CancelOrder \<Rightarrow> byte list" where
  "cancel_order_payload m =
     le_bytes 8 (CancelOrder.client_order_id m)"

definition cancel_order_read :: "byte list \<Rightarrow> CancelOrder \<Rightarrow> CancelOrder" where
  "cancel_order_read bs m =
     m\<lparr>CancelOrder.client_order_id := le_word (take 8 bs)\<rparr>"

definition cancel_order_transfer :: "CancelOrder \<Rightarrow> CancelOrder \<Rightarrow> CancelOrder" where
  "cancel_order_transfer m old =
     old\<lparr>CancelOrder.client_order_id := CancelOrder.client_order_id m\<rparr>"

interpretation cancel_order_codec: message_codec encode_cancel_order decode_cancel_order MessageType.CancelOrder
    cancel_order_payload cancel_order_read cancel_order_transfer "\<lambda>m. True"
  by unfold_locales
    (simp_all add: encode_cancel_order_def decode_cancel_order_def cancel_order_payload_def
      cancel_order_read_def cancel_order_transfer_def codec_simps)

definition modify_order_payload :: "ModifyOrder \<Rightarrow> byte list" where
  "modify_order_payload m =
     le_bytes 8 (ModifyOrder.client_order_id m) @
     le_bytes 8 (ModifyOrder.new_price m) @
     le_bytes 8 (ModifyOrder.new_quantity m)"

definition modify_order_read :: "byte list \<Rightarrow> ModifyOrder \<Rightarrow> ModifyOrder" where
  "modify_order_read bs m =
     m\<lparr>ModifyOrder.client_order_id := le_word (take 8 bs),
       ModifyOrder.new_price := le_word (take 8 (drop 8 bs)),
       ModifyOrder.new_quantity := le_word (take 8 (drop 16 bs))\<rparr>"

definition modify_order_transfer :: "ModifyOrder \<Rightarrow> ModifyOrder \<Rightarrow> ModifyOrder" where
  "modify_order_transfer m old =
     old\<lparr>ModifyOrder.client_order_id := ModifyOrder.client_order_id m,
         ModifyOrder.new_price := ModifyOrder.new_price m,
         ModifyOrder.new_quantity := ModifyOrder.new_quantity m\<rparr>"

interpretation modify_order_codec: message_codec encode_modify_order decode_modify_order MessageType.ModifyOrder
    modify_order_payload modify_order_read modify_order_transfer "\<lambda>m. True"
  by unfold_locales
    (simp_all add: encode_modify_order_def decode_modify_order_def modify_order_payload_def
      modify_order_read_def modify_order_transfer_def codec_simps)

definition accepted_payload :: "Accepted \<Rightarrow> byte list" where
  "accepted_payload m =
     le_bytes 8 (Accepted.client_order_id m) @
     le_bytes 8 (Accepted.order_handle m) @
     le_bytes 8 (Accepted.reserved1 m) @
     le_bytes 8 (Accepted.reserved2 m)"

definition accepted_read :: "byte list \<Rightarrow> Accepted \<Rightarrow> Accepted" where
  "accepted_read bs m =
     m\<lparr>Accepted.client_order_id := le_word (take 8 bs),
       Accepted.order_handle := le_word (take 8 (drop 8 bs)),
       Accepted.reserved1 := le_word (take 8 (drop 16 bs)),
       Accepted.reserved2 := le_word (take 8 (drop 24 bs))\<rparr>"

interpretation accepted_codec: full_codec encode_accepted decode_accepted MessageType.Accepted
    accepted_payload accepted_read "\<lambda>m old. m" "\<lambda>m. True"
  by unfold_locales
    (simp_all add: encode_accepted_def decode_accepted_def accepted_payload_def accepted_read_def
      codec_simps)

definition rejected_payload :: "Rejected \<Rightarrow> byte list" where
  "rejected_payload m =
     le_bytes 8 (Rejected.client_order_id m) @
     le_bytes 8 (u64_of_RejectReason (Rejected.reason m)) @
     le_bytes 8 (Rejected.reserved1 m) @
     le_bytes 8 (Rejected.reserved2 m)"

definition rejected_read :: "byte list \<Rightarrow> Rejected \<Rightarrow> Rejected" where
  "rejected_read bs m =
     m\<lparr>Rejected.client_order_id := le_word (take 8 bs),
       Rejected.reason := RejectReason_of_u64 (le_word (take 8 (drop 8 bs))),
       Rejected.reserved1 := le_word (take 8 (drop 16 bs)),
       Rejected.reserved2 := le_word (take 8 (drop 24 bs))\<rparr>"

interpretation rejected_codec: full_codec encode_rejected decode_rejected MessageType.Rejected
    rejected_payload rejected_read "\<lambda>m old. m" "\<lambda>m. RejectReason_ok (Rejected.reason m)"
  by unfold_locales
    (simp_all add: encode_rejected_def decode_rejected_def rejected_payload_def rejected_read_def
      codec_simps)

definition cancelled_payload :: "Cancelled \<Rightarrow> byte list" where
  "cancelled_payload m =
     le_bytes 8 (Cancelled.client_order_id m) @
     le_bytes 8 (Cancelled.order_handle m) @
     le_bytes 8 (Cancelled.reserved1 m) @
     le_bytes 8 (Cancelled.reserved2 m)"

definition cancelled_read :: "byte list \<Rightarrow> Cancelled \<Rightarrow> Cancelled" where
  "cancelled_read bs m =
     m\<lparr>Cancelled.client_order_id := le_word (take 8 bs),
       Cancelled.order_handle := le_word (take 8 (drop 8 bs)),
       Cancelled.reserved1 := le_word (take 8 (drop 16 bs)),
       Cancelled.reserved2 := le_word (take 8 (drop 24 bs))\<rparr>"

interpretation cancelled_codec: full_codec encode_cancelled decode_cancelled MessageType.Cancelled
    cancelled_payload cancelled_read "\<lambda>m old. m" "\<lambda>m. True"
  by unfold_locales
    (simp_all add: encode_cancelled_def decode_cancelled_def cancelled_payload_def cancelled_read_def
      codec_simps)

definition modified_payload :: "Modified \<Rightarrow> byte list" where
  "modified_payload m =
     le_bytes 8 (Modified.client_order_id m) @
     le_bytes 8 (Modified.order_handle m) @
     le_bytes 8 (Modified.reserved1 m) @
     le_bytes 8 (Modified.reserved2 m)"

definition modified_read :: "byte list \<Rightarrow> Modified \<Rightarrow> Modified" where
  "modified_read bs m =
     m\<lparr>Modified.client_order_id := le_word (take 8 bs),
       Modified.order_handle := le_word (take 8 (drop 8 bs)),
       Modified.reserved1 := le_word (take 8 (drop 16 bs)),
       Modified.reserved2 := le_word (take 8 (drop 24 bs))\<rparr>"

interpretation modified_codec: full_codec encode_modified decode_modified MessageType.Modified
    modified_payload modified_read "\<lambda>m old. m" "\<lambda>m. True"
  by unfold_locales
    (simp_all add: encode_modified_def decode_modified_def modified_payload_def modified_read_def
      codec_simps)

definition trade_payload :: "Trade \<Rightarrow> byte list" where
  "trade_payload m =
     le_bytes 8 (Trade.client_order_id m) @
     le_bytes 8 (Trade.order_handle m) @
     le_bytes 8 (Trade.price m) @
     le_bytes 8 (Trade.quantity m)"

definition trade_read :: "byte list \<Rightarrow> Trade \<Rightarrow> Trade" where
  "trade_read bs m =
     m\<lparr>Trade.client_order_id := le_word (take 8 bs),
       Trade.order_handle := le_word (take 8 (drop 8 bs)),
       Trade.price := le_word (take 8 (drop 16 bs)),
       Trade.quantity := le_word (take 8 (drop 24 bs))\<rparr>"

interpretation trade_codec: full_codec encode_trade decode_trade MessageType.Trade
    trade_payload trade_read "\<lambda>m old. m" "\<lambda>m. True"
  by unfold_locales
    (simp_all add: encode_trade_def decode_trade_def trade_payload_def trade_read_def
      codec_simps)

section \<open>Properties\<close>

text \<open>
  C36. The unrolled store and load helpers are the little-endian encoding: a store writes the
  \<open>n\<close>-byte little-endian image of the value at the offset and nothing else, a load reads it
  back, and both are undefined exactly if one of the bytes lies outside the span.
\<close>

theorem helpers_little_endian:
  "store_u16_le out d a = (if d + 2 \<le> length out then Some (blit out d (le_bytes 2 a)) else None) \<and>
   store_u32_le out d b = (if d + 4 \<le> length out then Some (blit out d (le_bytes 4 b)) else None) \<and>
   store_u64_le out d c = (if d + 8 \<le> length out then Some (blit out d (le_bytes 8 c)) else None) \<and>
   load_u16_le out d = (if d + 2 \<le> length out then Some (le_word (take 2 (drop d out))) else None) \<and>
   load_u32_le out d = (if d + 4 \<le> length out then Some (le_word (take 4 (drop d out))) else None) \<and>
   load_u64_le out d = (if d + 8 \<le> length out then Some (le_word (take 8 (drop d out))) else None)"
  by (simp add: wire_simps)

text \<open>
  A header survives the wire: on a span of at least 32 bytes \<open>encode_header\<close> is defined,
  leaves the bytes from offset 32 on unchanged, and \<open>decode_header\<close> of the result fills its
  object with the encoded header and reports \<open>BadMagic\<close> or \<open>BadVersion\<close> exactly if the header has
  a foreign magic number or, with the right one, a foreign version.
\<close>

theorem header_roundtrip:
  assumes "32 \<le> length out" and "MessageType_ok (message_type h)"
  shows "\<exists>out'. encode_header h out = Some out' \<and> length out' = length out \<and>
           drop 32 out' = drop 32 out \<and>
           decode_header out' old =
             Some (if magic h \<noteq> kMagic then DecodeStatus.BadMagic
                   else if version h \<noteq> kVersion then DecodeStatus.BadVersion
                   else DecodeStatus.Ok, h)"
  using assms drop_blit_0 [of "header_bytes h" out]
  by (simp add: encode_header_layout decode_header_layout blit_def read_header_bytes header_status_def)

theorem header_roundtrip_witness:
  "\<exists>out'. encode_header (default\<lparr>sequence_number := 7\<rparr>) (replicate 64 0xff) = Some out' \<and>
     decode_header out' default = Some (DecodeStatus.Ok, default\<lparr>sequence_number := 7\<rparr>)"
proof -
  have "32 \<le> length (replicate 64 (0xff :: byte))" by simp
  moreover have "MessageType_ok (message_type (default\<lparr>sequence_number := 7\<rparr> :: MessageHeader))"
    by (simp add: default_MessageType_def)
  ultimately show ?thesis using header_roundtrip [of "replicate 64 0xff" "default\<lparr>sequence_number := 7\<rparr>" default]
    by auto
qed

text \<open>
  The header decoder loses nothing: what it stores in its object, encoded again, is the first
  32 bytes of the input, whatever status it reports. So two different headers on the wire are
  never confused.
\<close>

theorem header_decode_lossless:
  assumes "32 \<le> length inp" and "length out = 32"
  shows "\<exists>st h. decode_header inp old = Some (st, h) \<and> encode_header h out = Some (take 32 inp)"
  using assms header_bytes_read [OF assms(1)]
  by (simp add: decode_header_layout encode_header_layout blit_whole)

theorem header_decode_lossless_witness:
  "\<exists>st h. decode_header (replicate 40 0x55) default = Some (st, h) \<and>
     encode_header h (replicate 32 0) = Some (replicate 32 0x55)"
  using header_decode_lossless [of "replicate 40 0x55" "replicate 32 0" default] by simp

text \<open>
  C30. \<open>NewOrder\<close> round trip: on a frame-sized span the encoder is defined and returns 64, it writes
  nothing behind the frame, the header decodes to the caller's header with the type and the
  payload length of a new order, and \<open>decode_new_order\<close> returns the order that was encoded.
\<close>

theorem new_order_roundtrip:
  assumes "64 \<le> length out" and "Side_ok (side order)"
  shows "\<exists>out'. encode_new_order hdr order out = Some (64, out') \<and> length out' = length out \<and>
           drop 64 out' = drop 64 out \<and>
           decode_header out' h0 = Some (header_status hdr,
             hdr\<lparr>message_type := MessageType.NewOrder, payload_length := 32\<rparr>) \<and>
           decode_new_order out' o0 = Some (DecodeStatus.Ok, order)"
  using new_order_codec.roundtrip [OF assms] by (simp add: stamp_def)

theorem new_order_roundtrip_witness:
  "\<exists>out'. encode_new_order default (default\<lparr>side := Side.Sell, NewOrder.price := 10000\<rparr>) (replicate 64 0)
       = Some (64, out') \<and>
     decode_new_order out' default = Some (DecodeStatus.Ok, default\<lparr>side := Side.Sell, NewOrder.price := 10000\<rparr>)"
  using new_order_roundtrip [of "replicate 64 0" "default\<lparr>side := Side.Sell, NewOrder.price := 10000\<rparr>"
      default default default] by auto

text \<open>
  C31. \<open>CancelOrder\<close> and \<open>ModifyOrder\<close> round trips: the transmitted fields arrive, and the decoder
  leaves the reserved fields of the object it fills as they were.
\<close>

theorem cancel_modify_roundtrip:
  assumes "64 \<le> length out"
  shows "(\<exists>out'. encode_cancel_order hdr c out = Some (64, out') \<and> length out' = length out \<and>
            decode_header out' h0 = Some (header_status hdr,
              hdr\<lparr>message_type := MessageType.CancelOrder, payload_length := 32\<rparr>) \<and>
            decode_cancel_order out' c0 = Some (DecodeStatus.Ok,
              c0\<lparr>CancelOrder.client_order_id := CancelOrder.client_order_id c\<rparr>)) \<and>
         (\<exists>out'. encode_modify_order hdr m out = Some (64, out') \<and> length out' = length out \<and>
            decode_header out' h0 = Some (header_status hdr,
              hdr\<lparr>message_type := MessageType.ModifyOrder, payload_length := 32\<rparr>) \<and>
            decode_modify_order out' m0 = Some (DecodeStatus.Ok,
              m0\<lparr>ModifyOrder.client_order_id := ModifyOrder.client_order_id m,
                new_price := new_price m, new_quantity := new_quantity m\<rparr>))"
  using cancel_order_codec.roundtrip [OF assms TrueI, of hdr c h0 c0]
    modify_order_codec.roundtrip [OF assms TrueI, of hdr m h0 m0]
  by (auto simp: stamp_def cancel_order_transfer_def modify_order_transfer_def)

theorem cancel_modify_roundtrip_witness:
  "(\<exists>out'. encode_cancel_order default (default\<lparr>CancelOrder.client_order_id := 9\<rparr>) (replicate 64 0)
        = Some (64, out') \<and>
      decode_cancel_order out' default = Some (DecodeStatus.Ok, default\<lparr>CancelOrder.client_order_id := 9\<rparr>)) \<and>
   (\<exists>out'. encode_modify_order default (default\<lparr>new_price := 5\<rparr>) (replicate 64 0) = Some (64, out') \<and>
      decode_modify_order out' default = Some (DecodeStatus.Ok, default\<lparr>new_price := 5\<rparr>))"
  using cancel_modify_roundtrip [of "replicate 64 0" default "default\<lparr>CancelOrder.client_order_id := 9\<rparr>"
      default default "default\<lparr>new_price := 5\<rparr>" default]
  by auto

text \<open>
  C32. The five responses survive the wire. Each encoder fills the whole 64-byte
  frame, so the client's decoder returns the response that the gateway encoded, its header has
  the response type and is accepted by \<open>validate_response_header\<close>.
\<close>

theorem response_roundtrip:
  assumes "64 \<le> length out" and "header_status hdr = DecodeStatus.Ok" and "RejectReason_ok (reason r)"
  shows "(\<exists>o1 h1. encode_accepted hdr a out = Some (64, o1) \<and>
            decode_header o1 h0 = Some (DecodeStatus.Ok, h1) \<and>
            validate_response_header h1 = DecodeStatus.Ok \<and> decode_accepted o1 a0 = Some (DecodeStatus.Ok, a)) \<and>
         (\<exists>o1 h1. encode_rejected hdr r out = Some (64, o1) \<and>
            decode_header o1 h0 = Some (DecodeStatus.Ok, h1) \<and>
            validate_response_header h1 = DecodeStatus.Ok \<and> decode_rejected o1 r0 = Some (DecodeStatus.Ok, r)) \<and>
         (\<exists>o1 h1. encode_cancelled hdr c out = Some (64, o1) \<and>
            decode_header o1 h0 = Some (DecodeStatus.Ok, h1) \<and>
            validate_response_header h1 = DecodeStatus.Ok \<and> decode_cancelled o1 c0 = Some (DecodeStatus.Ok, c)) \<and>
         (\<exists>o1 h1. encode_modified hdr m out = Some (64, o1) \<and>
            decode_header o1 h0 = Some (DecodeStatus.Ok, h1) \<and>
            validate_response_header h1 = DecodeStatus.Ok \<and> decode_modified o1 m0 = Some (DecodeStatus.Ok, m)) \<and>
         (\<exists>o1 h1. encode_trade hdr t out = Some (64, o1) \<and>
            decode_header o1 h0 = Some (DecodeStatus.Ok, h1) \<and>
            validate_response_header h1 = DecodeStatus.Ok \<and> decode_trade o1 t0 = Some (DecodeStatus.Ok, t))"
  by (intro conjI accepted_codec.response rejected_codec.response cancelled_codec.response
      modified_codec.response trade_codec.response assms) simp_all

theorem response_roundtrip_witness:
  "\<exists>o1. encode_rejected default (default\<lparr>reason := InvalidPrice\<rparr>) (replicate 64 0) = Some (64, o1) \<and>
    decode_rejected o1 default = Some (DecodeStatus.Ok, default\<lparr>reason := InvalidPrice\<rparr>)"
proof -
  have "64 \<le> length (replicate 64 (0 :: byte))" "header_status default = DecodeStatus.Ok"
    "RejectReason_ok (reason (default\<lparr>reason := InvalidPrice\<rparr> :: Rejected))"
    by (simp_all add: header_status_def)
  from response_roundtrip [OF this, of default default default default default default default default default]
  show ?thesis by blast
qed

text \<open>
  Reserved payload bytes are not cleared: \<open>encode_cancel_order\<close> and \<open>encode_modify_order\<close> return
  64 but keep the last 24 and the last 8 bytes of the caller's span, where the protocol design
  asks the encoder to fill them with zeros.
\<close>

theorem reserved_payload_not_cleared:
  assumes "64 \<le> length out"
  shows "(\<exists>out'. encode_cancel_order hdr c out = Some (64, out') \<and> drop 40 out' = drop 40 out) \<and>
         (\<exists>out'. encode_modify_order hdr m out = Some (64, out') \<and> drop 56 out' = drop 56 out)"
  using assms
  by (simp add: cancel_order_codec.encode_defined modify_order_codec.encode_defined blit_def
      cancel_order_payload_def modify_order_payload_def)

theorem reserved_payload_not_cleared_witness:
  "\<exists>out'. encode_cancel_order default default (replicate 64 0xff) = Some (64, out') \<and>
     drop 40 out' = replicate 24 0xff"
  using reserved_payload_not_cleared [of "replicate 64 0xff" default default default] by auto

text \<open>
  The two request validators agree on every header, and no header passes both the request and
  the response validation: \<open>expected_payload_size\<close> is the fixed payload size on every type that
  \<open>is_known_request_type\<close> admits.
\<close>

theorem request_validators_agree:
  "validate_header h = validate_request_header h \<and>
   \<not> (validate_header h = DecodeStatus.Ok \<and> validate_response_header h = DecodeStatus.Ok)"
  by (cases "message_type h")
    (simp_all add: validate_header_def validate_request_header_def validate_response_header_def)

text \<open>
  The decoders are defined on every input span, however short: below the header or frame size
  they report \<open>NeedMoreData\<close> and leave the caller's object alone, and otherwise no payload
  decoder rejects the frame.
\<close>

theorem decoders_total:
  "decode_header inp h = (if length inp < 32 then Some (DecodeStatus.NeedMoreData, h)
     else Some (header_status (read_header inp), read_header inp)) \<and>
   decode_new_order inp n = (if length inp < 64 then Some (DecodeStatus.NeedMoreData, n)
     else Some (DecodeStatus.Ok, new_order_read (drop 32 inp) n)) \<and>
   decode_cancel_order inp c = (if length inp < 64 then Some (DecodeStatus.NeedMoreData, c)
     else Some (DecodeStatus.Ok, cancel_order_read (drop 32 inp) c)) \<and>
   decode_modify_order inp m = (if length inp < 64 then Some (DecodeStatus.NeedMoreData, m)
     else Some (DecodeStatus.Ok, modify_order_read (drop 32 inp) m))"
  by (simp add: decode_header_layout new_order_codec.decode_layout
      cancel_order_codec.decode_layout modify_order_codec.decode_layout)

end
