(* ===== verification/Ring.thy ===== *)
theory Ring
  imports Gateway_Prelude
begin

text \<open>
  Reading a circular buffer as a list. \<open>ring_slice buf r n\<close> is the list of the \<open>n\<close> elements
  that start at logical position \<open>r\<close>, each position taken modulo the length of the buffer;
  \<open>ring_write buf w xs\<close> writes \<open>xs\<close> from logical position \<open>w\<close> on. The frame parser and the
  five queue variants share these facts.
\<close>

definition ring_slice :: "'a list \<Rightarrow> nat \<Rightarrow> nat \<Rightarrow> 'a list" where
  "ring_slice buf r n = map (\<lambda>i. buf ! ((r + i) mod length buf)) [0..<n]"

fun ring_write :: "'a list \<Rightarrow> nat \<Rightarrow> 'a list \<Rightarrow> 'a list" where
  "ring_write buf w [] = buf"
| "ring_write buf w (x # xs) = ring_write (buf[w mod length buf := x]) (Suc w) xs"

lemma length_ring_slice [simp]: "length (ring_slice buf r n) = n"
  by (simp add: ring_slice_def)

lemma ring_slice_0 [simp]: "ring_slice buf r 0 = []"
  by (simp add: ring_slice_def)

lemma nth_ring_slice: "i < n \<Longrightarrow> ring_slice buf r n ! i = buf ! ((r + i) mod length buf)"
  by (simp add: ring_slice_def)

lemma ring_slice_mod [ring_simps]: "ring_slice buf (r mod length buf) n = ring_slice buf r n"
  by (simp add: ring_slice_def mod_add_left_eq)

lemma ring_slice_cong_mod:
  "r mod length buf = r' mod length buf \<Longrightarrow> ring_slice buf r n = ring_slice buf r' n"
  by (metis ring_slice_mod)

lemma drop_ring_slice: "drop k (ring_slice buf r n) = ring_slice buf (r + k) (n - k)"
  by (auto intro!: nth_equalityI simp: nth_ring_slice add.assoc)

lemma take_ring_slice: "take k (ring_slice buf r n) = ring_slice buf r (min k n)"
  by (auto intro!: nth_equalityI simp: nth_ring_slice)

lemma hd_ring_slice: "0 < n \<Longrightarrow> hd (ring_slice buf r n) = buf ! (r mod length buf)"
  by (simp add: ring_slice_def hd_map)

lemma tl_ring_slice: "tl (ring_slice buf r n) = ring_slice buf (Suc r) (n - 1)"
  using drop_ring_slice [of 1 buf r n] by (simp add: drop_Suc)

text \<open>Two positions less than one lap apart are different slots.\<close>

lemma mod_distinct_lap:
  fixes a b L :: nat
  assumes "a < b" and "b < a + L"
  shows "a mod L \<noteq> b mod L"
proof
  assume "a mod L = b mod L"
  then have "L dvd b - a" using assms by (metis less_imp_le mod_eq_dvd_iff_nat)
  moreover have "0 < b - a" "b - a < L" using assms by auto
  ultimately show False by (auto dest: dvd_imp_le)
qed

lemma ring_slice_upd_outside:
  assumes "n \<le> m" and "m < length buf"
  shows "ring_slice (buf[(r + m) mod length buf := x]) r n = ring_slice buf r n"
proof (rule nth_equalityI)
  fix i assume "i < length (ring_slice (buf[(r + m) mod length buf := x]) r n)"
  then have "i < n" by simp
  then have "(r + i) mod length buf \<noteq> (r + m) mod length buf"
    using assms by (intro mod_distinct_lap) auto
  with \<open>i < n\<close> show "ring_slice (buf[(r + m) mod length buf := x]) r n ! i = ring_slice buf r n ! i"
    by (simp add: nth_ring_slice)
qed simp

lemma ring_slice_Suc: "ring_slice buf r (Suc n) = ring_slice buf r n @ [buf ! ((r + n) mod length buf)]"
  by (simp add: ring_slice_def)

text \<open>Writing at the end position appends one element, as long as the ring is not full.\<close>

lemma ring_slice_snoc:
  assumes "n < length buf"
  shows "ring_slice (buf[(r + n) mod length buf := x]) r (Suc n) = ring_slice buf r n @ [x]"
proof -
  have "(r + n) mod length buf < length buf" using assms by (intro mod_less_divisor) linarith
  then show ?thesis using assms by (simp add: ring_slice_Suc ring_slice_upd_outside)
qed

lemma length_ring_write [simp]: "length (ring_write buf w xs) = length buf"
  by (induction xs arbitrary: buf w) auto

lemma ring_write_append: "ring_write buf w (xs @ ys) = ring_write (ring_write buf w xs) (w + length xs) ys"
  by (induction xs arbitrary: buf w) auto

lemma ring_write_cong_mod:
  "w mod length buf = w' mod length buf \<Longrightarrow> ring_write buf w xs = ring_write buf w' xs"
proof (induction xs arbitrary: buf w w')
  case (Cons x xs)
  have "Suc (w mod length buf) mod length buf = Suc (w' mod length buf) mod length buf"
    using Cons.prems by simp
  then have "Suc w mod length buf = Suc w' mod length buf" by (simp only: mod_Suc_eq)
  then have "ring_write (buf[w' mod length buf := x]) (Suc w) xs
      = ring_write (buf[w' mod length buf := x]) (Suc w') xs"
    by (intro Cons.IH) (simp only: length_list_update)
  then show ?case by (simp only: ring_write.simps Cons.prems)
qed simp

lemma ring_slice_write:
  "n + length xs \<le> length buf \<Longrightarrow>
     ring_slice (ring_write buf (r + n) xs) r (n + length xs) = ring_slice buf r n @ xs"
proof (induction xs arbitrary: buf n)
  case (Cons x xs)
  from Cons.IH [of "Suc n" "buf[(r + n) mod length buf := x]"] Cons.prems
  show ?case by (simp add: ring_slice_snoc)
qed simp

text \<open>A contiguous block copy is a ring write, and so is one split at the physical end.\<close>

lemma ring_write_blit:
  "w + length xs \<le> length buf \<Longrightarrow> ring_write buf w xs = blit buf w xs"
  by (induction xs arbitrary: buf w) (auto simp: blit_Cons)

lemma ring_write_split:
  assumes "w < length buf" and "length buf < w + length xs" and "length xs \<le> length buf"
  defines "h \<equiv> length buf - w"
  shows "ring_write buf w xs = blit (blit buf w (take h xs)) 0 (drop h xs)"
proof -
  have h: "length (take h xs) = h" "w + h = length buf" using assms by auto
  have "ring_write buf w xs = ring_write (ring_write buf w (take h xs)) (w + h) (drop h xs)"
    using ring_write_append [of buf w "take h xs" "drop h xs"] h by simp
  also have "\<dots> = ring_write (ring_write buf w (take h xs)) 0 (drop h xs)"
    using h by (intro ring_write_cong_mod) simp
  also have "\<dots> = blit (blit buf w (take h xs)) 0 (drop h xs)"
    using assms h by (simp add: ring_write_blit)
  finally show ?thesis .
qed

text \<open>An aligned block never straddles the physical end, so it can be read in place.\<close>

lemma ring_slice_contiguous:
  "r mod length buf + n \<le> length buf \<Longrightarrow>
     ring_slice buf r n = take n (drop (r mod length buf) buf)"
proof (rule nth_equalityI)
  fix i assume le: "r mod length buf + n \<le> length buf" and i: "i < length (ring_slice buf r n)"
  then have "(r + i) mod length buf = r mod length buf + i"
    by (metis add_less_cancel_left length_ring_slice mod_add_left_eq mod_less order_less_le_trans)
  with le i show "ring_slice buf r n ! i = take n (drop (r mod length buf) buf) ! i"
    by (simp add: nth_ring_slice)
qed simp

lemma aligned_block_fits:
  fixes r L d :: nat
  assumes "d dvd r" and "d dvd L" and "0 < L"
  shows "r mod L + d \<le> L"
proof -
  have "d dvd r mod L" using assms by (simp add: dvd_mod)
  then obtain a where a: "r mod L = d * a" by blast
  obtain b where b: "L = d * b" using assms by blast
  have "d * a < d * b" using assms(3) a b by (metis mod_less_divisor)
  then have "d * Suc a \<le> d * b" by (metis Suc_leI mult_le_mono2 mult_less_cancel1)
  then show ?thesis using a b by simp
qed

end
