(* ===== verification/Frame_Parser.thy ===== *)
theory Frame_Parser
  imports Codec Ring
begin

text \<open>
  \<^verbatim>\<open>frame_parser.hpp\<close>: the per-connection byte ring \<^verbatim>\<open>FrameParser<Capacity>\<close>. The template
  parameter is the first argument of every operation, the positions are free-running 64-bit
  counters that wrap, and the ring is read through the mask \<^verbatim>\<open>index & (Capacity - 1)\<close>. As in the
  codec, \<^term>\<open>None\<close> is an access outside the array. Span sizes are list lengths.
\<close>

section \<open>State and operations\<close>

record DecodedMessage =
  header :: MessageHeader
  type :: MessageType
  new_order :: NewOrder
  cancel_order :: CancelOrder
  modify_order :: ModifyOrder

instantiation DecodedMessage_ext :: (default) default
begin
definition default_DecodedMessage_ext :: "'a DecodedMessage_scheme" where
  "default_DecodedMessage_ext =
     \<lparr>header = default, type = default, new_order = default, cancel_order = default,
      modify_order = default, \<dots> = default\<rparr>"
instance ..
end

datatype Status = MessageReady | NeedMoreData | ProtocolError | BufferFull

record FrameParser =
  buffer :: "byte list"
  read_pos :: size_t
  write_pos :: size_t

text \<open>The two \<^verbatim>\<open>static_assert\<close>s of the class template, and a parser as it is constructed.\<close>

definition FrameParser_static_assert :: "size_t \<Rightarrow> bool" where
  "FrameParser_static_assert Capacity \<longleftrightarrow>
     Capacity mod of_nat kFrameSize = 0 \<and> has_single_bit Capacity"

definition FrameParser_init :: "size_t \<Rightarrow> FrameParser" where
  "FrameParser_init Capacity =
     \<lparr>buffer = replicate (unat Capacity) default, read_pos = 0, write_pos = 0\<rparr>"

definition parser_size :: "FrameParser \<Rightarrow> size_t" where
  "parser_size p = write_pos p - read_pos p"

definition free_slots :: "size_t \<Rightarrow> FrameParser \<Rightarrow> size_t" where
  "free_slots Capacity p = Capacity - parser_size p"

definition full :: "size_t \<Rightarrow> FrameParser \<Rightarrow> bool" where
  "full Capacity p \<longleftrightarrow> parser_size p = Capacity"

definition buffer_idx :: "size_t \<Rightarrow> size_t \<Rightarrow> size_t" where
  "buffer_idx Capacity index = index AND (Capacity - 1)"

definition readable_span :: "size_t \<Rightarrow> FrameParser \<Rightarrow> span option" where
  "readable_span Capacity p =
     (let start = unat (buffer_idx Capacity (read_pos p))
      in if start + kFrameSize \<le> length (buffer p)
         then Some (take kFrameSize (drop start (buffer p))) else None)"

definition move_write_pos :: "nat \<Rightarrow> FrameParser \<Rightarrow> FrameParser" where
  "move_write_pos step p = p\<lparr>write_pos := write_pos p + of_nat step\<rparr>"

definition move_read_pos :: "nat \<Rightarrow> FrameParser \<Rightarrow> FrameParser" where
  "move_read_pos step p = p\<lparr>read_pos := read_pos p + of_nat step\<rparr>"

definition append_bytes :: "size_t \<Rightarrow> FrameParser \<Rightarrow> span \<Rightarrow> (bool \<times> FrameParser) option" where
  "append_bytes Capacity p bytes =
     (if bytes = [] then Some (True, p)
      else if unat (free_slots Capacity p) < length bytes then Some (False, p)
      else do {
        let idx = unat (buffer_idx Capacity (write_pos p));
        buf \<leftarrow> (if idx + length bytes \<le> unat Capacity
                then memcpy (buffer p) idx bytes 0 (length bytes)
                else do {
                  let bytes_head = unat Capacity - idx;
                  let bytes_tail = length bytes - bytes_head;
                  buf \<leftarrow> memcpy (buffer p) idx bytes 0 bytes_head;
                  memcpy buf 0 bytes bytes_head bytes_tail
                });
        Some (True, move_write_pos (length bytes) (p\<lparr>buffer := buf\<rparr>))
      })"

definition try_parse ::
  "size_t \<Rightarrow> FrameParser \<Rightarrow> DecodedMessage \<Rightarrow> (Status \<times> DecodedMessage \<times> FrameParser) option" where
  "try_parse Capacity p out =
     (let available = parser_size p
      in if unat available < kFrameSize then Some (Status.NeedMoreData, out, p)
         else do {
           sp \<leftarrow> readable_span Capacity p;
           (status, hdr) \<leftarrow> decode_header (take kHeaderSize sp) default;
           if status \<noteq> DecodeStatus.Ok then Some (Status.ProtocolError, out, p)
           else if validate_header hdr \<noteq> DecodeStatus.Ok then Some (Status.ProtocolError, out, p)
           else do {
             let out = out\<lparr>header := hdr, type := message_type hdr\<rparr>;
             r \<leftarrow> (case message_type hdr of
                    MessageType.NewOrder \<Rightarrow> do {
                      (st, m) \<leftarrow> decode_new_order sp (new_order out);
                      Some (Some (st, out\<lparr>new_order := m\<rparr>)) }
                  | MessageType.CancelOrder \<Rightarrow> do {
                      (st, m) \<leftarrow> decode_cancel_order sp (cancel_order out);
                      Some (Some (st, out\<lparr>cancel_order := m\<rparr>)) }
                  | MessageType.ModifyOrder \<Rightarrow> do {
                      (st, m) \<leftarrow> decode_modify_order sp (modify_order out);
                      Some (Some (st, out\<lparr>modify_order := m\<rparr>)) }
                  | MessageType.Heartbeat \<Rightarrow> Some (Some (DecodeStatus.Ok, out))
                  | MessageType.Logout \<Rightarrow> Some (Some (DecodeStatus.Ok, out))
                  | _ \<Rightarrow> Some None);
             (case r of
                None \<Rightarrow> Some (Status.ProtocolError, out, p)
              | Some (status, out) \<Rightarrow>
                  if status \<noteq> DecodeStatus.Ok then Some (Status.ProtocolError, out, p)
                  else Some (Status.MessageReady, out, move_read_pos kFrameSize p))
           }
         })"

section \<open>Invariant and abstract contents\<close>

definition parser_inv :: "size_t \<Rightarrow> FrameParser \<Rightarrow> bool" where
  "parser_inv Capacity p \<longleftrightarrow>
     FrameParser_static_assert Capacity \<and> length (buffer p) = unat Capacity \<and>
     unat (parser_size p) \<le> unat Capacity \<and> 64 dvd unat (read_pos p)"

definition pending :: "FrameParser \<Rightarrow> byte list" where
  "pending p = ring_slice (buffer p) (unat (read_pos p)) (unat (parser_size p))"

lemma length_pending [simp]: "length (pending p) = unat (parser_size p)"
  by (simp add: pending_def)

lemma static_assertE:
  assumes "FrameParser_static_assert Capacity"
  obtains k where "k < 64" and "Capacity = 2 ^ k" and "64 dvd unat Capacity" and "0 < unat Capacity"
proof -
  obtain k where k: "k < 64" "Capacity = 2 ^ k"
    using assms by (auto simp: FrameParser_static_assert_def has_single_bit_iff)
  have "unat (Capacity mod 64) = 0"
    using assms by (simp add: FrameParser_static_assert_def)
  then have "64 dvd unat Capacity" by (simp add: unat_mod mod_eq_0_iff_dvd)
  then show ?thesis using that k by simp
qed

lemma unat_buffer_idx:
  assumes "FrameParser_static_assert Capacity"
  shows "unat (buffer_idx Capacity i) = unat i mod unat Capacity"
  using assms by (elim static_assertE) (simp add: buffer_idx_def unat_and_mask)

lemma capacity_bound:
  assumes "FrameParser_static_assert Capacity"
  shows "unat Capacity \<le> 2 ^ 63"
proof -
  obtain k where "k < 64" "Capacity = 2 ^ k" using assms by (elim static_assertE)
  moreover from this have "(2::nat) ^ k \<le> 2 ^ 63" by (intro power_increasing) auto
  ultimately show ?thesis by simp
qed

lemma parser_inv_init: "FrameParser_static_assert Capacity \<Longrightarrow> parser_inv Capacity (FrameParser_init Capacity)"
  by (simp add: parser_inv_def FrameParser_init_def parser_size_def)

lemma parser_size_init [simp]: "parser_size (FrameParser_init Capacity) = 0"
  by (simp add: FrameParser_init_def parser_size_def)

lemma pending_init [simp]: "pending (FrameParser_init Capacity) = []"
  by (simp add: pending_def)

lemma unat_free_slots:
  "parser_inv Capacity p \<Longrightarrow> unat (free_slots Capacity p) = unat Capacity - unat (parser_size p)"
  by (simp add: parser_inv_def free_slots_def unat_sub word_le_nat_alt)

lemma unat_write_pos_mod:
  assumes "parser_inv Capacity p"
  shows "unat (write_pos p) mod unat Capacity = (unat (read_pos p) + unat (parser_size p)) mod unat Capacity"
proof -
  obtain k where k: "k < 64" "Capacity = 2 ^ k"
    using assms unfolding parser_inv_def by (blast elim: static_assertE)
  have "write_pos p = read_pos p + of_nat (unat (parser_size p))"
    by (simp add: parser_size_def)
  then show ?thesis using k unat_add_mod_exp [OF k(1), of "read_pos p" "unat (parser_size p)"] by simp
qed

text \<open>Copying the bytes in one or two blocks is writing them at the end position of the ring.\<close>

lemma append_bytes_ring_write:
  assumes inv: "parser_inv Capacity p" and ne: "bytes \<noteq> []"
    and fits: "unat (parser_size p) + length bytes \<le> unat Capacity"
  shows "append_bytes Capacity p bytes =
     Some (True, move_write_pos (length bytes)
       (p\<lparr>buffer := ring_write (buffer p) (unat (read_pos p) + unat (parser_size p)) bytes\<rparr>))"
proof -
  define w where "w = unat (read_pos p) + unat (parser_size p)"
  define idx where "idx = w mod unat Capacity"
  have sa: "FrameParser_static_assert Capacity" and len: "length (buffer p) = unat Capacity"
    using inv by (auto simp: parser_inv_def)
  have pos: "0 < unat Capacity" using sa by (elim static_assertE)
  have idx: "unat (buffer_idx Capacity (write_pos p)) = idx"
    using inv unat_write_pos_mod [OF inv] by (simp add: unat_buffer_idx [OF sa] idx_def w_def)
  have idx_lt: "idx < unat Capacity" using pos by (simp add: idx_def)
  have room: "\<not> unat (free_slots Capacity p) < length bytes"
    using inv fits by (simp add: unat_free_slots)
  have rw: "ring_write (buffer p) w bytes = ring_write (buffer p) idx bytes"
    by (rule ring_write_cong_mod) (simp add: idx_def len)
  show ?thesis
  proof (cases "idx + length bytes \<le> unat Capacity")
    case True
    then show ?thesis
      using ne room len rw
      by (simp add: append_bytes_def idx memcpy_blit ring_write_blit w_def Let_def)
  next
    case False
    then have split: "ring_write (buffer p) idx bytes =
        blit (blit (buffer p) idx (take (unat Capacity - idx) bytes)) 0 (drop (unat Capacity - idx) bytes)"
      using ring_write_split [of idx "buffer p" bytes] idx_lt fits len by simp
    then show ?thesis
      using ne room len rw False idx_lt fits
      by (simp add: append_bytes_def idx memcpy_blit w_def Let_def)
  qed
qed

lemma parser_size_move_write:
  assumes "unat (parser_size p) + n < 2 ^ 64"
  shows "unat (parser_size (move_write_pos n p)) = unat (parser_size p) + n"
proof -
  have eq: "parser_size (move_write_pos n p) = parser_size p + of_nat n"
    by (simp add: parser_size_def move_write_pos_def algebra_simps)
  show ?thesis
    unfolding eq using assms by (simp add: unat_word_ariths unat_of_nat mod_simps)
qed

lemma parser_size_move_read:
  assumes "64 \<le> unat (parser_size p)"
  shows "unat (parser_size (move_read_pos 64 p)) = unat (parser_size p) - 64"
proof -
  have eq: "parser_size (move_read_pos 64 p) = parser_size p - 64"
    by (simp add: parser_size_def move_read_pos_def algebra_simps)
  show ?thesis
    unfolding eq using assms by (simp add: unat_sub word_le_nat_alt)
qed

section \<open>Refinement of an unbounded byte queue\<close>

text \<open>
  What the parser promises in terms of the pending bytes. \<open>spec_request\<close> is the meaning of one
  64-byte frame (\<^term>\<open>None\<close> for a protocol error), \<open>spec_parse\<close> that of one call of \<open>try_parse\<close>.
\<close>

definition spec_request :: "byte list \<Rightarrow> DecodedMessage \<Rightarrow> DecodedMessage option" where
  "spec_request frame out =
     (let h = read_header frame;
          out = out\<lparr>header := h, type := message_type h\<rparr>
      in if header_status h \<noteq> DecodeStatus.Ok \<or> validate_header h \<noteq> DecodeStatus.Ok then None
         else if message_type h = MessageType.NewOrder
           then Some (out\<lparr>new_order := new_order_read (drop 32 frame) (new_order out)\<rparr>)
         else if message_type h = MessageType.CancelOrder
           then Some (out\<lparr>cancel_order := cancel_order_read (drop 32 frame) (cancel_order out)\<rparr>)
         else if message_type h = MessageType.ModifyOrder
           then Some (out\<lparr>modify_order := modify_order_read (drop 32 frame) (modify_order out)\<rparr>)
         else Some out)"

definition spec_parse ::
  "byte list \<Rightarrow> DecodedMessage \<Rightarrow> Status \<times> DecodedMessage \<times> byte list" where
  "spec_parse bs out =
     (if length bs < 64 then (Status.NeedMoreData, out, bs)
      else case spec_request (take 64 bs) out of
             None \<Rightarrow> (Status.ProtocolError, out, bs)
           | Some m \<Rightarrow> (Status.MessageReady, m, drop 64 bs))"

lemma append_bytes_accepts:
  assumes inv: "parser_inv Capacity p" and fits: "unat (parser_size p) + length bytes \<le> unat Capacity"
  shows "\<exists>p'. append_bytes Capacity p bytes = Some (True, p') \<and> parser_inv Capacity p' \<and>
           pending p' = pending p @ bytes"
proof (cases "bytes = []")
  case True
  then show ?thesis using inv by (simp add: append_bytes_def)
next
  case False
  define p' where "p' = move_write_pos (length bytes)
    (p\<lparr>buffer := ring_write (buffer p) (unat (read_pos p) + unat (parser_size p)) bytes\<rparr>)"
  have sa: "FrameParser_static_assert Capacity" using inv by (simp add: parser_inv_def)
  have size: "unat (parser_size p') = unat (parser_size p) + length bytes"
    using fits capacity_bound [OF sa] unfolding p'_def
    by (subst parser_size_move_write) (simp_all add: parser_size_def)
  have rd: "read_pos p' = read_pos p"
    and buf: "buffer p' = ring_write (buffer p) (unat (read_pos p) + unat (parser_size p)) bytes"
    by (simp_all add: p'_def move_write_pos_def)
  have "parser_inv Capacity p'"
    using inv fits by (simp add: parser_inv_def size rd buf)
  moreover have "pending p' = pending p @ bytes"
    using inv fits by (simp add: pending_def size rd buf ring_slice_write parser_inv_def)
  ultimately show ?thesis
    using append_bytes_ring_write [OF inv False fits] p'_def by blast
qed

lemma append_bytes_rejects:
  assumes "parser_inv Capacity p" and "unat Capacity < unat (parser_size p) + length bytes"
  shows "append_bytes Capacity p bytes = Some (False, p)"
  using assms by (auto simp: append_bytes_def unat_free_slots parser_inv_def)

text \<open>Frame alignment: a complete frame is contiguous in the ring and is the head of the pending bytes.\<close>

lemma readable_span_pending:
  assumes inv: "parser_inv Capacity p" and avail: "64 \<le> unat (parser_size p)"
  shows "readable_span Capacity p = Some (take 64 (pending p))"
proof -
  have sa: "FrameParser_static_assert Capacity" and len: "length (buffer p) = unat Capacity"
    and rd: "64 dvd unat (read_pos p)"
    using inv by (auto simp: parser_inv_def)
  have fit: "unat (read_pos p) mod length (buffer p) + 64 \<le> length (buffer p)"
    using sa rd by (elim static_assertE) (simp add: len aligned_block_fits)
  then show ?thesis
    using avail ring_slice_contiguous [OF fit]
    by (simp add: readable_span_def unat_buffer_idx [OF sa] len pending_def take_ring_slice Let_def)
qed

lemma move_read_pos_frame:
  assumes inv: "parser_inv Capacity p" and avail: "64 \<le> unat (parser_size p)"
  shows "parser_inv Capacity (move_read_pos 64 p)" and "pending (move_read_pos 64 p) = drop 64 (pending p)"
proof -
  have sa: "FrameParser_static_assert Capacity" and len: "length (buffer p) = unat Capacity"
    and rd: "64 dvd unat (read_pos p)" and size: "unat (parser_size p) \<le> unat Capacity"
    using inv by (auto simp: parser_inv_def)
  obtain k where k: "k < 64" "Capacity = 2 ^ k" using sa by (elim static_assertE)
  have rd': "unat (read_pos p + 64) mod 64 = (unat (read_pos p) + 64) mod 64"
    using unat_add_mod_exp [of 6 "read_pos p" 64] by simp
  have rdk: "unat (read_pos p + 64) mod unat Capacity = (unat (read_pos p) + 64) mod unat Capacity"
    using k unat_add_mod_exp [OF k(1), of "read_pos p" 64] by simp
  have buf: "buffer (move_read_pos 64 p) = buffer p"
    and rp: "read_pos (move_read_pos 64 p) = read_pos p + 64"
    by (simp_all add: move_read_pos_def)
  show "parser_inv Capacity (move_read_pos 64 p)"
    using sa len size rd rd' avail
    by (simp add: parser_inv_def parser_size_move_read buf rp dvd_eq_mod_eq_0)
  have "ring_slice (buffer p) (unat (read_pos p + 64)) (unat (parser_size p) - 64)
      = ring_slice (buffer p) (unat (read_pos p) + 64) (unat (parser_size p) - 64)"
    using rdk by (intro ring_slice_cong_mod) (simp add: len)
  then show "pending (move_read_pos 64 p) = drop 64 (pending p)"
    using avail by (simp add: pending_def parser_size_move_read buf rp drop_ring_slice)
qed

lemma validate_header_Ok_iff:
  "validate_header h = DecodeStatus.Ok \<longleftrightarrow> is_known_request_type (message_type h) \<and> payload_length h = 32"
  by (cases "message_type h") (simp_all add: validate_header_def)

text \<open>One call of \<open>try_parse\<close> on the 64-byte span it reads.\<close>

lemma try_parse_span:
  assumes "readable_span Capacity p = Some sp" and "length sp = 64" and "64 \<le> unat (parser_size p)"
  shows "try_parse Capacity p out =
     (case spec_request sp out of
        None \<Rightarrow> Some (Status.ProtocolError, out, p)
      | Some m \<Rightarrow> Some (Status.MessageReady, m, move_read_pos 64 p))"
proof -
  have hdr: "decode_header (take 32 sp) old = Some (header_status (read_header sp), read_header sp)" for old
    using assms(2) by (simp add: decode_header_layout read_header_def min_def drop_take)
  show ?thesis
  proof (cases "header_status (read_header sp) = DecodeStatus.Ok \<and> validate_header (read_header sp) = DecodeStatus.Ok")
    case False
    then show ?thesis
      using assms by (auto simp: try_parse_def hdr spec_request_def Let_def)
  next
    case True
    then show ?thesis
      using assms
      by (cases "message_type (read_header sp)")
        (simp_all add: try_parse_def hdr spec_request_def Let_def validate_header_Ok_iff
          new_order_codec.decode_layout cancel_order_codec.decode_layout modify_order_codec.decode_layout)
  qed
qed

lemma try_parse_refines:
  assumes inv: "parser_inv Capacity p"
  shows "\<exists>st m p'. try_parse Capacity p out = Some (st, m, p') \<and> parser_inv Capacity p' \<and>
           spec_parse (pending p) out = (st, m, pending p')"
proof (cases "64 \<le> unat (parser_size p)")
  case True
  have "length (take 64 (pending p)) = 64" using True by simp
  from try_parse_span [OF readable_span_pending [OF inv True] this True, of out]
  show ?thesis
    using True move_read_pos_frame [OF inv True] inv
    by (auto simp: spec_parse_def split: option.splits)
next
  case False
  then show ?thesis using inv by (simp add: try_parse_def spec_parse_def Let_def)
qed

section \<open>The interface the gateway relies on\<close>

text \<open>
  A parser over a byte stream: it queues at most \<open>cap\<close> bytes, refuses a chunk that does not fit
  without changing anything, and each call of \<open>parse\<close> acts on the queued bytes alone.
\<close>

locale frame_stream =
  fixes append :: "'p \<Rightarrow> span \<Rightarrow> (bool \<times> 'p) option"
    and parse :: "'p \<Rightarrow> DecodedMessage \<Rightarrow> (Status \<times> DecodedMessage \<times> 'p) option"
    and queued :: "'p \<Rightarrow> byte list"
    and inv :: "'p \<Rightarrow> bool"
    and cap :: nat
  assumes append_fits:
      "inv p \<Longrightarrow> length (queued p) + length bs \<le> cap \<Longrightarrow>
         \<exists>p'. append p bs = Some (True, p') \<and> inv p' \<and> queued p' = queued p @ bs"
    and append_full:
      "inv p \<Longrightarrow> cap < length (queued p) + length bs \<Longrightarrow> append p bs = Some (False, p)"
    and parse_queued:
      "inv p \<Longrightarrow> \<exists>st m p'. parse p out = Some (st, m, p') \<and> inv p' \<and>
         spec_parse (queued p) out = (st, m, queued p')"
begin

lemma append_total:
  assumes "inv p"
  obtains b p' where "append p bs = Some (b, p')" and "inv p'"
    and "b \<longleftrightarrow> length (queued p) + length bs \<le> cap"
    and "queued p' = (if b then queued p @ bs else queued p)"
proof (cases "length (queued p) + length bs \<le> cap")
  case True
  then show ?thesis using append_fits [OF assms True] that by auto
next
  case False
  then show ?thesis using append_full [OF assms, of bs] assms that by auto
qed

lemma parse_ready:
  assumes "inv p" and "parse p out = Some (Status.MessageReady, m, p')"
  shows "inv p'" and "64 \<le> length (queued p)" and "queued p' = drop 64 (queued p)"
    and "spec_request (take 64 (queued p)) out = Some m"
  using assms parse_queued [OF assms(1), of out]
  by (auto simp: spec_parse_def split: if_splits option.splits)

lemma parse_blocked:
  assumes "inv p" and "parse p out = Some (st, m, p')" and "st \<noteq> Status.MessageReady"
  shows "inv p'" and "queued p' = queued p" and "m = out"
    and "st = Status.NeedMoreData \<longleftrightarrow> length (queued p) < 64"
    and "st = Status.ProtocolError \<longleftrightarrow> 64 \<le> length (queued p)"
  using assms parse_queued [OF assms(1), of out]
  by (auto simp: spec_parse_def split: if_splits option.splits)

text \<open>A frame is parsed the same way whatever has been queued behind it.\<close>

lemma parse_stable:
  assumes "inv p" and "inv q" and "parse p out = Some (Status.MessageReady, m, p')"
    and "queued q = queued p @ bs"
  obtains q' where "parse q out = Some (Status.MessageReady, m, q')" and "inv q'"
    and "queued q' = queued p' @ bs"
proof -
  note r = parse_ready [OF assms(1,3)]
  have "spec_parse (queued q) out = (Status.MessageReady, m, queued p' @ bs)"
    using r assms(4) by (simp add: spec_parse_def)
  then show ?thesis using parse_queued [OF assms(2), of out] that by auto
qed

end

interpretation fp: frame_stream "append_bytes Capacity" "try_parse Capacity" pending
    "parser_inv Capacity" "unat Capacity" for Capacity
  by unfold_locales (simp_all add: append_bytes_accepts append_bytes_rejects try_parse_refines)

section \<open>Draining the parser, chunk by chunk\<close>

text \<open>
  The loop of the gateway around \<open>try_parse\<close>, without what it does with a message: it parses
  into a fresh \<^verbatim>\<open>DecodedMessage\<close> until the parser is not ready. \<open>feed\<close> runs it after every chunk
  received and stops at the first status other than \<open>NeedMoreData\<close>.
\<close>

lemma try_parse_ready_size:
  assumes "try_parse Capacity p out = Some (Status.MessageReady, m, p')"
  shows "unat (parser_size p') < unat (parser_size p)"
proof -
  have size: "64 \<le> unat (parser_size p)"
    using assms by (auto simp: try_parse_def Let_def split: if_splits)
  then obtain sp where sp: "readable_span Capacity p = Some sp"
    using assms by (auto simp: try_parse_def Let_def bind_eq_Some_conv split: if_splits)
  then have "length sp = 64" by (auto simp: readable_span_def Let_def split: if_splits)
  then have "p' = move_read_pos 64 p"
    using try_parse_span [OF sp _ size] assms by (auto split: option.splits)
  then show ?thesis using size by (simp add: parser_size_move_read)
qed

function parse_all :: "size_t \<Rightarrow> FrameParser \<Rightarrow> (DecodedMessage list \<times> Status \<times> FrameParser) option" where
  "parse_all Capacity p =
     (case try_parse Capacity p default of
        None \<Rightarrow> None
      | Some (st, m, p') \<Rightarrow>
          if st = Status.MessageReady
          then do { (ms, st', p'') \<leftarrow> parse_all Capacity p'; Some (m # ms, st', p'') }
          else Some ([], st, p'))"
  by pat_completeness auto
termination
  by (relation "measure (\<lambda>(Capacity, p). unat (parser_size p))") (auto dest: try_parse_ready_size)

fun feed :: "size_t \<Rightarrow> FrameParser \<Rightarrow> span list \<Rightarrow> (DecodedMessage list \<times> Status \<times> FrameParser) option" where
  "feed Capacity p [] = Some ([], Status.NeedMoreData, p)"
| "feed Capacity p (c # cs) = do {
     (ok, p) \<leftarrow> append_bytes Capacity p c;
     if \<not> ok then Some ([], Status.BufferFull, p)
     else do {
       (ms, st, p) \<leftarrow> parse_all Capacity p;
       if st \<noteq> Status.NeedMoreData then Some (ms, st, p)
       else do { (ms', st, p) \<leftarrow> feed Capacity p cs; Some (ms @ ms', st, p) }
     }
   }"

text \<open>The same on the byte stream itself.\<close>

function spec_messages :: "byte list \<Rightarrow> DecodedMessage list \<times> Status \<times> byte list" where
  "spec_messages bs =
     (case spec_parse bs default of
        (st, m, bs') \<Rightarrow>
          if st = Status.MessageReady
          then (case spec_messages bs' of (ms, st', bs'') \<Rightarrow> (m # ms, st', bs''))
          else ([], st, bs'))"
  by pat_completeness auto
termination
  by (relation "measure length") (auto simp: spec_parse_def split: if_splits option.splits)

declare parse_all.simps [simp del] spec_messages.simps [simp del]

lemma parse_all_refines:
  assumes "parser_inv Capacity p"
  shows "\<exists>ms st p'. parse_all Capacity p = Some (ms, st, p') \<and> parser_inv Capacity p' \<and>
           spec_messages (pending p) = (ms, st, pending p')"
  using assms
proof (induction Capacity p rule: parse_all.induct)
  case (1 Capacity p)
  obtain st m p' where tp: "try_parse Capacity p default = Some (st, m, p')" "parser_inv Capacity p'"
    and sp: "spec_parse (pending p) default = (st, m, pending p')"
    using fp.parse_queued [OF "1.prems"] by metis
  show ?case
  proof (cases "st = Status.MessageReady")
    case True
    from "1.IH" [OF tp(1) refl refl True tp(2)] obtain ms st' p'' where
      "parse_all Capacity p' = Some (ms, st', p'')" "parser_inv Capacity p''"
      "spec_messages (pending p') = (ms, st', pending p'')" by auto
    then show ?thesis
      using tp sp True
      by (simp add: parse_all.simps [of Capacity p] spec_messages.simps [of "pending p"])
  next
    case False
    then show ?thesis
      using tp sp
      by (simp add: parse_all.simps [of Capacity p] spec_messages.simps [of "pending p"])
  qed
qed

text \<open>Bytes that arrive later do not change what was parsed before them.\<close>

lemma spec_parse_cases:
  obtains "spec_parse bs out = (Status.NeedMoreData, out, bs)" and "length bs < 64"
  | "\<And>ys. spec_parse (bs @ ys) out = (Status.ProtocolError, out, bs @ ys)"
  | m where "\<And>ys. spec_parse (bs @ ys) out = (Status.MessageReady, m, drop 64 bs @ ys)"
proof (cases "length bs < 64")
  case True
  then show ?thesis using that by (simp add: spec_parse_def)
next
  case False
  then show ?thesis
    using that by (cases "spec_request (take 64 bs) out") (auto simp: spec_parse_def)
qed

lemma spec_messages_append:
  "spec_messages xs = (ms, st, rest) \<Longrightarrow>
     spec_messages (xs @ ys) =
       (if st = Status.NeedMoreData
        then (case spec_messages (rest @ ys) of (ms', st', rest') \<Rightarrow> (ms @ ms', st', rest'))
        else (ms, st, rest @ ys))"
proof (induction xs arbitrary: ms st rest rule: spec_messages.induct)
  case (1 xs)
  show ?case
  proof (cases rule: spec_parse_cases [of xs default])
    case 1
    then have "ms = []" "st = Status.NeedMoreData" "rest = xs"
      using "1.prems" by (simp_all add: spec_messages.simps [of xs])
    then show ?thesis by (simp add: case_prod_unfold)
  next
    case 2
    then have "ms = []" "st = Status.ProtocolError" "rest = xs"
      using "1.prems" 2 [of "[]"] by (simp_all add: spec_messages.simps [of xs])
    then show ?thesis using 2 [of ys] by (simp add: spec_messages.simps [of "xs @ ys"])
  next
    case (3 m)
    obtain ms' where ms: "ms = m # ms'" and rec: "spec_messages (drop 64 xs) = (ms', st, rest)"
      using "1.prems" 3 [of "[]"]
      by (auto simp: spec_messages.simps [of xs] split: prod.splits)
    have "spec_messages (drop 64 xs @ ys) =
       (if st = Status.NeedMoreData
        then (case spec_messages (rest @ ys) of (ms'', st', rest') \<Rightarrow> (ms' @ ms'', st', rest'))
        else (ms', st, rest @ ys))"
      using "1.IH" [OF _ _ _ rec] 3 [of "[]"] by simp
    then show ?thesis
      using 3 [of ys] ms by (simp add: spec_messages.simps [of "xs @ ys"] split: prod.splits)
  qed
qed

lemma spec_messages_rest:
  "spec_messages bs = (ms, Status.NeedMoreData, rest) \<Longrightarrow> length rest < 64"
proof (induction bs arbitrary: ms rule: spec_messages.induct)
  case (1 bs)
  show ?case
  proof (cases rule: spec_parse_cases [of bs default])
    case 1
    then show ?thesis using "1.prems" by (simp add: spec_messages.simps [of bs])
  next
    case 2
    then show ?thesis using "1.prems" 2 [of "[]"] by (simp add: spec_messages.simps [of bs])
  next
    case (3 m)
    then obtain ms' where "spec_messages (drop 64 bs) = (ms', Status.NeedMoreData, rest)"
      using "1.prems" 3 [of "[]"]
      by (auto simp: spec_messages.simps [of bs] split: prod.splits)
    then show ?thesis using "1.IH" 3 [of "[]"] by simp
  qed
qed

lemma feed_refines:
  assumes "parser_inv Capacity p" and "length (pending p) < 64"
    and "\<forall>c \<in> set chunks. length c + 63 \<le> unat Capacity"
  shows "\<exists>ms st rest p'. feed Capacity p chunks = Some (ms, st, p') \<and> parser_inv Capacity p' \<and>
           spec_messages (pending p @ concat chunks) = (ms, st, rest)"
  using assms
proof (induction chunks arbitrary: p)
  case Nil
  then have "spec_messages (pending p) = ([], Status.NeedMoreData, pending p)"
    by (simp add: spec_messages.simps [of "pending p"] spec_parse_def)
  then show ?case using Nil by simp
next
  case (Cons c cs)
  obtain p1 where p1: "append_bytes Capacity p c = Some (True, p1)" "parser_inv Capacity p1"
    "pending p1 = pending p @ c"
    using fp.append_fits [OF Cons.prems(1), of c] Cons.prems(2,3) by auto
  obtain ms st p2 where p2: "parse_all Capacity p1 = Some (ms, st, p2)" "parser_inv Capacity p2"
    "spec_messages (pending p @ c) = (ms, st, pending p2)"
    using parse_all_refines [OF p1(2)] p1(3) by auto
  note app = spec_messages_append [OF p2(3), of "concat cs"]
  show ?case
  proof (cases "st = Status.NeedMoreData")
    case True
    then have "length (pending p2) < 64" using spec_messages_rest p2(3) by blast
    from Cons.IH [OF p2(2) this] Cons.prems(3) obtain ms' st' rest p3 where
      "feed Capacity p2 cs = Some (ms', st', p3)" "parser_inv Capacity p3"
      "spec_messages (pending p2 @ concat cs) = (ms', st', rest)" by auto
    then show ?thesis using p1 p2 app True by simp
  next
    case False
    then show ?thesis using p1 p2 app by simp
  qed
qed

text \<open>The frame of a new order is the request with that header and order.\<close>

lemma new_order_request:
  assumes "length out = 64" and "encode_new_order hdr order out = Some (64, frame)" and "header_status hdr = DecodeStatus.Ok"
    and "Side_ok (NewOrder.side order)"
  shows "length frame = 64"
    and "spec_request frame default = Some ((default :: DecodedMessage)\<lparr>header := stamp MessageType.NewOrder hdr,
           DecodedMessage.type := MessageType.NewOrder, new_order := order\<rparr>)"
proof -
  have len: "length (new_order_payload order) = 32" by (simp add: new_order_payload_def)
  have frame: "frame = header_bytes (stamp MessageType.NewOrder hdr) @ new_order_payload order"
    using assms(1,2) new_order_codec.encode_defined [of out hdr order] len by (simp add: blit_def)
  then show "length frame = 64" using len by simp
  have rd: "read_header frame = stamp MessageType.NewOrder hdr"
    using read_header_bytes [of "stamp MessageType.NewOrder hdr"] frame by (simp add: stamp_def)
  have "new_order_read (drop 32 frame) old = order" for old
    using new_order_codec.read_payload [OF assms(4), of "[]" old] frame by simp
  then show "spec_request frame default = Some ((default :: DecodedMessage)\<lparr>header := stamp MessageType.NewOrder hdr,
           DecodedMessage.type := MessageType.NewOrder, new_order := order\<rparr>)"
    using rd assms(3) by (simp add: spec_request_def Let_def validate_header_def stamp_def header_status_def split: if_splits)
qed

text \<open>The frames of a cancel and of a modify, whatever the buffer held before: the fields of the change, and reserved ones that are ignored.\<close>

lemma cancel_order_request:
  assumes "length out = 64" and "encode_cancel_order hdr order out = Some (64, frame)" and "header_status hdr = DecodeStatus.Ok"
  shows "length frame = 64"
    and "spec_request frame default = Some ((default :: DecodedMessage)\<lparr>header := stamp MessageType.CancelOrder hdr,
           DecodedMessage.type := MessageType.CancelOrder, cancel_order := cancel_order_transfer order default\<rparr>)"
proof -
  have len: "length (cancel_order_payload order) = 8" by (simp add: cancel_order_payload_def)
  have frame: "frame = header_bytes (stamp MessageType.CancelOrder hdr) @ cancel_order_payload order @ drop 40 out"
    using assms(1,2) cancel_order_codec.encode_defined [of out hdr order] len by (simp add: blit_def)
  then show "length frame = 64" using len assms(1) by simp
  have rd: "read_header frame = stamp MessageType.CancelOrder hdr"
    using read_header_bytes [of "stamp MessageType.CancelOrder hdr"] frame by (simp add: stamp_def)
  have "cancel_order_read (drop 32 frame) old = cancel_order_transfer order old" for old
    using cancel_order_codec.read_payload [OF TrueI] frame by simp
  then show "spec_request frame default = Some ((default :: DecodedMessage)\<lparr>header := stamp MessageType.CancelOrder hdr,
           DecodedMessage.type := MessageType.CancelOrder, cancel_order := cancel_order_transfer order default\<rparr>)"
    using rd assms(3) by (simp add: spec_request_def Let_def validate_header_def stamp_def header_status_def
        default_DecodedMessage_ext_def split: if_splits)
qed

lemma modify_order_request:
  assumes "length out = 64" and "encode_modify_order hdr order out = Some (64, frame)" and "header_status hdr = DecodeStatus.Ok"
  shows "length frame = 64"
    and "spec_request frame default = Some ((default :: DecodedMessage)\<lparr>header := stamp MessageType.ModifyOrder hdr,
           DecodedMessage.type := MessageType.ModifyOrder, modify_order := modify_order_transfer order default\<rparr>)"
proof -
  have len: "length (modify_order_payload order) = 24" by (simp add: modify_order_payload_def)
  have frame: "frame = header_bytes (stamp MessageType.ModifyOrder hdr) @ modify_order_payload order @ drop 56 out"
    using assms(1,2) modify_order_codec.encode_defined [of out hdr order] len by (simp add: blit_def)
  then show "length frame = 64" using len assms(1) by simp
  have rd: "read_header frame = stamp MessageType.ModifyOrder hdr"
    using read_header_bytes [of "stamp MessageType.ModifyOrder hdr"] frame by (simp add: stamp_def)
  have "modify_order_read (drop 32 frame) old = modify_order_transfer order old" for old
    using modify_order_codec.read_payload [OF TrueI] frame by simp
  then show "spec_request frame default = Some ((default :: DecodedMessage)\<lparr>header := stamp MessageType.ModifyOrder hdr,
           DecodedMessage.type := MessageType.ModifyOrder, modify_order := modify_order_transfer order default\<rparr>)"
    using rd assms(3) by (simp add: spec_request_def Let_def validate_header_def stamp_def header_status_def
        default_DecodedMessage_ext_def split: if_splits)
qed

section \<open>Properties\<close>

text \<open>
  C22. \<open>FrameParser::append\<close> refines an append to the queue of pending bytes: from a state that
  satisfies the invariant it never touches memory outside the ring, it returns \<^verbatim>\<open>true\<close> exactly if
  the chunk fits, in which case the pending bytes are extended by the chunk (also when the copy
  is split at the physical end of the array and when the 64-bit counters wrap), and a refused
  chunk leaves the parser unchanged. The invariant is kept.
\<close>

theorem append_refines_queue:
  assumes "parser_inv Capacity p"
  shows "\<exists>b p'. append_bytes Capacity p bytes = Some (b, p') \<and> parser_inv Capacity p' \<and>
           (b \<longleftrightarrow> length (pending p) + length bytes \<le> unat Capacity) \<and>
           (if b then pending p' = pending p @ bytes else p' = p)"
proof (cases "length (pending p) + length bytes \<le> unat Capacity")
  case True
  then show ?thesis using fp.append_fits [OF assms True] by auto
next
  case False
  then show ?thesis using fp.append_full [OF assms, of bytes] assms by auto
qed

theorem append_refines_queue_witness:
  "parser_inv 128 (FrameParser_init 128) \<and>
   (\<exists>p'. append_bytes 128 (FrameParser_init 128) [1, 2, 3] = Some (True, p') \<and> parser_inv 128 p' \<and>
      pending p' = [1, 2, 3])"
proof -
  have inv: "parser_inv 128 (FrameParser_init 128)"
    by (rule parser_inv_init) code_simp
  show ?thesis using inv append_refines_queue [OF inv, of "[1, 2, 3]"]
    by auto
qed

text \<open>
  C23. \<open>FrameParser::try_parse\<close> refines the reading of one frame from the pending bytes. It never
  reads outside the ring; with fewer than 64 pending bytes it reports \<open>NeedMoreData\<close>, on a frame
  whose header is not acceptable \<open>ProtocolError\<close>, both without changing the parser or the
  caller's message, and otherwise it delivers the request encoded by the first 64 pending bytes
  and consumes exactly these.
\<close>

theorem try_parse_refines_spec:
  assumes "parser_inv Capacity p"
  shows "\<exists>st m p'. try_parse Capacity p out = Some (st, m, p') \<and> parser_inv Capacity p' \<and>
           (if length (pending p) < 64 then st = Status.NeedMoreData \<and> m = out \<and> p' = p
            else case spec_request (take 64 (pending p)) out of
                   None \<Rightarrow> st = Status.ProtocolError \<and> m = out \<and> p' = p
                 | Some r \<Rightarrow> st = Status.MessageReady \<and> m = r \<and> pending p' = drop 64 (pending p))"
proof (cases "length (pending p) < 64")
  case True
  then show ?thesis using assms by (simp add: try_parse_def Let_def)
next
  case False
  then have size: "64 \<le> unat (parser_size p)" by simp
  then have "length (take 64 (pending p)) = 64" by simp
  from try_parse_span [OF readable_span_pending [OF assms size] this size, of out]
  show ?thesis
    using False size move_read_pos_frame [OF assms size] assms by (auto split: option.splits)
qed

theorem try_parse_refines_spec_witness:
  "parser_inv 128 (FrameParser_init 128) \<and>
   (\<exists>p'. try_parse 128 (FrameParser_init 128) default = Some (Status.NeedMoreData, default, p'))"
proof -
  have inv: "parser_inv 128 (FrameParser_init 128)"
    by (rule parser_inv_init) code_simp
  show ?thesis using inv try_parse_refines_spec [OF inv, of default]
    by auto
qed

text \<open>
  C1. Stream transparency: however the network cuts a byte stream into chunks (each at most
  \<open>Capacity - 63\<close> bytes long, so that it fits behind an incomplete frame), appending each chunk
  and draining the parser delivers exactly the requests of the concatenated stream, in order,
  and stops with \<open>ProtocolError\<close> exactly where the stream has its first unacceptable frame. The
  parser never refuses a chunk and never leaves the ring.
\<close>

theorem stream_chunking:
  assumes "FrameParser_static_assert Capacity"
    and "\<forall>c \<in> set chunks. length c + 63 \<le> unat Capacity"
  shows "\<exists>p'. feed Capacity (FrameParser_init Capacity) chunks =
           Some (fst (spec_messages (concat chunks)), fst (snd (spec_messages (concat chunks))), p') \<and>
         parser_inv Capacity p'"
  using feed_refines [OF parser_inv_init [OF assms(1)] _ assms(2)]
  by auto

theorem stream_chunking_witness:
  "\<exists>p'. feed 128 (FrameParser_init 128) [replicate 40 0, replicate 30 0] =
     Some ([], Status.ProtocolError, p')"
proof -
  have sa: "FrameParser_static_assert 128" by code_simp
  have "\<forall>c \<in> set [replicate 40 0, replicate 30 0 :: span]. length c + 63 \<le> unat (128 :: size_t)"
    by simp
  note t = stream_chunking [OF sa this]
  have "header_status (read_header (replicate 64 0)) = DecodeStatus.BadMagic"
    by (simp add: header_status_def read_header_def kMagic_def)
  then have "spec_messages (replicate 70 0) = ([], Status.ProtocolError, replicate 70 0)"
    by (simp add: spec_messages.simps [of "replicate 70 0"] spec_parse_def spec_request_def Let_def)
  moreover have "concat [replicate 40 0, replicate 30 0 :: span] = replicate 70 0"
    by (simp flip: replicate_add)
  ultimately show ?thesis using t by auto
qed

end
