(* ===== verification/Session.thy ===== *)
theory Session
  imports Frame_Parser "HOL-Library.Mapping"
begin

text \<open>
  \<^verbatim>\<open>session.hpp\<close>: the class \<^verbatim>\<open>OrderEntrySession\<close>, which checks the sequence number and the order
  identifiers of decoded requests and writes one response frame per request. The
  \<^verbatim>\<open>std::unordered_map\<close> from client order ids to order handles is a mapping. \<open>handle_message\<close>
  returns the value of the C++ function (\<^verbatim>\<open>false\<close> asks the caller to close the connection), the
  session after the call and the response span; \<^term>\<open>None\<close> is a write outside that span.
\<close>

section \<open>State and operations\<close>

record OrderEntrySession =
  session_id :: u64
  expected_sequence_number :: u64
  next_order_handle :: u64
  orders :: "(u64, u64) mapping"

definition OrderEntrySession_init :: "u64 \<Rightarrow> OrderEntrySession" where
  "OrderEntrySession_init sid =
     \<lparr>session_id = sid, expected_sequence_number = 1, next_order_handle = 1, orders = Mapping.empty\<rparr>"

definition active_order_count :: "OrderEntrySession \<Rightarrow> u64" where
  "active_order_count s = of_nat (Mapping.size (orders s))"

text \<open>The header of every response: the request's header with the session's own id, if it has one.\<close>

definition response_header :: "u64 \<Rightarrow> MessageHeader \<Rightarrow> MessageHeader" where
  "response_header sid request_header =
     request_header\<lparr>MessageHeader.session_id :=
       (if sid = 0 then MessageHeader.session_id request_header else sid)\<rparr>"

definition encode_reject ::
  "OrderEntrySession \<Rightarrow> MessageHeader \<Rightarrow> u64 \<Rightarrow> RejectReason \<Rightarrow> span \<Rightarrow> span option" where
  "encode_reject s request_header cid rsn response_out = do {
     let response = (default :: Rejected)\<lparr>Rejected.client_order_id := cid, reason := rsn\<rparr>;
     (_, response_out) \<leftarrow> encode_rejected (response_header (OrderEntrySession.session_id s) request_header) response response_out;
     Some response_out
   }"

definition encode_accept ::
  "OrderEntrySession \<Rightarrow> MessageHeader \<Rightarrow> u64 \<Rightarrow> u64 \<Rightarrow> span \<Rightarrow> span option" where
  "encode_accept s request_header cid oh response_out = do {
     let response = (default :: Accepted)\<lparr>Accepted.client_order_id := cid,
       Accepted.order_handle := oh\<rparr>;
     (_, response_out) \<leftarrow> encode_accepted (response_header (OrderEntrySession.session_id s) request_header) response response_out;
     Some response_out
   }"

definition encode_cancel ::
  "OrderEntrySession \<Rightarrow> MessageHeader \<Rightarrow> u64 \<Rightarrow> u64 \<Rightarrow> span \<Rightarrow> span option" where
  "encode_cancel s request_header cid oh response_out = do {
     let response = (default :: Cancelled)\<lparr>Cancelled.client_order_id := cid,
       Cancelled.order_handle := oh\<rparr>;
     (_, response_out) \<leftarrow> encode_cancelled (response_header (OrderEntrySession.session_id s) request_header) response response_out;
     Some response_out
   }"

definition encode_modify ::
  "OrderEntrySession \<Rightarrow> MessageHeader \<Rightarrow> u64 \<Rightarrow> u64 \<Rightarrow> span \<Rightarrow> span option" where
  "encode_modify s request_header cid oh response_out = do {
     let response = (default :: Modified)\<lparr>Modified.client_order_id := cid,
       Modified.order_handle := oh\<rparr>;
     (_, response_out) \<leftarrow> encode_modified (response_header (OrderEntrySession.session_id s) request_header) response response_out;
     Some response_out
   }"

definition check_sequence_or_reject ::
  "OrderEntrySession \<Rightarrow> DecodedMessage \<Rightarrow> u64 \<Rightarrow> span \<Rightarrow> (bool \<times> OrderEntrySession \<times> span) option" where
  "check_sequence_or_reject s msg cid response_out =
     (if sequence_number (header msg) \<noteq> expected_sequence_number s
      then do {
        response_out \<leftarrow> encode_reject s (header msg) cid RejectReason.BadSequence response_out;
        Some (False, s, response_out)
      }
      else Some (True, s\<lparr>expected_sequence_number := expected_sequence_number s + 1\<rparr>, response_out))"

definition handle_message ::
  "OrderEntrySession \<Rightarrow> DecodedMessage \<Rightarrow> span \<Rightarrow> (bool \<times> OrderEntrySession \<times> span) option" where
  "handle_message s msg response_out =
     (case type msg of
        MessageType.NewOrder \<Rightarrow> do {
          let cid = NewOrder.client_order_id (new_order msg);
          (ok, s, response_out) \<leftarrow> check_sequence_or_reject s msg cid response_out;
          if \<not> ok then Some (True, s, response_out)
          else if NewOrder.price (new_order msg) = 0 then do {
            response_out \<leftarrow> encode_reject s (header msg) cid RejectReason.InvalidPrice response_out;
            Some (True, s, response_out) }
          else if NewOrder.quantity (new_order msg) = 0 then do {
            response_out \<leftarrow> encode_reject s (header msg) cid RejectReason.InvalidQuantity response_out;
            Some (True, s, response_out) }
          else if Mapping.lookup (orders s) cid \<noteq> None then do {
            response_out \<leftarrow> encode_reject s (header msg) cid RejectReason.DuplicateClientOrderId response_out;
            Some (True, s, response_out) }
          else do {
            let oh = next_order_handle s;
            let s = s\<lparr>next_order_handle := next_order_handle s + 1,
              orders := Mapping.update cid oh (orders s)\<rparr>;
            response_out \<leftarrow> encode_accept s (header msg) cid oh response_out;
            Some (True, s, response_out) }
        }
      | MessageType.CancelOrder \<Rightarrow> do {
          let cid = CancelOrder.client_order_id (cancel_order msg);
          (ok, s, response_out) \<leftarrow> check_sequence_or_reject s msg cid response_out;
          if \<not> ok then Some (True, s, response_out)
          else (case Mapping.lookup (orders s) cid of
            None \<Rightarrow> do {
              response_out \<leftarrow> encode_reject s (header msg) cid RejectReason.UnknownClientOrderId response_out;
              Some (True, s, response_out) }
          | Some oh \<Rightarrow> do {
              let s = s\<lparr>orders := Mapping.delete cid (orders s)\<rparr>;
              response_out \<leftarrow> encode_cancel s (header msg) cid oh response_out;
              Some (True, s, response_out) })
        }
      | MessageType.ModifyOrder \<Rightarrow> do {
          let cid = ModifyOrder.client_order_id (modify_order msg);
          (ok, s, response_out) \<leftarrow> check_sequence_or_reject s msg cid response_out;
          if \<not> ok then Some (True, s, response_out)
          else (case Mapping.lookup (orders s) cid of
            None \<Rightarrow> do {
              response_out \<leftarrow> encode_reject s (header msg) cid RejectReason.UnknownClientOrderId response_out;
              Some (True, s, response_out) }
          | Some oh \<Rightarrow>
              if new_price (modify_order msg) = 0 then do {
                response_out \<leftarrow> encode_reject s (header msg) cid RejectReason.InvalidPrice response_out;
                Some (True, s, response_out) }
              else if new_quantity (modify_order msg) = 0 then do {
                response_out \<leftarrow> encode_reject s (header msg) cid RejectReason.InvalidQuantity response_out;
                Some (True, s, response_out) }
              else do {
                response_out \<leftarrow> encode_modify s (header msg) cid oh response_out;
                Some (True, s, response_out) })
        }
      | MessageType.Heartbeat \<Rightarrow> do {
          (ok, s, response_out) \<leftarrow> check_sequence_or_reject s msg 0 response_out;
          if \<not> ok then Some (True, s, response_out)
          else do {
            response_out \<leftarrow> encode_accept s (header msg) 0 0 response_out;
            Some (True, s, response_out) }
        }
      | MessageType.Logout \<Rightarrow> do {
          (ok, s, response_out) \<leftarrow> check_sequence_or_reject s msg 0 response_out;
          if \<not> ok then Some (True, s, response_out)
          else do {
            response_out \<leftarrow> encode_accept s (header msg) 0 0 response_out;
            Some (False, s, response_out) }
        }
      | _ \<Rightarrow> do {
          response_out \<leftarrow> encode_reject s (header msg) 0 RejectReason.UnsupportedMessageType response_out;
          Some (True, s, response_out)
        })"

section \<open>Responses as the client reads them\<close>

text \<open>
  The abstract session: what is answered, without the wire. A response is what the public
  decoders of the codec return for the frame; \<open>spec_handle\<close> is the session's rule book.
\<close>

datatype response =
    RAccepted u64 u64
  | RRejected u64 RejectReason
  | RCancelled u64 u64
  | RModified u64 u64

definition read_response :: "span \<Rightarrow> (MessageHeader \<times> response) option" where
  "read_response inp = do {
     (st, h) \<leftarrow> decode_header inp default;
     if st \<noteq> DecodeStatus.Ok \<or> validate_response_header h \<noteq> DecodeStatus.Ok then None
     else (case message_type h of
        MessageType.Accepted \<Rightarrow> do {
          (_, a) \<leftarrow> decode_accepted inp default;
          Some (h, RAccepted (Accepted.client_order_id a) (Accepted.order_handle a)) }
      | MessageType.Rejected \<Rightarrow> do {
          (_, r) \<leftarrow> decode_rejected inp default;
          Some (h, RRejected (Rejected.client_order_id r) (reason r)) }
      | MessageType.Cancelled \<Rightarrow> do {
          (_, c) \<leftarrow> decode_cancelled inp default;
          Some (h, RCancelled (Cancelled.client_order_id c) (Cancelled.order_handle c)) }
      | MessageType.Modified \<Rightarrow> do {
          (_, m) \<leftarrow> decode_modified inp default;
          Some (h, RModified (Modified.client_order_id m) (Modified.order_handle m)) }
      | _ \<Rightarrow> None) }"

fun response_type :: "response \<Rightarrow> MessageType" where
  "response_type (RAccepted _ _) = MessageType.Accepted"
| "response_type (RRejected _ _) = MessageType.Rejected"
| "response_type (RCancelled _ _) = MessageType.Cancelled"
| "response_type (RModified _ _) = MessageType.Modified"

text \<open>The client order id that a request names, and the reason to refuse a request that is in sequence.\<close>

definition request_id :: "DecodedMessage \<Rightarrow> u64" where
  "request_id msg =
     (if type msg = MessageType.NewOrder then NewOrder.client_order_id (new_order msg)
      else if type msg = MessageType.CancelOrder then CancelOrder.client_order_id (cancel_order msg)
      else if type msg = MessageType.ModifyOrder then ModifyOrder.client_order_id (modify_order msg)
      else 0)"

definition refusal :: "(u64, u64) mapping \<Rightarrow> DecodedMessage \<Rightarrow> RejectReason option" where
  "refusal os msg =
     (let known = Mapping.lookup os (request_id msg) \<noteq> None in
      if type msg = MessageType.NewOrder then
        (if NewOrder.price (new_order msg) = 0 then Some InvalidPrice
         else if NewOrder.quantity (new_order msg) = 0 then Some InvalidQuantity
         else if known then Some DuplicateClientOrderId else None)
      else if type msg = MessageType.CancelOrder then
        (if known then None else Some UnknownClientOrderId)
      else if type msg = MessageType.ModifyOrder then
        (if \<not> known then Some UnknownClientOrderId
         else if new_price (modify_order msg) = 0 then Some InvalidPrice
         else if new_quantity (modify_order msg) = 0 then Some InvalidQuantity else None)
      else None)"

definition spec_handle :: "OrderEntrySession \<Rightarrow> DecodedMessage \<Rightarrow> bool \<times> OrderEntrySession \<times> response" where
  "spec_handle s msg =
     (let cid = request_id msg; s1 = s\<lparr>expected_sequence_number := expected_sequence_number s + 1\<rparr> in
      if \<not> is_known_request_type (type msg) then (True, s, RRejected 0 UnsupportedMessageType)
      else if sequence_number (header msg) \<noteq> expected_sequence_number s
        then (True, s, RRejected cid BadSequence)
      else case refusal (orders s) msg of
        Some r \<Rightarrow> (True, s1, RRejected cid r)
      | None \<Rightarrow>
          if type msg = MessageType.NewOrder then
            (True, s1\<lparr>next_order_handle := next_order_handle s + 1,
                       orders := Mapping.update cid (next_order_handle s) (orders s)\<rparr>,
             RAccepted cid (next_order_handle s))
          else if type msg = MessageType.CancelOrder then
            (True, s1\<lparr>orders := Mapping.delete cid (orders s)\<rparr>,
             RCancelled cid (the (Mapping.lookup (orders s) cid)))
          else if type msg = MessageType.ModifyOrder then
            (True, s1, RModified cid (the (Mapping.lookup (orders s) cid)))
          else (type msg \<noteq> MessageType.Logout, s1, RAccepted 0 0))"

section \<open>The session implements its rule book\<close>

text \<open>The frame \<open>out'\<close> that answers a request with header \<open>h\<close> by the response \<open>r\<close>.\<close>

definition writes :: "u64 \<Rightarrow> MessageHeader \<Rightarrow> response \<Rightarrow> span \<Rightarrow> span \<Rightarrow> bool" where
  "writes sid h r out out' \<longleftrightarrow>
     length out' = length out \<and> drop 64 out' = drop 64 out \<and>
     (header_status h = DecodeStatus.Ok \<longrightarrow>
        read_response out' = Some (stamp (response_type r) (response_header sid h), r))"

lemma header_status_response [simp]: "header_status (response_header sid h) = header_status h"
  by (simp add: header_status_def response_header_def)

lemma stamp_simps [simp]:
  "message_type (stamp t h) = t"
  "is_known_response_type t \<Longrightarrow> validate_response_header (stamp t h) = DecodeStatus.Ok"
  by (simp_all add: stamp_def validate_response_header_def)

lemma encode_reject_writes:
  "64 \<le> length out \<Longrightarrow> OrderEntrySession.session_id s = sid \<Longrightarrow> RejectReason_ok r \<Longrightarrow> 
     \<exists>out'. encode_reject s h cid r out = Some out' \<and> writes sid h (RRejected cid r) out out'"
  using rejected_codec.roundtrip [where out = out and hdr = default and old = default
      and h = "response_header (OrderEntrySession.session_id s) h"
      and m = "default\<lparr>Rejected.client_order_id := cid, reason := r\<rparr>"]
  by (auto simp: writes_def encode_reject_def read_response_def)

lemma encode_accept_writes:
  "64 \<le> length out \<Longrightarrow> OrderEntrySession.session_id s = sid \<Longrightarrow> 
     \<exists>out'. encode_accept s h cid oh out = Some out' \<and> writes sid h (RAccepted cid oh) out out'"
  using accepted_codec.roundtrip [where out = out and hdr = default and old = default
      and h = "response_header (OrderEntrySession.session_id s) h"
      and m = "default\<lparr>Accepted.client_order_id := cid, Accepted.order_handle := oh\<rparr>"]
  by (auto simp: writes_def encode_accept_def read_response_def)

lemma encode_cancel_writes:
  "64 \<le> length out \<Longrightarrow> OrderEntrySession.session_id s = sid \<Longrightarrow> 
     \<exists>out'. encode_cancel s h cid oh out = Some out' \<and> writes sid h (RCancelled cid oh) out out'"
  using cancelled_codec.roundtrip [where out = out and hdr = default and old = default
      and h = "response_header (OrderEntrySession.session_id s) h"
      and m = "default\<lparr>Cancelled.client_order_id := cid, Cancelled.order_handle := oh\<rparr>"]
  by (auto simp: writes_def encode_cancel_def read_response_def)

lemma encode_modify_writes:
  "64 \<le> length out \<Longrightarrow> OrderEntrySession.session_id s = sid \<Longrightarrow> 
     \<exists>out'. encode_modify s h cid oh out = Some out' \<and> writes sid h (RModified cid oh) out out'"
  using modified_codec.roundtrip [where out = out and hdr = default and old = default
      and h = "response_header (OrderEntrySession.session_id s) h"
      and m = "default\<lparr>Modified.client_order_id := cid, Modified.order_handle := oh\<rparr>"]
  by (auto simp: writes_def encode_modify_def read_response_def)

lemmas response_writes = encode_reject_writes encode_accept_writes encode_cancel_writes encode_modify_writes

lemmas handle_simps = handle_message_def spec_handle_def check_sequence_or_reject_def request_id_def
  refusal_def Let_def

lemma bind_span_ex:
  "\<exists>out'. f = Some out' \<and> P out' \<Longrightarrow> \<exists>out'. (f \<bind> (\<lambda>out. Some (b, s, out))) = Some (b, s, out') \<and> P out'"
  by auto

lemma handle_message_refines:
  assumes "64 \<le> length out"
  shows "\<exists>out'. handle_message s msg out =
           Some (fst (spec_handle s msg), fst (snd (spec_handle s msg)), out') \<and>
         writes (OrderEntrySession.session_id s) (header msg) (snd (snd (spec_handle s msg))) out out'"
proof (cases "is_known_request_type (type msg)")
  case False
  then show ?thesis
    using encode_reject_writes [OF assms refl, of UnsupportedMessageType s "header msg" 0]
    by (cases "type msg") (auto simp: handle_simps)
next
  case known: True
  show ?thesis
  proof (cases "sequence_number (header msg) = expected_sequence_number s")
    case False
    then show ?thesis
      using known encode_reject_writes [OF assms refl, of BadSequence s "header msg" "request_id msg"]
      by (cases "type msg") (auto simp: handle_simps)
  next
    case True
    then show ?thesis
      using known
      by (cases "type msg")
        (auto simp: handle_simps intro!: bind_span_ex response_writes [OF assms] split: option.splits)
  qed
qed

section \<open>Invariant\<close>

text \<open>
  Every active order has a handle that was issued (positive and below the next one), no two
  active orders share a handle, and there are finitely many of them.
\<close>

definition session_inv :: "OrderEntrySession \<Rightarrow> bool" where
  "session_inv s \<longleftrightarrow>
     finite (Mapping.keys (orders s)) \<and> 0 < next_order_handle s \<and>
     (\<forall>c h. Mapping.lookup (orders s) c = Some h \<longrightarrow> 0 < h \<and> h < next_order_handle s) \<and>
     (\<forall>c c' h. Mapping.lookup (orders s) c = Some h \<longrightarrow> Mapping.lookup (orders s) c' = Some h \<longrightarrow> c = c')"

lemma session_inv_init: "session_inv (OrderEntrySession_init sid)"
  by (simp add: session_inv_def OrderEntrySession_init_def)

lemma word_less_Suc_not_max: "(w :: u64) \<noteq> -1 \<Longrightarrow> w < w + 1"
  by (simp add: inc_less_eq_self_iff_eq flip: not_le)

lemma lookup_delete_if: "Mapping.lookup (Mapping.delete k m) k' = (if k = k' then None else Mapping.lookup m k')"
  by (simp add: lookup_delete lookup_delete_neq)

lemma session_inv_new:
  assumes "session_inv s" and "next_order_handle s \<noteq> -1" and "Mapping.lookup (orders s) c = None"
  shows "session_inv (s\<lparr>expected_sequence_number := e, next_order_handle := next_order_handle s + 1,
      orders := Mapping.update c (next_order_handle s) (orders s)\<rparr>)"
proof -
  have lt: "next_order_handle s < next_order_handle s + 1"
    using assms(2) by (rule word_less_Suc_not_max)
  have old: "0 < h \<and> h < next_order_handle s" if "Mapping.lookup (orders s) k = Some h" for k h
    using assms(1) that by (simp add: session_inv_def)
  have inj: "k = k'" if "Mapping.lookup (orders s) k = Some h" "Mapping.lookup (orders s) k' = Some h" for k k' h
    using assms(1) that by (simp add: session_inv_def)
  show ?thesis
    using assms(1) lt old inj unfolding session_inv_def
    by (auto simp: lookup_update' split: if_splits intro: less_trans)
qed

lemma session_inv_delete:
  "session_inv s \<Longrightarrow> session_inv (s\<lparr>expected_sequence_number := e, orders := Mapping.delete c (orders s)\<rparr>)"
  by (auto simp: session_inv_def lookup_delete_if split: if_splits)

lemma session_inv_seq: "session_inv s \<Longrightarrow> session_inv (s\<lparr>expected_sequence_number := e\<rparr>)"
  by (simp add: session_inv_def)

lemma refusal_new_None:
  "refusal os msg = None \<Longrightarrow> type msg = MessageType.NewOrder \<Longrightarrow> Mapping.lookup os (request_id msg) = None"
  by (auto simp: refusal_def Let_def split: if_splits)

lemma spec_handle_inv:
  assumes "session_inv s" and "next_order_handle s \<noteq> -1"
  shows "session_inv (fst (snd (spec_handle s msg)))"
  using assms refusal_new_None [of "orders s" msg]
  by (auto simp: spec_handle_def Let_def session_inv_new session_inv_delete session_inv_seq
      split: option.splits)

section \<open>Runs of a session\<close>

text \<open>A list of requests, each answered into a fresh frame; and the same in the rule book.\<close>

fun session_run :: "OrderEntrySession \<Rightarrow> DecodedMessage list \<Rightarrow> (OrderEntrySession \<times> span list) option" where
  "session_run s [] = Some (s, [])"
| "session_run s (m # ms) = do {
     (_, s, out) \<leftarrow> handle_message s m (replicate kFrameSize 0);
     (s, outs) \<leftarrow> session_run s ms;
     Some (s, out # outs)
   }"

fun spec_run :: "OrderEntrySession \<Rightarrow> DecodedMessage list \<Rightarrow> OrderEntrySession \<times> response list" where
  "spec_run s [] = (s, [])"
| "spec_run s (m # ms) =
     (case spec_handle s m of (_, s, r) \<Rightarrow> case spec_run s ms of (s, rs) \<Rightarrow> (s, r # rs))"

text \<open>The handles given out for new orders (the answer to a heartbeat carries the handle 0).\<close>

fun issued :: "response list \<Rightarrow> u64 list" where
  "issued [] = []"
| "issued (RAccepted c h # rs) = (if h = 0 then issued rs else h # issued rs)"
| "issued (_ # rs) = issued rs"

lemma session_run_refines:
  assumes "\<forall>m \<in> set ms. header_status (header m) = DecodeStatus.Ok"
  shows "\<exists>outs. session_run s ms = Some (fst (spec_run s ms), outs) \<and>
           map (\<lambda>out. map_option snd (read_response out)) outs = map Some (snd (spec_run s ms))"
  using assms
proof (induction ms arbitrary: s)
  case (Cons m ms)
  obtain b s' r where sp: "spec_handle s m = (b, s', r)" by (cases "spec_handle s m")
  obtain out where out: "handle_message s m (replicate 64 0) = Some (b, s', out)"
    "writes (OrderEntrySession.session_id s) (header m) r (replicate 64 0) out"
    using handle_message_refines [of "replicate 64 0" s m] sp by auto
  obtain outs where "session_run s' ms = Some (fst (spec_run s' ms), outs)"
    "map (\<lambda>out. map_option snd (read_response out)) outs = map Some (snd (spec_run s' ms))"
    using Cons by auto
  then show ?case
    using sp out Cons.prems by (auto simp: writes_def split: prod.splits)
qed simp

text \<open>One request issues at most one handle, and that is the next one.\<close>

lemma spec_handle_issued:
  assumes "spec_handle s m = (b, s', r)" and "next_order_handle s \<noteq> 0"
  shows "next_order_handle s' = next_order_handle s \<and> issued [r] = [] \<or>
         next_order_handle s' = next_order_handle s + 1 \<and> issued [r] = [next_order_handle s]"
  using assms by (auto simp: spec_handle_def Let_def split: if_splits option.splits)

lemma issued_Cons: "issued (r # rs) = issued [r] @ issued rs"
  by (cases r) auto

lemma spec_run_inv_issued:
  assumes "session_inv s" and "unat (next_order_handle s) + length ms < 2 ^ 64"
    and "spec_run s ms = (s', rs)"
  shows "session_inv s' \<and> next_order_handle s \<le> next_order_handle s' \<and>
         issued rs = map of_nat [unat (next_order_handle s)..<unat (next_order_handle s')]"
  using assms
proof (induction ms arbitrary: s rs)
  case (Cons m ms)
  obtain b s1 r where sp: "spec_handle s m = (b, s1, r)" by (cases "spec_handle s m")
  obtain rs' where run: "spec_run s1 ms = (s', rs')" and rs: "rs = r # rs'"
    using Cons.prems(3) sp by (auto split: prod.splits)
  have nz: "next_order_handle s \<noteq> 0" using Cons.prems(1) by (auto simp: session_inv_def)
  have "unat (next_order_handle s) < 2 ^ 64 - 1" using Cons.prems(2) by simp
  then have nm: "next_order_handle s \<noteq> -1" by (auto simp: unsigned_minus_1_eq_mask mask_eq_exp_minus_1)
  have inv1: "session_inv s1" using spec_handle_inv [OF Cons.prems(1) nm, of m] sp by simp
  have suc: "unat (next_order_handle s + 1) = Suc (unat (next_order_handle s))"
    using nm by (metis Suc_eq_plus1 add.commute add_eq_0_iff unatSuc)
  from spec_handle_issued [OF sp nz] show ?case
  proof
    assume same: "next_order_handle s1 = next_order_handle s \<and> issued [r] = []"
    then show ?thesis
      using Cons.IH [OF inv1 _ run] Cons.prems(2) rs by (simp add: issued_Cons [of r rs'])
  next
    assume step: "next_order_handle s1 = next_order_handle s + 1 \<and> issued [r] = [next_order_handle s]"
    then have ih: "session_inv s'" "next_order_handle s + 1 \<le> next_order_handle s'"
      "issued rs' = map of_nat [Suc (unat (next_order_handle s))..<unat (next_order_handle s')]"
      using Cons.IH [OF inv1 _ run] Cons.prems(2) suc by auto
    have lt: "unat (next_order_handle s) < unat (next_order_handle s')"
      using ih(2) suc by (simp add: word_le_nat_alt)
    then show ?thesis
      using ih step rs by (simp add: issued_Cons [of r rs'] upt_conv_Cons word_le_nat_alt)
  qed
qed simp

section \<open>Well-typed requests\<close>

text \<open>
  The type of a request that the rest of the program may rely on: an acceptable header that names a request, the tag of the message
  and the enumerators in their canonical form (a raw value is never one that has a name).
\<close>

definition request_ok :: "DecodedMessage \<Rightarrow> bool" where
  "request_ok m \<longleftrightarrow>
     magic (header m) = kMagic \<and> version (header m) = kVersion \<and> payload_length (header m) = of_nat kPayloadSize \<and>
     type m = message_type (header m) \<and> is_known_request_type (type m) \<and> Side_ok (NewOrder.side (new_order m))"

lemma spec_request_ok: "spec_request bs default = Some m \<Longrightarrow> request_ok m"
  by (auto simp: spec_request_def request_ok_def Let_def header_status_def validate_header_Ok_iff
      new_order_read_def default_DecodedMessage_ext_def split: if_splits)

lemma parse_all_ok:
  "parse_all Capacity p = Some (ms, st, p') \<Longrightarrow> parser_inv Capacity p \<Longrightarrow> \<forall>m \<in> set ms. request_ok m"
proof (induction Capacity p arbitrary: ms st p' rule: parse_all.induct)
  case (1 Capacity p)
  obtain st1 m p1 where tp: "try_parse Capacity p default = Some (st1, m, p1)" "parser_inv Capacity p1"
    using fp.parse_queued [OF "1.prems"(2)] by metis
  show ?case
  proof (cases "st1 = Status.MessageReady")
    case True
    have "request_ok m" using fp.parse_ready(4) [OF "1.prems"(2)] tp(1) True spec_request_ok by blast
    then show ?thesis
      using "1.prems"(1) "1.IH" [OF tp(1) refl refl True _ tp(2)] tp(1) True
      by (auto simp: parse_all.simps [of Capacity p] bind_eq_Some_conv)
  next
    case False
    then show ?thesis using "1.prems"(1) tp(1) by (auto simp: parse_all.simps [of Capacity p])
  qed
qed

lemma feed_ok:
  "feed Capacity p chunks = Some (ms, st, p') \<Longrightarrow> parser_inv Capacity p \<Longrightarrow> \<forall>m \<in> set ms. request_ok m"
proof (induction chunks arbitrary: p ms)
  case (Cons c cs)
  obtain b p1 where p1: "append_bytes Capacity p c = Some (b, p1)" "parser_inv Capacity p1"
    using fp.append_total [OF Cons.prems(2), of c] by blast
  obtain ms1 st1 p2 where p2: "parse_all Capacity p1 = Some (ms1, st1, p2)" "parser_inv Capacity p2"
    using parse_all_refines [OF p1(2)] by blast
  note ok = parse_all_ok [OF p2(1) p1(2)]
  show ?case
  proof (cases "b \<and> st1 = Status.NeedMoreData")
    case True
    then obtain ms2 where "feed Capacity p2 cs = Some (ms2, st, p')" "ms = ms1 @ ms2"
      using Cons.prems(1) p1(1) p2(1) by (auto simp: bind_eq_Some_conv)
    then show ?thesis using Cons.IH [OF _ p2(2)] ok by auto
  next
    case False
    then show ?thesis using Cons.prems(1) p1(1) p2(1) ok by (auto split: if_splits)
  qed
qed simp

section \<open>Properties\<close>

text \<open>
  C11. \<open>handle_message\<close> implements the rule book of the session on every request and every branch:
  given a frame to write to it is defined, its return value and its effect on the session are
  those of \<open>spec_handle\<close>, nothing is written behind the frame, and the client that decodes the
  frame reads the response of the rule book, under the request's header with the response type
  and the session's id. A response reaches the client only if the request's header had the
  right magic number and version, which the parser guarantees.
\<close>

theorem session_refines_rules:
  assumes "64 \<le> length out" and "header_status (header msg) = DecodeStatus.Ok"
  shows "\<exists>out' b s' r. handle_message s msg out = Some (b, s', out') \<and> spec_handle s msg = (b, s', r) \<and>
           length out' = length out \<and> drop 64 out' = drop 64 out \<and>
           read_response out' = Some
             ((header msg)\<lparr>message_type := response_type r, payload_length := 32,
               MessageHeader.session_id := (if OrderEntrySession.session_id s = 0
                 then MessageHeader.session_id (header msg) else OrderEntrySession.session_id s)\<rparr>, r)"
  using handle_message_refines [OF assms(1), of s msg] assms(2)
  by (cases "spec_handle s msg") (auto simp: writes_def stamp_def response_header_def)

theorem session_refines_rules_witness:
  "\<exists>out' s' h. handle_message (OrderEntrySession_init 5)
       (default\<lparr>header := default\<lparr>sequence_number := 1\<rparr>, type := MessageType.Logout\<rparr>) (replicate 64 0)
       = Some (False, s', out') \<and> read_response out' = Some (h, RAccepted 0 0)"
proof -
  let ?m = "default\<lparr>header := default\<lparr>sequence_number := 1\<rparr>, type := MessageType.Logout\<rparr> :: DecodedMessage"
  have "64 \<le> length (replicate 64 (0 :: byte))" "header_status (header ?m) = DecodeStatus.Ok"
    by (simp_all add: header_status_def)
  from session_refines_rules [OF this, of "OrderEntrySession_init 5"]
  show ?thesis by (auto simp: spec_handle_def request_id_def refusal_def OrderEntrySession_init_def Let_def)
qed

text \<open>
  C27. Order handles are never reused: in a session of fewer than \<open>2 ^ 64 - 1\<close> requests every
  request is answered by a frame that the client can read, the handles of the accepted orders
  are 1, 2, 3 and so on in the order of acceptance, and at the end the active orders have
  pairwise different handles, all of them issued. The bound is where the 64-bit handle counter
  would wrap.
\<close>

theorem session_handles_unique:
  assumes "length ms < 2 ^ 64 - 1" and "\<forall>m \<in> set ms. header_status (header m) = DecodeStatus.Ok"
  shows "\<exists>s' outs rs. session_run (OrderEntrySession_init sid) ms = Some (s', outs) \<and>
           map (\<lambda>out. map_option snd (read_response out)) outs = map Some rs \<and>
           issued rs = map of_nat [1..<unat (next_order_handle s')] \<and> session_inv s'"
proof -
  obtain s' rs where run: "spec_run (OrderEntrySession_init sid) ms = (s', rs)" by force
  have "unat (next_order_handle (OrderEntrySession_init sid)) + length ms < 2 ^ 64"
    using assms(1) by (simp add: OrderEntrySession_init_def)
  from spec_run_inv_issued [OF session_inv_init this run]
  have "session_inv s'" "issued rs = map of_nat [1..<unat (next_order_handle s')]"
    by (simp_all add: OrderEntrySession_init_def)
  then show ?thesis using session_run_refines [OF assms(2), of "OrderEntrySession_init sid"] run by auto
qed

theorem session_handles_unique_witness:
  "\<exists>s' outs. session_run (OrderEntrySession_init 0)
      (map (\<lambda>n. default\<lparr>header := default\<lparr>sequence_number := n\<rparr>, DecodedMessage.type := MessageType.NewOrder,
         new_order := default\<lparr>NewOrder.client_order_id := n + 6, NewOrder.price := 100, NewOrder.quantity := 5\<rparr>\<rparr>) [1, 2]) = Some (s', outs) \<and>
     map (\<lambda>out. map_option snd (read_response out)) outs = [Some (RAccepted 7 1), Some (RAccepted 8 2)] \<and>
     issued [RAccepted 7 1, RAccepted 8 2] = map of_nat [1..<unat (next_order_handle s')] \<and> session_inv s'"
  (is "\<exists>s' outs. session_run ?s ?ms = _ \<and> _")
proof -
  have ok: "length ?ms < 2 ^ 64 - 1" "\<forall>m \<in> set ?ms. header_status (header m) = DecodeStatus.Ok" by (simp_all add: header_status_def)
  obtain s' outs rs where r: "session_run ?s ?ms = Some (s', outs)"
    "map (\<lambda>out. map_option snd (read_response out)) outs = map Some rs"
    "issued rs = map of_nat [1..<unat (next_order_handle s')]" "session_inv s'"
    using session_handles_unique [OF ok] by blast
  have "snd (spec_run ?s ?ms) = [RAccepted 7 1, RAccepted 8 2]"
    by (simp add: spec_handle_def OrderEntrySession_init_def request_id_def refusal_def Let_def lookup_update')
  then have outs: "map (\<lambda>out. map_option snd (read_response out)) outs = [Some (RAccepted 7 1), Some (RAccepted 8 2)]"
    using session_run_refines [OF ok(2), of ?s] r(1) by auto
  then have rs: "rs = [RAccepted 7 1, RAccepted 8 2]" using r(2) by auto
  show ?thesis by (intro exI conjI) (rule r(1), rule outs, rule r(3) [unfolded rs], rule r(4))
qed

text \<open>
  A request out of sequence has no effect: it is answered by \<open>BadSequence\<close> under the client
  order id it names, and the session, its expected sequence number included, stays as it was.
\<close>

theorem bad_sequence_no_effect:
  assumes "64 \<le> length out" and "header_status (header msg) = DecodeStatus.Ok"
    and "is_known_request_type (type msg)" and "sequence_number (header msg) \<noteq> expected_sequence_number s"
  shows "\<exists>out' h. handle_message s msg out = Some (True, s, out') \<and>
           read_response out' = Some (h, RRejected (request_id msg) BadSequence)"
  using handle_message_refines [OF assms(1), of s msg] assms(2-4)
  by (auto simp: spec_handle_def Let_def writes_def)

theorem bad_sequence_no_effect_witness:
  "\<exists>out' h. handle_message (OrderEntrySession_init 0) (default\<lparr>type := MessageType.Heartbeat\<rparr>) (replicate 64 0)
       = Some (True, OrderEntrySession_init 0, out') \<and>
     read_response out' = Some (h, RRejected 0 BadSequence)"
proof -
  let ?m = "default\<lparr>type := MessageType.Heartbeat\<rparr> :: DecodedMessage"
  have "64 \<le> length (replicate 64 (0 :: byte))" "header_status (header ?m) = DecodeStatus.Ok"
    "is_known_request_type (type ?m)"
    "sequence_number (header ?m) \<noteq> expected_sequence_number (OrderEntrySession_init 0)"
    by (simp_all add: header_status_def OrderEntrySession_init_def default_DecodedMessage_ext_def)
  from bad_sequence_no_effect [OF this] show ?thesis by (simp add: request_id_def)
qed

text \<open>
  Life of an order: after a new order with a fresh id and a positive price and quantity has
  been accepted, a modification of it with positive values is answered under the handle of the
  acceptance and changes no order, its cancellation is answered under the same handle, and
  afterwards the book of the session is the one before the order, so the id can be used again
  and a second cancellation is refused as unknown.
\<close>

theorem order_lifecycle:
  assumes "type n = MessageType.NewOrder" and "sequence_number (header n) = expected_sequence_number s"
    and "NewOrder.price (new_order n) \<noteq> 0" and "NewOrder.quantity (new_order n) \<noteq> 0"
    and "NewOrder.client_order_id (new_order n) = cid" and "Mapping.lookup (orders s) cid = None"
    and "type m = MessageType.ModifyOrder" and "sequence_number (header m) = expected_sequence_number s + 1"
    and "new_price (modify_order m) \<noteq> 0" and "new_quantity (modify_order m) \<noteq> 0"
    and "ModifyOrder.client_order_id (modify_order m) = cid"
    and "type c = MessageType.CancelOrder" and "sequence_number (header c) = expected_sequence_number s + 2"
    and "CancelOrder.client_order_id (cancel_order c) = cid"
    and "type d = MessageType.CancelOrder" and "sequence_number (header d) = expected_sequence_number s + 3"
    and "CancelOrder.client_order_id (cancel_order d) = cid"
    and "\<forall>r \<in> {n, m, c, d}. header_status (header r) = DecodeStatus.Ok"
  shows "\<exists>s' outs. session_run s [n, m, c, d] = Some (s', outs) \<and>
           map (\<lambda>out. map_option snd (read_response out)) outs =
             [Some (RAccepted cid (next_order_handle s)), Some (RModified cid (next_order_handle s)),
              Some (RCancelled cid (next_order_handle s)), Some (RRejected cid UnknownClientOrderId)] \<and>
           Mapping.lookup (orders s') = Mapping.lookup (orders s) \<and>
           expected_sequence_number s' = expected_sequence_number s + 4"
proof -
  have ok: "\<forall>r \<in> set [n, m, c, d]. header_status (header r) = DecodeStatus.Ok" using assms(18) by simp
  have run: "spec_run s [n, m, c, d] =
      (s\<lparr>expected_sequence_number := expected_sequence_number s + 4,
         next_order_handle := next_order_handle s + 1,
         orders := Mapping.delete cid (Mapping.update cid (next_order_handle s) (orders s))\<rparr>,
       [RAccepted cid (next_order_handle s), RModified cid (next_order_handle s),
        RCancelled cid (next_order_handle s), RRejected cid UnknownClientOrderId])"
    using assms(1-17) by (simp add: spec_handle_def request_id_def refusal_def Let_def)
  have "Mapping.lookup (Mapping.delete cid (Mapping.update cid (next_order_handle s) (orders s)))
      = Mapping.lookup (orders s)"
    using assms(6) by (auto simp: fun_eq_iff lookup_delete_if lookup_update')
  then show ?thesis using session_run_refines [OF ok, of s] run by auto
qed

theorem order_lifecycle_witness:
  "\<exists>s' outs. session_run (OrderEntrySession_init 0)
      [default\<lparr>header := default\<lparr>sequence_number := 1\<rparr>, type := MessageType.NewOrder,
         new_order := default\<lparr>NewOrder.client_order_id := 77, NewOrder.price := 10, NewOrder.quantity := 1\<rparr>\<rparr>,
       default\<lparr>header := default\<lparr>sequence_number := 2\<rparr>, type := MessageType.ModifyOrder,
         modify_order := default\<lparr>ModifyOrder.client_order_id := 77, new_price := 11, new_quantity := 2\<rparr>\<rparr>,
       default\<lparr>header := default\<lparr>sequence_number := 3\<rparr>, type := MessageType.CancelOrder,
         cancel_order := default\<lparr>CancelOrder.client_order_id := 77\<rparr>\<rparr>,
       default\<lparr>header := default\<lparr>sequence_number := 4\<rparr>, type := MessageType.CancelOrder,
         cancel_order := default\<lparr>CancelOrder.client_order_id := 77\<rparr>\<rparr>] = Some (s', outs) \<and>
     map (\<lambda>out. map_option snd (read_response out)) outs =
       [Some (RAccepted 77 1), Some (RModified 77 1), Some (RCancelled 77 1),
        Some (RRejected 77 UnknownClientOrderId)]"
  using order_lifecycle
    [of "default\<lparr>header := default\<lparr>sequence_number := 1\<rparr>, type := MessageType.NewOrder,
         new_order := default\<lparr>NewOrder.client_order_id := 77, NewOrder.price := 10, NewOrder.quantity := 1\<rparr>\<rparr>"
       "OrderEntrySession_init 0" 77
       "default\<lparr>header := default\<lparr>sequence_number := 2\<rparr>, type := MessageType.ModifyOrder,
         modify_order := default\<lparr>ModifyOrder.client_order_id := 77, new_price := 11, new_quantity := 2\<rparr>\<rparr>"
       "default\<lparr>header := default\<lparr>sequence_number := 3\<rparr>, type := MessageType.CancelOrder,
         cancel_order := default\<lparr>CancelOrder.client_order_id := 77\<rparr>\<rparr>"
       "default\<lparr>header := default\<lparr>sequence_number := 4\<rparr>, type := MessageType.CancelOrder,
         cancel_order := default\<lparr>CancelOrder.client_order_id := 77\<rparr>\<rparr>"]
  by (auto simp: OrderEntrySession_init_def header_status_def)

text \<open>
  C24. Type safety of the request path. Whatever bytes arrive in whatever chunks, a message that leaves the parser is well typed: its
  header has the protocol's magic number, version and payload length, its tag is that of the header and names one of the five
  requests, and its side is in canonical form. So the \<^verbatim>\<open>default\<close> branch of \<open>handle_message\<close> is dead code behind the parser, and every
  such message is answered, in whatever state the session is, by a frame that the client can read, under the request's sequence number.
\<close>

theorem delivered_requests_typed:
  assumes "parser_inv Capacity p" and "feed Capacity p chunks = Some (ms, st, p')" and "m \<in> set ms" and "64 \<le> length out"
  shows "request_ok m \<and>
         (\<exists>b s' out' h r. handle_message s m out = Some (b, s', out') \<and> read_response out' = Some (h, r) \<and>
            message_type h = response_type r \<and> sequence_number h = sequence_number (header m) \<and>
            (\<forall>c. r \<noteq> RRejected c UnsupportedMessageType))"
proof -
  have ok: "request_ok m" using feed_ok [OF assms(2,1)] assms(3) by blast
  obtain b s' r where sp: "spec_handle s m = (b, s', r)" by (cases "spec_handle s m")
  then have "\<forall>c. r \<noteq> RRejected c UnsupportedMessageType"
    using ok by (auto simp: spec_handle_def request_ok_def refusal_def Let_def split: if_splits option.splits)
  then show ?thesis
    using ok handle_message_refines [OF assms(4), of s m] sp
    by (auto simp: writes_def request_ok_def header_status_def stamp_def response_header_def)
qed

theorem delivered_requests_typed_witness:
  "\<exists>m st p'. feed 128 (FrameParser_init 128)
       [header_bytes (stamp MessageType.Heartbeat (default\<lparr>sequence_number := 1\<rparr>)) @ replicate 32 0] = Some ([m], st, p') \<and>
     request_ok m \<and> type m = MessageType.Heartbeat"
proof -
  let ?h = "stamp MessageType.Heartbeat (default\<lparr>sequence_number := 1\<rparr>) :: MessageHeader"
  let ?frame = "header_bytes ?h @ replicate 32 0"
  let ?m = "(default :: DecodedMessage)\<lparr>header := ?h, DecodedMessage.type := MessageType.Heartbeat\<rparr>"
  have inv: "parser_inv 128 (FrameParser_init 128)" by (rule parser_inv_init) code_simp
  have "read_header ?frame = ?h" by (rule read_header_bytes) (simp add: stamp_def)
  then have "spec_request ?frame default = Some ?m"
    by (simp add: spec_request_def Let_def header_status_def validate_header_Ok_iff stamp_def)
  then have "spec_messages ?frame = ([?m], Status.NeedMoreData, [])"
    by (simp del: message_defaults add: spec_messages.simps [of ?frame] spec_messages.simps [of "[]"] spec_parse_def)
  moreover have "\<forall>c \<in> set [?frame]. length c + 63 \<le> unat (128 :: size_t)" by simp
  ultimately obtain st p' where run: "feed 128 (FrameParser_init 128) [?frame] = Some ([?m], st, p')"
    using feed_refines [OF inv, of "[?frame]"] by auto
  then have "request_ok ?m" using delivered_requests_typed [OF inv run, of ?m "replicate 64 0"] by simp
  then show ?thesis using run by auto
qed

end
