(* ===== verification/Spsc.thy ===== *)
theory Spsc
  imports Ring
begin

text \<open>
  \<^verbatim>\<open>spsc_ring_buffer.hpp\<close>: the five ring buffer classes, one whole call of \<^verbatim>\<open>push\<close>, \<^verbatim>\<open>emplace\<close> or
  \<^verbatim>\<open>pop\<close> at a time (a call of the mutex variant is atomic under its lock; the interleaving of the
  lock-free variants is the subject of the concurrent theories). The template parameters are
  the type variable and the argument \<open>Capacity\<close>; \<^verbatim>\<open>std::array\<close> accesses are bounds-checked, so
  \<^term>\<open>None\<close> is an access outside the array. \<^verbatim>\<open>pop\<close> takes the caller's object, as its reference
  parameter \<^verbatim>\<open>out\<close>, and returns it updated. Each variant refines a bounded list.
\<close>

section \<open>Shared parts\<close>

definition is_power_of_two :: "size_t \<Rightarrow> bool" where
  "is_power_of_two v \<longleftrightarrow> v \<noteq> 0 \<and> v AND (v - 1) = 0"

text \<open>The two \<^verbatim>\<open>static_assert\<close>s that all five classes share.\<close>

definition ring_static_assert :: "size_t \<Rightarrow> bool" where
  "ring_static_assert Capacity \<longleftrightarrow> 2 \<le> Capacity \<and> is_power_of_two Capacity"

definition increment :: "size_t \<Rightarrow> size_t \<Rightarrow> size_t" where
  "increment Capacity index = (index + 1) AND (Capacity - 1)"

section \<open>SpscRingBufferMutex\<close>

record 'a SpscRingBufferMutex =
  buffer :: "'a list"
  head :: size_t
  tail :: size_t

definition mutex_init :: "size_t \<Rightarrow> 'a::default SpscRingBufferMutex" where
  "mutex_init Capacity = \<lparr>buffer = replicate (unat Capacity) default, head = 0, tail = 0\<rparr>"

definition mutex_push ::
  "size_t \<Rightarrow> 'a SpscRingBufferMutex \<Rightarrow> 'a \<Rightarrow> (bool \<times> 'a SpscRingBufferMutex) option" where
  "mutex_push Capacity q value =
     (let next = increment Capacity (head q)
      in if next = tail q then Some (False, q)
         else do {
           buf \<leftarrow> span_set (buffer q) (unat (head q)) value;
           Some (True, q\<lparr>buffer := buf, head := next\<rparr>)
         })"

definition mutex_pop ::
  "size_t \<Rightarrow> 'a SpscRingBufferMutex \<Rightarrow> 'a \<Rightarrow> (bool \<times> 'a \<times> 'a SpscRingBufferMutex) option" where
  "mutex_pop Capacity q out =
     (if tail q = head q then Some (False, out, q)
      else do {
        out \<leftarrow> span_get (buffer q) (unat (tail q));
        Some (True, out, q\<lparr>tail := increment Capacity (tail q)\<rparr>)
      })"

section \<open>SpscRingBufferAtomicV1 and SpscRingBufferAtomicV2\<close>

text \<open>
  The two classes differ in their memory orders and in the padding of the indices, not in what
  a call computes.
\<close>

record 'a SpscRingBufferAtomicV1 =
  buffer :: "'a list"
  head :: size_t
  tail :: size_t

definition v1_init :: "size_t \<Rightarrow> 'a::default SpscRingBufferAtomicV1" where
  "v1_init Capacity = \<lparr>buffer = replicate (unat Capacity) default, head = 0, tail = 0\<rparr>"

definition v1_push ::
  "size_t \<Rightarrow> 'a SpscRingBufferAtomicV1 \<Rightarrow> 'a \<Rightarrow> (bool \<times> 'a SpscRingBufferAtomicV1) option" where
  "v1_push Capacity q value =
     (let h = head q; next = increment Capacity h
      in if next = tail q then Some (False, q)
         else do {
           buf \<leftarrow> span_set (buffer q) (unat h) value;
           Some (True, q\<lparr>buffer := buf, head := next\<rparr>)
         })"

definition v1_pop ::
  "size_t \<Rightarrow> 'a SpscRingBufferAtomicV1 \<Rightarrow> 'a \<Rightarrow> (bool \<times> 'a \<times> 'a SpscRingBufferAtomicV1) option" where
  "v1_pop Capacity q out =
     (let t = tail q
      in if t = head q then Some (False, out, q)
         else do {
           out \<leftarrow> span_get (buffer q) (unat t);
           Some (True, out, q\<lparr>tail := increment Capacity t\<rparr>)
         })"

record 'a SpscRingBufferAtomicV2 =
  buffer :: "'a list"
  head :: size_t
  tail :: size_t

definition v2_init :: "size_t \<Rightarrow> 'a::default SpscRingBufferAtomicV2" where
  "v2_init Capacity = \<lparr>buffer = replicate (unat Capacity) default, head = 0, tail = 0\<rparr>"

definition v2_push ::
  "size_t \<Rightarrow> 'a SpscRingBufferAtomicV2 \<Rightarrow> 'a \<Rightarrow> (bool \<times> 'a SpscRingBufferAtomicV2) option" where
  "v2_push Capacity q value =
     (let h = head q; next = increment Capacity h
      in if next = tail q then Some (False, q)
         else do {
           buf \<leftarrow> span_set (buffer q) (unat h) value;
           Some (True, q\<lparr>buffer := buf, head := next\<rparr>)
         })"

definition v2_pop ::
  "size_t \<Rightarrow> 'a SpscRingBufferAtomicV2 \<Rightarrow> 'a \<Rightarrow> (bool \<times> 'a \<times> 'a SpscRingBufferAtomicV2) option" where
  "v2_pop Capacity q out =
     (let t = tail q
      in if t = head q then Some (False, out, q)
         else do {
           out \<leftarrow> span_get (buffer q) (unat t);
           Some (True, out, q\<lparr>tail := increment Capacity t\<rparr>)
         })"

section \<open>SpscRingBufferAtomicV3\<close>

text \<open>Each side keeps a cached copy of the opponent's index and reloads it only when it has to.\<close>

record 'a SpscRingBufferAtomicV3 =
  buffer :: "'a list"
  head :: size_t
  tail :: size_t
  producer_tail_cache :: size_t
  consumer_head_cache :: size_t

definition v3_init :: "size_t \<Rightarrow> 'a::default SpscRingBufferAtomicV3" where
  "v3_init Capacity =
     \<lparr>buffer = replicate (unat Capacity) default, head = 0, tail = 0,
      producer_tail_cache = 0, consumer_head_cache = 0\<rparr>"

definition v3_push ::
  "size_t \<Rightarrow> 'a SpscRingBufferAtomicV3 \<Rightarrow> 'a \<Rightarrow> (bool \<times> 'a SpscRingBufferAtomicV3) option" where
  "v3_push Capacity q value =
     (let h = head q; next = increment Capacity h;
          q = (if next = producer_tail_cache q then q\<lparr>producer_tail_cache := tail q\<rparr> else q)
      in if next = producer_tail_cache q then Some (False, q)
         else do {
           buf \<leftarrow> span_set (buffer q) (unat h) value;
           Some (True, q\<lparr>buffer := buf, head := next\<rparr>)
         })"

text \<open>\<^verbatim>\<open>emplace(args...)\<close> builds its element from the arguments; \<open>construct args\<close> is \<^verbatim>\<open>T(args...)\<close>.\<close>

definition v3_emplace ::
  "size_t \<Rightarrow> ('b \<Rightarrow> 'a) \<Rightarrow> 'a SpscRingBufferAtomicV3 \<Rightarrow> 'b \<Rightarrow> (bool \<times> 'a SpscRingBufferAtomicV3) option" where
  "v3_emplace Capacity construct q args =
     (let h = head q; next = increment Capacity h;
          q = (if next = producer_tail_cache q then q\<lparr>producer_tail_cache := tail q\<rparr> else q)
      in if next = producer_tail_cache q then Some (False, q)
         else do {
           buf \<leftarrow> span_set (buffer q) (unat h) (construct args);
           Some (True, q\<lparr>buffer := buf, head := next\<rparr>)
         })"

definition v3_pop ::
  "size_t \<Rightarrow> 'a SpscRingBufferAtomicV3 \<Rightarrow> 'a \<Rightarrow> (bool \<times> 'a \<times> 'a SpscRingBufferAtomicV3) option" where
  "v3_pop Capacity q out =
     (let t = tail q;
          q = (if t = consumer_head_cache q then q\<lparr>consumer_head_cache := head q\<rparr> else q)
      in if t = consumer_head_cache q then Some (False, out, q)
         else do {
           out \<leftarrow> span_get (buffer q) (unat t);
           Some (True, out, q\<lparr>tail := increment Capacity t\<rparr>)
         })"

section \<open>SpscRingBufferAtomicV4\<close>

text \<open>Free-running counters, local copies of both indices on each side.\<close>

record 'a SpscRingBufferAtomicV4 =
  buffer :: "'a list"
  head :: size_t
  tail :: size_t
  producer_head :: size_t
  producer_tail :: size_t
  consumer_head :: size_t
  consumer_tail :: size_t

definition v4_init :: "size_t \<Rightarrow> 'a::default SpscRingBufferAtomicV4" where
  "v4_init Capacity =
     \<lparr>buffer = replicate (unat Capacity) default, head = 0, tail = 0,
      producer_head = 0, producer_tail = 0, consumer_head = 0, consumer_tail = 0\<rparr>"

definition idx_of :: "size_t \<Rightarrow> size_t \<Rightarrow> size_t" where
  "idx_of Capacity counter = counter AND (Capacity - 1)"

definition v4_push ::
  "size_t \<Rightarrow> 'a SpscRingBufferAtomicV4 \<Rightarrow> 'a \<Rightarrow> (bool \<times> 'a SpscRingBufferAtomicV4) option" where
  "v4_push Capacity q value =
     (let q = (if producer_head q - producer_tail q = Capacity then q\<lparr>producer_tail := tail q\<rparr> else q)
      in if producer_head q - producer_tail q = Capacity then Some (False, q)
         else do {
           buf \<leftarrow> span_set (buffer q) (unat (idx_of Capacity (producer_head q))) value;
           let q = q\<lparr>buffer := buf, producer_head := producer_head q + 1\<rparr>;
           Some (True, q\<lparr>head := producer_head q\<rparr>)
         })"

definition v4_pop ::
  "size_t \<Rightarrow> 'a SpscRingBufferAtomicV4 \<Rightarrow> 'a \<Rightarrow> (bool \<times> 'a \<times> 'a SpscRingBufferAtomicV4) option" where
  "v4_pop Capacity q out =
     (let q = (if consumer_head q = consumer_tail q then q\<lparr>consumer_head := head q\<rparr> else q)
      in if consumer_head q = consumer_tail q then Some (False, out, q)
         else do {
           out \<leftarrow> span_get (buffer q) (unat (idx_of Capacity (consumer_tail q)));
           let q = q\<lparr>consumer_tail := consumer_tail q + 1\<rparr>;
           Some (True, out, q\<lparr>tail := consumer_tail q\<rparr>)
         })"

section \<open>Powers of two\<close>

lemma bit_top:
  fixes n k :: nat
  assumes "2 ^ k \<le> n" and "n < 2 ^ Suc k"
  shows "bit n k"
proof -
  have "n div 2 ^ k = 1" using assms by (intro div_nat_eqI) auto
  then show ?thesis by (simp add: bit_iff_odd)
qed

lemma is_power_of_two_iff: "is_power_of_two v \<longleftrightarrow> (\<exists>k<64. v = 2 ^ k)"
proof
  assume p: "is_power_of_two v"
  then have pos: "0 < unat v" by (simp add: is_power_of_two_def unat_gt_0)
  define k where "k = Max {k. 2 ^ k \<le> unat v}"
  have fin: "finite {k. 2 ^ k \<le> unat v}"
    by (rule finite_subset [of _ "{..unat v}"]) (auto intro: order_trans [OF less_imp_le [OF less_exp]])
  have "(0::nat) \<in> {k. 2 ^ k \<le> unat v}" using pos by simp
  then have le: "2 ^ k \<le> unat v" using Max_in [OF fin] unfolding k_def by blast
  have lt: "unat v < 2 ^ Suc k"
  proof (rule ccontr)
    assume "\<not> unat v < 2 ^ Suc k"
    then have "Suc k \<le> k" unfolding k_def using fin by (intro Max_ge) auto
    then show False by simp
  qed
  have k: "k < 64"
  proof (rule ccontr)
    assume "\<not> k < 64"
    then have "(2::nat) ^ 64 \<le> 2 ^ k" by (intro power_increasing) auto
    also have "\<dots> \<le> unat v" by (fact le)
    also have "unat v < 2 ^ 64" using unsigned_less [of v, where ?'a = nat] by simp
    finally show False by simp
  qed
  have "unat v = 2 ^ k"
  proof (rule ccontr)
    assume ne: "unat v \<noteq> 2 ^ k"
    have "unat (v - 1) = unat v - 1" using pos by (simp add: unat_minus_one unat_gt_0)
    then have "bit (unat (v - 1)) k" using ne le lt by (intro bit_top) auto
    moreover have "bit (unat v) k" using le lt by (rule bit_top)
    ultimately have "bit (v AND (v - 1)) k" by (simp add: bit_and_iff bit_unsigned_iff)
    then show False using p by (simp add: is_power_of_two_def)
  qed
  then have "v = 2 ^ k" using k by (intro word_unat_eq_iff [THEN iffD2]) simp
  then show "\<exists>k<64. v = 2 ^ k" using k by blast
next
  assume "\<exists>k<64. v = 2 ^ k"
  then obtain k where k: "k < 64" "v = 2 ^ k" by blast
  then have "unat (v AND (v - 1)) = 0" by (simp add: unat_and_mask)
  moreover have "v \<noteq> 0" using unat_exp_size [OF k(1)] k(2) by (metis power_not_zero unat_0 zero_neq_numeral)
  ultimately show "is_power_of_two v" by (simp add: is_power_of_two_def unat_eq_zero)
qed

lemma ring_static_assertE:
  assumes "ring_static_assert Capacity"
  obtains k where "k < 64" and "Capacity = 2 ^ k" and "2 \<le> unat Capacity"
proof -
  from assms obtain k where "k < 64" "Capacity = 2 ^ k"
    by (auto simp: ring_static_assert_def is_power_of_two_iff)
  moreover have "2 \<le> unat Capacity"
    using assms by (simp add: ring_static_assert_def word_le_nat_alt)
  ultimately show ?thesis using that by blast
qed

section \<open>Index arithmetic\<close>

text \<open>The number of slots from index \<open>t\<close> to index \<open>h\<close> of a ring with \<open>cap\<close> slots.\<close>

definition gap :: "nat \<Rightarrow> nat \<Rightarrow> nat \<Rightarrow> nat" where
  "gap cap t h = (h + cap - t) mod cap"

lemma gap_less: "0 < cap \<Longrightarrow> gap cap t h < cap"
  by (simp add: gap_def)

lemma gap_eq:
  assumes "t < cap" and "g < cap"
  shows "gap cap t ((t + g) mod cap) = g"
proof (cases "t + g < cap")
  case True
  then show ?thesis using assms by (simp add: gap_def)
next
  case False
  then have "(t + g) mod cap = t + g - cap" using assms by (simp add: mod_if)
  then show ?thesis using False assms by (simp add: gap_def)
qed

lemma add_gap: "t < cap \<Longrightarrow> h < cap \<Longrightarrow> (t + gap cap t h) mod cap = h"
  by (simp add: gap_def mod_add_right_eq)

lemma gap_0_iff: "t < cap \<Longrightarrow> h < cap \<Longrightarrow> gap cap t h = 0 \<longleftrightarrow> t = h"
  using add_gap [of t cap h] by (auto simp: gap_def)

lemma gap_Suc_head:
  assumes "t < cap" and "h < cap" and "gap cap t h < cap - 1"
  shows "gap cap t (Suc h mod cap) = Suc (gap cap t h)"
proof -
  have "(t + Suc (gap cap t h)) mod cap = Suc ((t + gap cap t h) mod cap) mod cap"
    by (simp add: mod_Suc_eq)
  also have "\<dots> = Suc h mod cap" using assms by (simp add: add_gap)
  finally show ?thesis using gap_eq [of t cap "Suc (gap cap t h)"] assms by simp
qed

lemma gap_full_iff:
  assumes "t < cap" and "h < cap" and "2 \<le> cap"
  shows "Suc h mod cap = t \<longleftrightarrow> gap cap t h = cap - 1"
proof
  assume full: "gap cap t h = cap - 1"
  have "Suc h mod cap = Suc (t + gap cap t h) mod cap"
    using assms add_gap [of t cap h] by (metis mod_Suc_eq)
  also have "\<dots> = t" using full assms by simp
  finally show "Suc h mod cap = t" .
next
  assume t: "Suc h mod cap = t"
  show "gap cap t h = cap - 1"
  proof (rule ccontr)
    assume "gap cap t h \<noteq> cap - 1"
    then have "gap cap t h < cap - 1" using gap_less [of cap t h] assms by simp
    then have "gap cap t t = Suc (gap cap t h)" using gap_Suc_head [OF assms(1,2)] t by simp
    then show False using gap_0_iff [OF assms(1,1)] by simp
  qed
qed

lemma gap_Suc_tail:
  assumes "t < cap" and "h < cap" and "0 < gap cap t h"
  shows "gap cap (Suc t mod cap) h = gap cap t h - 1"
proof -
  have "(Suc t mod cap + (gap cap t h - 1)) mod cap = (Suc t + (gap cap t h - 1)) mod cap"
    by (simp add: mod_add_left_eq)
  also have "\<dots> = h" using assms add_gap [of t cap h] by simp
  finally have eq: "(Suc t mod cap + (gap cap t h - 1)) mod cap = h" .
  have "gap cap t h - 1 < cap" using gap_less [of cap t h] assms by simp
  then show ?thesis using gap_eq [of "Suc t mod cap" cap "gap cap t h - 1"] eq assms by simp
qed

lemma unat_increment:
  assumes "ring_static_assert Capacity"
  shows "unat (increment Capacity i) = Suc (unat i) mod unat Capacity"
proof -
  obtain k where k: "k < 64" "Capacity = 2 ^ k" using assms by (elim ring_static_assertE)
  then show ?thesis
    using unat_add_mod_exp [OF k(1), of i 1] by (simp add: increment_def unat_and_mask)
qed

lemma unat_idx_of:
  assumes "ring_static_assert Capacity"
  shows "unat (idx_of Capacity i) = unat i mod unat Capacity"
  using assms by (elim ring_static_assertE) (simp add: idx_of_def unat_and_mask)

section \<open>The interface of a bounded queue\<close>

text \<open>
  What a user of any of the classes relies on. \<open>valid\<close> stands for the static assertions,
  \<open>bound\<close> for the number of elements the queue can hold.
\<close>

locale bounded_fifo =
  fixes init :: 'q
    and push :: "'q \<Rightarrow> 'a \<Rightarrow> (bool \<times> 'q) option"
    and pop :: "'q \<Rightarrow> 'a \<Rightarrow> (bool \<times> 'a \<times> 'q) option"
    and contents :: "'q \<Rightarrow> 'a list"
    and inv :: "'q \<Rightarrow> bool"
    and valid :: bool
    and bound :: nat
  assumes init_inv: "valid \<Longrightarrow> inv init"
    and init_contents: "valid \<Longrightarrow> contents init = []"
    and bounded: "inv q \<Longrightarrow> length (contents q) \<le> bound"
    and push_full: "inv q \<Longrightarrow> length (contents q) = bound \<Longrightarrow>
          \<exists>q'. push q v = Some (False, q') \<and> inv q' \<and> contents q' = contents q"
    and push_room: "inv q \<Longrightarrow> length (contents q) < bound \<Longrightarrow>
          \<exists>q'. push q v = Some (True, q') \<and> inv q' \<and> contents q' = contents q @ [v]"
    and pop_empty: "inv q \<Longrightarrow> contents q = [] \<Longrightarrow>
          \<exists>q'. pop q out = Some (False, out, q') \<and> inv q' \<and> contents q' = []"
    and pop_some: "inv q \<Longrightarrow> contents q = x # xs \<Longrightarrow>
          \<exists>q'. pop q out = Some (True, x, q') \<and> inv q' \<and> contents q' = xs"

text \<open>A sequence of calls on a queue and what they return, on any queue and on a bounded list.\<close>

datatype 'a call = Push 'a | Pop 'a

datatype 'a result = Pushed bool | Popped bool 'a

fun run_calls ::
  "('q \<Rightarrow> 'a \<Rightarrow> (bool \<times> 'q) option) \<Rightarrow> ('q \<Rightarrow> 'a \<Rightarrow> (bool \<times> 'a \<times> 'q) option) \<Rightarrow>
   'q \<Rightarrow> 'a call list \<Rightarrow> ('a result list \<times> 'q) option" where
  "run_calls push pop q [] = Some ([], q)"
| "run_calls push pop q (Push v # cs) = do {
     (b, q) \<leftarrow> push q v;
     (rs, q) \<leftarrow> run_calls push pop q cs;
     Some (Pushed b # rs, q)
   }"
| "run_calls push pop q (Pop out # cs) = do {
     (b, x, q) \<leftarrow> pop q out;
     (rs, q) \<leftarrow> run_calls push pop q cs;
     Some (Popped b x # rs, q)
   }"

fun spec_calls :: "nat \<Rightarrow> 'a list \<Rightarrow> 'a call list \<Rightarrow> 'a result list \<times> 'a list" where
  "spec_calls n xs [] = ([], xs)"
| "spec_calls n xs (Push v # cs) =
     (let b = (length xs < n); (rs, ys) = spec_calls n (if b then xs @ [v] else xs) cs
      in (Pushed b # rs, ys))"
| "spec_calls n xs (Pop out # cs) =
     (let (rs, ys) = spec_calls n (tl xs) cs
      in (Popped (xs \<noteq> []) (case xs of [] \<Rightarrow> out | x # _ \<Rightarrow> x) # rs, ys))"

context bounded_fifo
begin

lemma push_any:
  assumes "inv q"
  obtains q' where "push q v = Some (length (contents q) < bound, q')" and "inv q'"
    and "contents q' = (if length (contents q) < bound then contents q @ [v] else contents q)"
  using push_full [OF assms, of v] push_room [OF assms, of v] bounded [OF assms] that
  by (cases "length (contents q) < bound") auto

lemma pop_any:
  assumes "inv q"
  obtains q' where "inv q'" and "contents q' = tl (contents q)"
    and "pop q out = Some (contents q \<noteq> [], case contents q of [] \<Rightarrow> out | x # _ \<Rightarrow> x, q')"
  using pop_empty [OF assms, of out] pop_some [OF assms, of _ _ out] that
  by (cases "contents q") auto

lemma run_refines:
  "inv q \<Longrightarrow> \<exists>q'. run_calls push pop q cs = Some (fst (spec_calls bound (contents q) cs), q') \<and>
     inv q' \<and> contents q' = snd (spec_calls bound (contents q) cs)"
proof (induction cs arbitrary: q)
  case (Cons c cs)
  show ?case
  proof (cases c)
    case (Push v)
    obtain q' where "push q v = Some (length (contents q) < bound, q')" and "inv q'"
      and "contents q' = (if length (contents q) < bound then contents q @ [v] else contents q)"
      using Cons.prems by (rule push_any)
    then show ?thesis using Cons.IH [of q'] Push by (auto simp: case_prod_unfold Let_def)
  next
    case (Pop out)
    obtain q' where "inv q'" and "contents q' = tl (contents q)"
      and "pop q out = Some (contents q \<noteq> [], case contents q of [] \<Rightarrow> out | x # _ \<Rightarrow> x, q')"
      using Cons.prems by (rule pop_any)
    then show ?thesis using Cons.IH [of q'] Pop by (auto simp: case_prod_unfold Let_def)
  qed
qed simp

lemma run_init:
  assumes valid
  shows "\<exists>q'. run_calls push pop init cs = Some (fst (spec_calls bound [] cs), q') \<and>
           inv q' \<and> contents q' = snd (spec_calls bound [] cs)"
  using run_refines [OF init_inv [OF assms], of cs] init_contents [OF assms] by simp

end

section \<open>The index-based variants\<close>

text \<open>A ring of \<open>Capacity\<close> slots with a head and a tail index holds up to \<open>Capacity - 1\<close> elements.\<close>

definition index_inv :: "size_t \<Rightarrow> 'a list \<Rightarrow> size_t \<Rightarrow> size_t \<Rightarrow> bool" where
  "index_inv Capacity buf h t \<longleftrightarrow>
     ring_static_assert Capacity \<and> length buf = unat Capacity \<and>
     unat h < unat Capacity \<and> unat t < unat Capacity"

definition index_contents :: "'a list \<Rightarrow> size_t \<Rightarrow> size_t \<Rightarrow> 'a list" where
  "index_contents buf h t = ring_slice buf (unat t) (gap (length buf) (unat t) (unat h))"

lemma index_cap: "index_inv Capacity buf h t \<Longrightarrow> 2 \<le> unat Capacity"
  unfolding index_inv_def by (auto elim: ring_static_assertE)

lemma length_index_contents:
  "index_inv Capacity buf h t \<Longrightarrow> length (index_contents buf h t) = gap (unat Capacity) (unat t) (unat h)"
  by (simp add: index_contents_def index_inv_def)

lemma index_init:
  assumes "ring_static_assert Capacity"
  shows "index_inv Capacity (replicate (unat Capacity) x) 0 0"
    and "index_contents (replicate (unat Capacity) x) 0 0 = []"
  using assms by (auto simp: index_inv_def index_contents_def gap_def elim!: ring_static_assertE)

lemma index_bounded:
  assumes "index_inv Capacity buf h t"
  shows "length (index_contents buf h t) \<le> unat Capacity - 1"
  using assms index_cap [OF assms] gap_less [of "unat Capacity" "unat t" "unat h"]
  by (simp add: length_index_contents)

lemma index_full_iff:
  assumes "index_inv Capacity buf h t"
  shows "increment Capacity h = t \<longleftrightarrow> length (index_contents buf h t) = unat Capacity - 1"
  using assms index_cap [OF assms] gap_full_iff [of "unat t" "unat Capacity" "unat h"]
    length_index_contents [OF assms]
  by (simp add: word_unat_eq_iff unat_increment index_inv_def)

lemma index_empty_iff:
  assumes "index_inv Capacity buf h t"
  shows "t = h \<longleftrightarrow> index_contents buf h t = []"
proof -
  have "length (index_contents buf h t) = 0 \<longleftrightarrow> unat t = unat h"
    using assms gap_0_iff [of "unat t" "unat Capacity" "unat h"] length_index_contents [OF assms]
    by (simp add: index_inv_def)
  then show ?thesis by (auto simp: word_unat_eq_iff)
qed

lemma index_push:
  assumes inv: "index_inv Capacity buf h t" and room: "increment Capacity h \<noteq> t"
  shows "span_set buf (unat h) v = Some (buf[unat h := v])"
    and "index_inv Capacity (buf[unat h := v]) (increment Capacity h) t"
    and "index_contents (buf[unat h := v]) (increment Capacity h) t = index_contents buf h t @ [v]"
proof -
  let ?g = "gap (unat Capacity) (unat t) (unat h)"
  have sa: "ring_static_assert Capacity" and len: "length buf = unat Capacity"
    and lt: "unat h < unat Capacity" "unat t < unat Capacity"
    using inv by (auto simp: index_inv_def)
  show "span_set buf (unat h) v = Some (buf[unat h := v])" using len lt by (simp add: span_set_def)
  show "index_inv Capacity (buf[unat h := v]) (increment Capacity h) t"
    using sa len lt by (simp add: index_inv_def unat_increment)
  have "?g \<noteq> unat Capacity - 1"
    using room index_full_iff [OF inv] length_index_contents [OF inv] by simp
  then have g: "?g < unat Capacity - 1"
    using gap_less [of "unat Capacity" "unat t" "unat h"] lt by linarith
  show "index_contents (buf[unat h := v]) (increment Capacity h) t = index_contents buf h t @ [v]"
    using ring_slice_snoc [of ?g buf "unat t" v] g lt len sa
    by (simp add: index_contents_def unat_increment gap_Suc_head add_gap)
qed

lemma index_pop:
  assumes inv: "index_inv Capacity buf h t" and some: "index_contents buf h t = x # xs"
  shows "span_get buf (unat t) = Some x"
    and "index_inv Capacity buf h (increment Capacity t)"
    and "index_contents buf h (increment Capacity t) = xs"
proof -
  let ?g = "gap (unat Capacity) (unat t) (unat h)"
  have sa: "ring_static_assert Capacity" and len: "length buf = unat Capacity"
    and lt: "unat h < unat Capacity" "unat t < unat Capacity"
    using inv by (auto simp: index_inv_def)
  have g: "0 < ?g" using length_index_contents [OF inv] some by simp
  have "hd (index_contents buf h t) = buf ! unat t"
    using g len lt by (simp add: index_contents_def hd_ring_slice)
  then show "span_get buf (unat t) = Some x" using some len lt by (simp add: span_get_def)
  show "index_inv Capacity buf h (increment Capacity t)"
    using sa len lt by (simp add: index_inv_def unat_increment)
  have "index_contents buf h (increment Capacity t) = tl (index_contents buf h t)"
    using g len lt sa ring_slice_mod [of buf "Suc (unat t)"]
    by (simp add: index_contents_def unat_increment gap_Suc_tail tl_ring_slice)
  then show "index_contents buf h (increment Capacity t) = xs" using some by simp
qed

text \<open>
  The call protocol that the mutex variant and the first two atomic ones share, in terms of the
  two indices. Every such ring is a bounded queue.
\<close>

locale index_ring =
  fixes Capacity :: size_t
    and init :: 'q
    and push :: "'q \<Rightarrow> 'a \<Rightarrow> (bool \<times> 'q) option"
    and pop :: "'q \<Rightarrow> 'a \<Rightarrow> (bool \<times> 'a \<times> 'q) option"
    and buf :: "'q \<Rightarrow> 'a list"
    and hx :: "'q \<Rightarrow> size_t"
    and tx :: "'q \<Rightarrow> size_t"
  assumes init_ring: "\<exists>x. buf init = replicate (unat Capacity) x" "hx init = 0" "tx init = 0"
    and push_stop: "increment Capacity (hx q) = tx q \<Longrightarrow> push q v = Some (False, q)"
    and push_go: "increment Capacity (hx q) \<noteq> tx q \<Longrightarrow> span_set (buf q) (unat (hx q)) v = Some b \<Longrightarrow>
          \<exists>q'. push q v = Some (True, q') \<and> buf q' = b \<and> hx q' = increment Capacity (hx q) \<and> tx q' = tx q"
    and pop_stop: "tx q = hx q \<Longrightarrow> pop q out = Some (False, out, q)"
    and pop_go: "tx q \<noteq> hx q \<Longrightarrow> span_get (buf q) (unat (tx q)) = Some x \<Longrightarrow>
          \<exists>q'. pop q out = Some (True, x, q') \<and> buf q' = buf q \<and> hx q' = hx q \<and>
            tx q' = increment Capacity (tx q)"

sublocale index_ring \<subseteq> bounded_fifo init push pop "\<lambda>q. index_contents (buf q) (hx q) (tx q)"
    "\<lambda>q. index_inv Capacity (buf q) (hx q) (tx q)" "ring_static_assert Capacity" "unat Capacity - 1"
proof (unfold_locales, goal_cases)
  case 1
  then show ?case using init_ring index_init(1) by metis
next
  case 2
  then show ?case using init_ring index_init(2) by metis
next
  case (3 q)
  then show ?case by (rule index_bounded)
next
  case (4 q v)
  then show ?case using push_stop index_full_iff by blast
next
  case (5 q v)
  then have room: "increment Capacity (hx q) \<noteq> tx q" by (simp add: index_full_iff)
  show ?case
    using push_go [OF room index_push(1) [OF 5(1) room]] index_push [OF 5(1) room, of v] by metis
next
  case (6 q out)
  then show ?case using pop_stop index_empty_iff by blast
next
  case (7 q x xs out)
  then have "tx q \<noteq> hx q" by (simp add: index_empty_iff)
  from pop_go [OF this index_pop(1) [OF 7]] show ?case using index_pop [OF 7] by metis
qed

interpretation mutex_fifo: index_ring Capacity "mutex_init Capacity" "mutex_push Capacity" "mutex_pop Capacity"
    SpscRingBufferMutex.buffer SpscRingBufferMutex.head SpscRingBufferMutex.tail for Capacity
  by unfold_locales (auto simp: mutex_init_def mutex_push_def mutex_pop_def Let_def)

interpretation v1_fifo: index_ring Capacity "v1_init Capacity" "v1_push Capacity" "v1_pop Capacity"
    SpscRingBufferAtomicV1.buffer SpscRingBufferAtomicV1.head SpscRingBufferAtomicV1.tail for Capacity
  by unfold_locales (auto simp: v1_init_def v1_push_def v1_pop_def Let_def)

interpretation v2_fifo: index_ring Capacity "v2_init Capacity" "v2_push Capacity" "v2_pop Capacity"
    SpscRingBufferAtomicV2.buffer SpscRingBufferAtomicV2.head SpscRingBufferAtomicV2.tail for Capacity
  by unfold_locales (auto simp: v2_init_def v2_push_def v2_pop_def Let_def)

text \<open>
  The caches of the third variant are behind the indices they copy: the producer sees no fewer
  elements than there are, the consumer no more.
\<close>

definition v3_inv :: "size_t \<Rightarrow> 'a SpscRingBufferAtomicV3 \<Rightarrow> bool" where
  "v3_inv Capacity q \<longleftrightarrow>
     (let cap = unat Capacity; h = unat (SpscRingBufferAtomicV3.head q); t = unat (SpscRingBufferAtomicV3.tail q)
      in index_inv Capacity (SpscRingBufferAtomicV3.buffer q) (SpscRingBufferAtomicV3.head q)
           (SpscRingBufferAtomicV3.tail q) \<and>
         unat (producer_tail_cache q) < cap \<and> unat (consumer_head_cache q) < cap \<and>
         gap cap t h \<le> gap cap (unat (producer_tail_cache q)) h \<and>
         gap cap t (unat (consumer_head_cache q)) \<le> gap cap t h)"

definition v3_contents :: "'a SpscRingBufferAtomicV3 \<Rightarrow> 'a list" where
  "v3_contents q =
     index_contents (SpscRingBufferAtomicV3.buffer q) (SpscRingBufferAtomicV3.head q) (SpscRingBufferAtomicV3.tail q)"

lemma v3_emplace_push: "v3_emplace Capacity construct q args = v3_push Capacity q (construct args)"
  by (simp add: v3_emplace_def v3_push_def)

lemma v3_init_inv: "ring_static_assert Capacity \<Longrightarrow> v3_inv Capacity (v3_init Capacity)"
  using index_init(1) [of Capacity "default :: 'a::default"]
  by (auto simp: v3_inv_def v3_init_def gap_def index_inv_def)

text \<open>Reloading a cache keeps the invariant and makes it exact.\<close>

lemma v3_reload:
  assumes "v3_inv Capacity q"
  shows "v3_inv Capacity (q\<lparr>producer_tail_cache := SpscRingBufferAtomicV3.tail q\<rparr>)"
    and "v3_inv Capacity (q\<lparr>consumer_head_cache := SpscRingBufferAtomicV3.head q\<rparr>)"
  using assms by (auto simp: v3_inv_def Let_def index_inv_def)

lemma v3_store:
  assumes inv: "v3_inv Capacity q" and ne: "increment Capacity (SpscRingBufferAtomicV3.head q) \<noteq> producer_tail_cache q"
  shows "increment Capacity (SpscRingBufferAtomicV3.head q) \<noteq> SpscRingBufferAtomicV3.tail q"
    and "v3_inv Capacity (q\<lparr>SpscRingBufferAtomicV3.buffer := (SpscRingBufferAtomicV3.buffer q)
           [unat (SpscRingBufferAtomicV3.head q) := v],
           SpscRingBufferAtomicV3.head := increment Capacity (SpscRingBufferAtomicV3.head q)\<rparr>)"
proof -
  let ?h = "unat (SpscRingBufferAtomicV3.head q)" and ?t = "unat (SpscRingBufferAtomicV3.tail q)"
    and ?c = "unat (producer_tail_cache q)" and ?cap = "unat Capacity"
  have ii: "index_inv Capacity (SpscRingBufferAtomicV3.buffer q) (SpscRingBufferAtomicV3.head q) (SpscRingBufferAtomicV3.tail q)"
    and le: "?c < ?cap" "gap ?cap ?t ?h \<le> gap ?cap ?c ?h" "unat (consumer_head_cache q) < ?cap"
      "gap ?cap ?t (unat (consumer_head_cache q)) \<le> gap ?cap ?t ?h"
    using inv by (auto simp: v3_inv_def Let_def)
  have lt: "?h < ?cap" "?t < ?cap" "ring_static_assert Capacity" and two: "2 \<le> ?cap"
    using ii index_cap [OF ii] by (auto simp: index_inv_def)
  have "gap ?cap ?c ?h \<noteq> ?cap - 1"
    using ne gap_full_iff [OF le(1) lt(1) two] lt by (simp add: word_unat_eq_iff unat_increment)
  then have gc: "gap ?cap ?c ?h < ?cap - 1" using gap_less [of ?cap ?c ?h] two by linarith
  then have gt: "gap ?cap ?t ?h < ?cap - 1" using le by linarith
  then show room: "increment Capacity (SpscRingBufferAtomicV3.head q) \<noteq> SpscRingBufferAtomicV3.tail q"
    using gap_full_iff [OF lt(2) lt(1) two] lt by (auto simp: word_unat_eq_iff unat_increment)
  show "v3_inv Capacity (q\<lparr>SpscRingBufferAtomicV3.buffer := (SpscRingBufferAtomicV3.buffer q)[?h := v],
           SpscRingBufferAtomicV3.head := increment Capacity (SpscRingBufferAtomicV3.head q)\<rparr>)"
    using index_push(2) [OF ii room, of v] le gc gt lt
    by (simp add: v3_inv_def Let_def unat_increment gap_Suc_head)
qed

lemma v3_load:
  assumes inv: "v3_inv Capacity q" and ne: "SpscRingBufferAtomicV3.tail q \<noteq> consumer_head_cache q"
  shows "SpscRingBufferAtomicV3.tail q \<noteq> SpscRingBufferAtomicV3.head q"
    and "v3_inv Capacity (q\<lparr>SpscRingBufferAtomicV3.tail := increment Capacity (SpscRingBufferAtomicV3.tail q)\<rparr>)"
proof -
  let ?h = "unat (SpscRingBufferAtomicV3.head q)" and ?t = "unat (SpscRingBufferAtomicV3.tail q)"
    and ?c = "unat (consumer_head_cache q)" and ?cap = "unat Capacity"
  have ii: "index_inv Capacity (SpscRingBufferAtomicV3.buffer q) (SpscRingBufferAtomicV3.head q) (SpscRingBufferAtomicV3.tail q)"
    and le: "?c < ?cap" "gap ?cap ?t ?h \<le> gap ?cap (unat (producer_tail_cache q)) ?h"
      "gap ?cap ?t ?c \<le> gap ?cap ?t ?h" "unat (producer_tail_cache q) < ?cap"
    using inv by (auto simp: v3_inv_def Let_def)
  have lt: "?h < ?cap" "?t < ?cap" "ring_static_assert Capacity"
    using ii by (auto simp: index_inv_def)
  have gc: "0 < gap ?cap ?t ?c" using ne gap_0_iff [OF lt(2) le(1)] by (auto simp: word_unat_eq_iff)
  then have gt: "0 < gap ?cap ?t ?h" using le by linarith
  then show "SpscRingBufferAtomicV3.tail q \<noteq> SpscRingBufferAtomicV3.head q"
    using gap_0_iff [OF lt(2) lt(1)] by auto
  show "v3_inv Capacity (q\<lparr>SpscRingBufferAtomicV3.tail := increment Capacity (SpscRingBufferAtomicV3.tail q)\<rparr>)"
    using ii le gc gt lt diff_le_mono [OF le(3), of 1]
    by (simp add: v3_inv_def Let_def index_inv_def unat_increment gap_Suc_tail)
qed

text \<open>What a call does, on each branch.\<close>

lemma v3_push_full:
  assumes inv: "v3_inv Capacity q" and full: "length (v3_contents q) = unat Capacity - 1"
  shows "\<exists>q'. v3_push Capacity q v = Some (False, q') \<and> v3_inv Capacity q' \<and> v3_contents q' = v3_contents q"
proof -
  let ?q = "q\<lparr>producer_tail_cache := SpscRingBufferAtomicV3.tail q\<rparr>"
  have eq: "increment Capacity (SpscRingBufferAtomicV3.head q) = SpscRingBufferAtomicV3.tail q"
    using inv full index_full_iff by (auto simp: v3_inv_def v3_contents_def Let_def)
  then have "increment Capacity (SpscRingBufferAtomicV3.head q) = producer_tail_cache q"
    using v3_store(1) [OF inv] by blast
  then have "v3_push Capacity q v = Some (False, ?q)" using eq by (simp add: v3_push_def Let_def)
  then show ?thesis using v3_reload(1) [OF inv] by (auto simp: v3_contents_def)
qed

lemma v3_push_room:
  assumes inv: "v3_inv Capacity q" and room: "length (v3_contents q) < unat Capacity - 1"
  shows "\<exists>q'. v3_push Capacity q v = Some (True, q') \<and> v3_inv Capacity q' \<and> v3_contents q' = v3_contents q @ [v]"
proof -
  define p where "p = (if increment Capacity (SpscRingBufferAtomicV3.head q) = producer_tail_cache q
    then q\<lparr>producer_tail_cache := SpscRingBufferAtomicV3.tail q\<rparr> else q)"
  let ?n = "increment Capacity (SpscRingBufferAtomicV3.head p)"
  have p: "v3_inv Capacity p" "v3_contents p = v3_contents q"
    "SpscRingBufferAtomicV3.head p = SpscRingBufferAtomicV3.head q"
    using inv v3_reload(1) [OF inv] by (auto simp: p_def v3_contents_def)
  have ii: "index_inv Capacity (SpscRingBufferAtomicV3.buffer p) (SpscRingBufferAtomicV3.head p) (SpscRingBufferAtomicV3.tail p)"
    using p(1) by (simp add: v3_inv_def Let_def)
  have ne: "?n \<noteq> SpscRingBufferAtomicV3.tail p"
    using index_full_iff [OF ii] p(2) room by (simp add: v3_contents_def)
  then have nc: "?n \<noteq> producer_tail_cache p" by (auto simp: p_def split: if_splits)
  have "v3_push Capacity q v = Some (True, p\<lparr>SpscRingBufferAtomicV3.buffer :=
      (SpscRingBufferAtomicV3.buffer p)[unat (SpscRingBufferAtomicV3.head p) := v], SpscRingBufferAtomicV3.head := ?n\<rparr>)"
    using nc index_push(1) [OF ii ne, of v] p(3) by (simp add: v3_push_def Let_def flip: p_def)
  then show ?thesis
    using v3_store(2) [OF p(1) nc, of v] index_push(3) [OF ii ne, of v] p(2) by (simp add: v3_contents_def)
qed

lemma v3_pop_empty:
  assumes inv: "v3_inv Capacity q" and empty: "v3_contents q = []"
  shows "\<exists>q'. v3_pop Capacity q out = Some (False, out, q') \<and> v3_inv Capacity q' \<and> v3_contents q' = []"
proof -
  let ?q = "q\<lparr>consumer_head_cache := SpscRingBufferAtomicV3.head q\<rparr>"
  have eq: "SpscRingBufferAtomicV3.tail q = SpscRingBufferAtomicV3.head q"
    using inv empty index_empty_iff by (auto simp: v3_inv_def v3_contents_def Let_def)
  then have "SpscRingBufferAtomicV3.tail q = consumer_head_cache q" using v3_load(1) [OF inv] by blast
  then have "v3_pop Capacity q out = Some (False, out, ?q)" using eq by (simp add: v3_pop_def Let_def)
  then show ?thesis using v3_reload(2) [OF inv] empty by (auto simp: v3_contents_def)
qed

lemma v3_pop_some:
  assumes inv: "v3_inv Capacity q" and some: "v3_contents q = x # xs"
  shows "\<exists>q'. v3_pop Capacity q out = Some (True, x, q') \<and> v3_inv Capacity q' \<and> v3_contents q' = xs"
proof -
  define p where "p = (if SpscRingBufferAtomicV3.tail q = consumer_head_cache q
    then q\<lparr>consumer_head_cache := SpscRingBufferAtomicV3.head q\<rparr> else q)"
  have p: "v3_inv Capacity p" "v3_contents p = x # xs" "SpscRingBufferAtomicV3.tail p = SpscRingBufferAtomicV3.tail q"
    using inv some v3_reload(2) [OF inv] by (auto simp: p_def v3_contents_def)
  have ii: "index_inv Capacity (SpscRingBufferAtomicV3.buffer p) (SpscRingBufferAtomicV3.head p) (SpscRingBufferAtomicV3.tail p)"
    using p(1) by (simp add: v3_inv_def Let_def)
  have ic: "index_contents (SpscRingBufferAtomicV3.buffer p) (SpscRingBufferAtomicV3.head p) (SpscRingBufferAtomicV3.tail p) = x # xs"
    using p(2) by (simp add: v3_contents_def)
  have "SpscRingBufferAtomicV3.tail p \<noteq> SpscRingBufferAtomicV3.head p" using index_empty_iff [OF ii] ic by simp
  then have nc: "SpscRingBufferAtomicV3.tail p \<noteq> consumer_head_cache p" by (auto simp: p_def split: if_splits)
  have "v3_pop Capacity q out =
      Some (True, x, p\<lparr>SpscRingBufferAtomicV3.tail := increment Capacity (SpscRingBufferAtomicV3.tail p)\<rparr>)"
    using nc index_pop(1) [OF ii ic] p(3) by (simp add: v3_pop_def Let_def flip: p_def)
  then show ?thesis
    using v3_load(2) [OF p(1) nc] index_pop(3) [OF ii ic] by (simp add: v3_contents_def)
qed

interpretation v3_fifo: bounded_fifo "v3_init Capacity" "v3_push Capacity" "v3_pop Capacity" v3_contents
    "v3_inv Capacity" "ring_static_assert Capacity" "unat Capacity - 1" for Capacity
proof (unfold_locales, goal_cases)
  case 2
  then show ?case by (simp add: v3_contents_def v3_init_def index_init)
next
  case (3 q)
  then show ?case unfolding v3_inv_def v3_contents_def Let_def using index_bounded by blast
qed (fact v3_init_inv v3_push_full v3_push_room v3_pop_empty v3_pop_some)+

section \<open>The free-running counters\<close>

text \<open>
  The counters never wrap to zero at the capacity: the number of elements is the difference
  \<^term>\<open>head - tail\<close> at 64 bits, which stays right when the counters themselves overflow.
\<close>

definition v4_inv :: "size_t \<Rightarrow> 'a SpscRingBufferAtomicV4 \<Rightarrow> bool" where
  "v4_inv Capacity q \<longleftrightarrow>
     ring_static_assert Capacity \<and> length (SpscRingBufferAtomicV4.buffer q) = unat Capacity \<and>
     producer_head q = SpscRingBufferAtomicV4.head q \<and> consumer_tail q = SpscRingBufferAtomicV4.tail q \<and>
     unat (producer_head q - consumer_tail q) \<le> unat (producer_head q - producer_tail q) \<and>
     unat (producer_head q - producer_tail q) \<le> unat Capacity \<and>
     unat (consumer_head q - consumer_tail q) \<le> unat (producer_head q - consumer_tail q)"

definition v4_contents :: "'a SpscRingBufferAtomicV4 \<Rightarrow> 'a list" where
  "v4_contents q = ring_slice (SpscRingBufferAtomicV4.buffer q) (unat (consumer_tail q))
     (unat (producer_head q - consumer_tail q))"

lemma unat_Suc_diff:
  fixes h t :: size_t
  assumes "unat (h - t) < unat (c :: size_t)"
  shows "unat (h + 1 - t) = Suc (unat (h - t))"
proof -
  have "Suc (unat (h - t)) < 2 ^ 64" using assms unsigned_less [of c, where ?'a = nat] by simp
  moreover have "unat (h - t + 1) = Suc (unat (h - t)) mod 2 ^ 64" by (simp add: unat_word_ariths)
  ultimately show ?thesis by (simp add: algebra_simps)
qed

lemma unat_diff_Suc:
  fixes h t :: size_t
  assumes "0 < unat (h - t)"
  shows "unat (h - (t + 1)) = unat (h - t) - 1"
  using assms unat_minus_one [of "h - t"] by (simp add: algebra_simps unat_gt_0)

lemma counter_position:
  fixes h t :: size_t
  assumes "ring_static_assert Capacity"
  shows "unat h mod unat Capacity = (unat t + unat (h - t)) mod unat Capacity"
proof -
  obtain k where k: "k < 64" "Capacity = 2 ^ k" using assms by (elim ring_static_assertE)
  then show ?thesis using unat_add_mod_exp [OF k(1), of t "unat (h - t)"] by simp
qed

lemma v4_init_inv:
  "ring_static_assert Capacity \<Longrightarrow> v4_inv Capacity (v4_init Capacity) \<and> v4_contents (v4_init Capacity) = []"
  by (simp add: v4_inv_def v4_init_def v4_contents_def)

lemma length_v4_contents [simp]:
  "length (v4_contents q) = unat (producer_head q - consumer_tail q)"
  by (simp add: v4_contents_def)

lemma v4_reload:
  assumes "v4_inv Capacity q"
  shows "v4_inv Capacity (q\<lparr>producer_tail := SpscRingBufferAtomicV4.tail q\<rparr>)"
    and "v4_inv Capacity (q\<lparr>consumer_head := SpscRingBufferAtomicV4.head q\<rparr>)"
  using assms by (auto simp: v4_inv_def)

lemma v4_store:
  fixes q v
  defines "q' \<equiv> q\<lparr>SpscRingBufferAtomicV4.buffer := (SpscRingBufferAtomicV4.buffer q)
      [unat (producer_head q) mod length (SpscRingBufferAtomicV4.buffer q) := v],
      producer_head := producer_head q + 1, SpscRingBufferAtomicV4.head := producer_head q + 1\<rparr>"
  assumes inv: "v4_inv Capacity q" and ne: "producer_head q - producer_tail q \<noteq> Capacity"
  shows "v4_inv Capacity q'" and "v4_contents q' = v4_contents q @ [v]"
    and "span_set (SpscRingBufferAtomicV4.buffer q) (unat (idx_of Capacity (producer_head q))) v
          = Some (SpscRingBufferAtomicV4.buffer q')"
proof -
  have sa: "ring_static_assert Capacity" and len: "length (SpscRingBufferAtomicV4.buffer q) = unat Capacity"
    and le: "unat (producer_head q - consumer_tail q) \<le> unat (producer_head q - producer_tail q)"
    and lt: "unat (producer_head q - producer_tail q) < unat Capacity"
    using inv ne by (auto simp: v4_inv_def le_less word_unat_eq_iff)
  have pos: "0 < unat Capacity" using lt by linarith
  show "v4_inv Capacity q'"
    using inv le lt unat_Suc_diff [of "producer_head q" "consumer_tail q" Capacity]
      unat_Suc_diff [OF lt] by (auto simp: v4_inv_def q'_def)
  show "v4_contents q' = v4_contents q @ [v]"
    using ring_slice_snoc [of "unat (producer_head q - consumer_tail q)" "SpscRingBufferAtomicV4.buffer q"
        "unat (consumer_tail q)" v] le lt len
      unat_Suc_diff [of "producer_head q" "consumer_tail q" Capacity]
      counter_position [OF sa, of "producer_head q" "consumer_tail q"]
    by (simp add: v4_contents_def q'_def)
  show "span_set (SpscRingBufferAtomicV4.buffer q) (unat (idx_of Capacity (producer_head q))) v
      = Some (SpscRingBufferAtomicV4.buffer q')"
    using len pos by (simp add: span_set_def unat_idx_of [OF sa] q'_def)
qed

lemma v4_load:
  fixes q
  defines "q' \<equiv> q\<lparr>consumer_tail := consumer_tail q + 1, SpscRingBufferAtomicV4.tail := consumer_tail q + 1\<rparr>"
  assumes inv: "v4_inv Capacity q" and ne: "consumer_head q \<noteq> consumer_tail q"
  shows "v4_inv Capacity q'" and "v4_contents q' = tl (v4_contents q)"
    and "v4_contents q \<noteq> []"
    and "span_get (SpscRingBufferAtomicV4.buffer q) (unat (idx_of Capacity (consumer_tail q)))
          = Some (hd (v4_contents q))"
proof -
  have sa: "ring_static_assert Capacity" and len: "length (SpscRingBufferAtomicV4.buffer q) = unat Capacity"
    and le: "unat (consumer_head q - consumer_tail q) \<le> unat (producer_head q - consumer_tail q)"
    using inv by (auto simp: v4_inv_def)
  have gc: "0 < unat (consumer_head q - consumer_tail q)" using ne by (simp add: unat_gt_0)
  then have g: "0 < unat (producer_head q - consumer_tail q)" using le by linarith
  have pos: "0 < unat Capacity" using sa by (elim ring_static_assertE) linarith
  show "v4_contents q \<noteq> []" using g by (metis length_v4_contents list.size(3) less_irrefl)
  show "v4_inv Capacity q'"
    using inv le g gc diff_le_mono [OF le, of 1] by (auto simp: v4_inv_def q'_def unat_diff_Suc)
  have "unat (consumer_tail q + 1) mod unat Capacity = Suc (unat (consumer_tail q)) mod unat Capacity"
    using counter_position [OF sa, of "consumer_tail q + 1" "consumer_tail q"] by simp
  then show "v4_contents q' = tl (v4_contents q)"
    using g len ring_slice_cong_mod [of "unat (consumer_tail q + 1)" "SpscRingBufferAtomicV4.buffer q"]
    by (simp add: v4_contents_def q'_def unat_diff_Suc tl_ring_slice)
  show "span_get (SpscRingBufferAtomicV4.buffer q) (unat (idx_of Capacity (consumer_tail q)))
      = Some (hd (v4_contents q))"
    using g len pos by (simp add: span_get_def unat_idx_of [OF sa] v4_contents_def hd_ring_slice)
qed

lemma v4_push_cases:
  assumes inv: "v4_inv Capacity q"
  defines "b \<equiv> length (v4_contents q) < unat Capacity"
  shows "\<exists>q'. v4_push Capacity q v = Some (b, q') \<and> v4_inv Capacity q' \<and>
           v4_contents q' = (if b then v4_contents q @ [v] else v4_contents q)"
proof -
  define p where "p = (if producer_head q - producer_tail q = Capacity
    then q\<lparr>producer_tail := SpscRingBufferAtomicV4.tail q\<rparr> else q)"
  have p: "v4_inv Capacity p" "v4_contents p = v4_contents q"
    using inv v4_reload(1) [OF inv] by (auto simp: p_def v4_contents_def)
  have full: "producer_head p - producer_tail p = Capacity \<longleftrightarrow> \<not> b"
  proof -
    have eq: "consumer_tail q = SpscRingBufferAtomicV4.tail q"
      and le: "unat (producer_head q - consumer_tail q) \<le> unat (producer_head q - producer_tail q)"
        "unat (producer_head q - producer_tail q) \<le> unat Capacity"
      using inv by (auto simp: v4_inv_def)
    have "producer_head q - consumer_tail q = Capacity \<longleftrightarrow> \<not> b"
      using le by (auto simp: b_def word_unat_eq_iff [of _ Capacity])
    moreover have "\<not> b" if "producer_head q - producer_tail q = Capacity"
      "producer_head q - consumer_tail q = Capacity" using that by (simp add: b_def)
    moreover have "producer_head q - producer_tail q = Capacity" if "\<not> b"
      using that le by (auto simp: b_def word_unat_eq_iff [of _ Capacity])
    ultimately show ?thesis using eq by (auto simp: p_def)
  qed
  show ?thesis
  proof (cases b)
    case True
    then have ne: "producer_head p - producer_tail p \<noteq> Capacity" using full by simp
    show ?thesis
      using True ne v4_store [OF p(1) ne, of v] p(2)
      by (simp add: v4_push_def Let_def flip: p_def)
  next
    case False
    then show ?thesis using full p by (simp add: v4_push_def Let_def flip: p_def)
  qed
qed

lemma v4_pop_cases:
  assumes inv: "v4_inv Capacity q"
  shows "\<exists>q'. v4_pop Capacity q out = Some (v4_contents q \<noteq> [], case v4_contents q of [] \<Rightarrow> out | x # _ \<Rightarrow> x, q') \<and>
           v4_inv Capacity q' \<and> v4_contents q' = tl (v4_contents q)"
proof -
  define p where "p = (if consumer_head q = consumer_tail q
    then q\<lparr>consumer_head := SpscRingBufferAtomicV4.head q\<rparr> else q)"
  have p: "v4_inv Capacity p" "v4_contents p = v4_contents q"
    using inv v4_reload(2) [OF inv] by (auto simp: p_def v4_contents_def)
  show ?thesis
  proof (cases "consumer_head p = consumer_tail p")
    case True
    then have "producer_head q = consumer_tail q" using inv by (auto simp: p_def v4_inv_def split: if_splits)
    then have "v4_contents q = []" by (simp add: v4_contents_def)
    then show ?thesis using True p by (simp add: v4_pop_def Let_def flip: p_def)
  next
    case False
    show ?thesis
      using False v4_load [OF p(1) False] p(2)
      by (cases "v4_contents q") (simp_all add: v4_pop_def Let_def flip: p_def)
  qed
qed

interpretation v4_fifo: bounded_fifo "v4_init Capacity" "v4_push Capacity" "v4_pop Capacity" v4_contents
    "v4_inv Capacity" "ring_static_assert Capacity" "unat Capacity" for Capacity
proof (unfold_locales, goal_cases)
  case (3 q)
  then show ?case by (auto simp: v4_inv_def)
next
  case (4 q v)
  then show ?case using v4_push_cases [of Capacity q v] by simp
next
  case (5 q v)
  then show ?case using v4_push_cases [of Capacity q v] by simp
next
  case (6 q out)
  then show ?case using v4_pop_cases [of Capacity q out] by simp
next
  case (7 q x xs out)
  then show ?case using v4_pop_cases [of Capacity q out] by simp
qed (use v4_init_inv in blast)+

section \<open>Properties\<close>

text \<open>
  C21. Every variant is a bounded first-in-first-out queue. For every admissible capacity and
  every sequence of calls on a freshly constructed object, no call leaves the array, and every
  return value and every popped element is that of a list bounded at \<open>Capacity - 1\<close> elements;
  the free-running counters of the last variant make all \<open>Capacity\<close> slots usable.
\<close>

theorem queues_are_fifo:
  assumes "ring_static_assert Capacity"
  shows "map_option fst (run_calls (mutex_push Capacity) (mutex_pop Capacity) (mutex_init Capacity) cs)
           = Some (fst (spec_calls (unat Capacity - 1) ([] :: 'a::default list) cs)) \<and>
         map_option fst (run_calls (v1_push Capacity) (v1_pop Capacity) (v1_init Capacity) cs)
           = Some (fst (spec_calls (unat Capacity - 1) ([] :: 'a list) cs)) \<and>
         map_option fst (run_calls (v2_push Capacity) (v2_pop Capacity) (v2_init Capacity) cs)
           = Some (fst (spec_calls (unat Capacity - 1) ([] :: 'a list) cs)) \<and>
         map_option fst (run_calls (v3_push Capacity) (v3_pop Capacity) (v3_init Capacity) cs)
           = Some (fst (spec_calls (unat Capacity - 1) ([] :: 'a list) cs)) \<and>
         map_option fst (run_calls (v4_push Capacity) (v4_pop Capacity) (v4_init Capacity) cs)
           = Some (fst (spec_calls (unat Capacity) ([] :: 'a list) cs))"
  using mutex_fifo.run_init [OF assms, of cs] v1_fifo.run_init [OF assms, of cs]
    v2_fifo.run_init [OF assms, of cs] v3_fifo.run_init [OF assms, of cs] v4_fifo.run_init [OF assms, of cs]
  by auto

theorem queues_are_fifo_witness:
  "ring_static_assert 2 \<and>
   map_option fst (run_calls (v4_push 2) (v4_pop 2) (v4_init 2)
       [Push (7 :: u32), Push 8, Push 9, Pop 0]) = Some [Pushed True, Pushed True, Pushed False, Popped True 7] \<and>
   map_option fst (run_calls (v3_push 2) (v3_pop 2) (v3_init 2)
       [Push (7 :: u32), Push 8, Push 9, Pop 0]) = Some [Pushed True, Pushed False, Pushed False, Popped True 7]"
proof -
  have a: "ring_static_assert 2" by (simp add: ring_static_assert_def is_power_of_two_def)
  show ?thesis using queues_are_fifo [OF a, of "[Push (7 :: u32), Push 8, Push 9, Pop 0]"] a by simp
qed

text \<open>
  The static assertion on the capacity does what its name says: \<^verbatim>\<open>is_power_of_two\<close> accepts
  exactly the 64 powers of two of a 64-bit \<^verbatim>\<open>size_t\<close>, and agrees with \<^verbatim>\<open>std::has_single_bit\<close>, the
  test the frame parser uses.
\<close>

theorem is_power_of_two_correct:
  "(is_power_of_two v \<longleftrightarrow> (\<exists>k<64. v = 2 ^ k)) \<and> (is_power_of_two v \<longleftrightarrow> has_single_bit v)"
  by (simp add: is_power_of_two_iff has_single_bit_iff)

text \<open>
  The counters of the last variant may overflow. On an object whose counters stand at any
  value \<open>c\<close> (also \<open>2 ^ 64 - 1\<close>, where the next increment wraps to zero) the calls return what
  they return on a list bounded at \<open>Capacity\<close> elements.
\<close>

theorem v4_counter_wraparound:
  fixes cs :: "'a::default call list" and c :: size_t
  assumes "ring_static_assert Capacity"
  shows "map_option fst (run_calls (v4_push Capacity) (v4_pop Capacity)
             ((v4_init Capacity)\<lparr>SpscRingBufferAtomicV4.head := c, SpscRingBufferAtomicV4.tail := c,
               producer_head := c, producer_tail := c, consumer_head := c, consumer_tail := c\<rparr>) cs)
           = Some (fst (spec_calls (unat Capacity) [] cs))"
proof -
  let ?q = "(v4_init Capacity :: 'a SpscRingBufferAtomicV4)\<lparr>SpscRingBufferAtomicV4.head := c, SpscRingBufferAtomicV4.tail := c,
      producer_head := c, producer_tail := c, consumer_head := c, consumer_tail := c\<rparr>"
  have "v4_inv Capacity ?q" "v4_contents ?q = []"
    using assms by (simp_all add: v4_inv_def v4_contents_def v4_init_def)
  then show ?thesis using v4_fifo.run_refines [of Capacity ?q cs] by auto
qed

theorem v4_counter_wraparound_witness:
  "ring_static_assert 2 \<and>
   map_option fst (run_calls (v4_push 2) (v4_pop 2)
       ((v4_init 2)\<lparr>SpscRingBufferAtomicV4.head := - 1, SpscRingBufferAtomicV4.tail := - 1,
          producer_head := - 1, producer_tail := - 1, consumer_head := - 1, consumer_tail := - 1\<rparr>)
       [Push (7 :: u32), Push 8, Push 9, Pop 0, Pop 0])
     = Some [Pushed True, Pushed True, Pushed False, Popped True 7, Popped True 8]"
proof -
  have a: "ring_static_assert 2" by (simp add: ring_static_assert_def is_power_of_two_def)
  show ?thesis
    using v4_counter_wraparound [OF a, of "- 1" "[Push (7 :: u32), Push 8, Push 9, Pop 0, Pop 0]"] a by simp
qed

end
