(* ===== verification/Engine_Messages.thy ===== *)
theory Engine_Messages
  imports Protocol
begin

text \<open>
  \<^verbatim>\<open>engine_messages.hpp\<close>: what the gateway thread and the matching thread exchange through the two
  queues, and the token that names a session.
\<close>

record SessionToken =
  slot :: u32
  generation :: u32

instantiation SessionToken_ext :: (default) default
begin
definition default_SessionToken_ext :: "'a SessionToken_scheme" where
  "default_SessionToken_ext = \<lparr>slot = 0, generation = 0, \<dots> = default\<rparr>"
instance ..
end

datatype EngineCommandType = NewLimit | Cancel | Modify | SessionClosed | Shutdown

record EngineCommand =
  request_sequence :: u64
  client_order_id :: u64
  price :: u64
  quantity :: u64
  side :: Side
  session :: SessionToken
  type :: EngineCommandType

instantiation EngineCommand_ext :: (default) default
begin
definition default_EngineCommand_ext :: "'a EngineCommand_scheme" where
  "default_EngineCommand_ext =
     \<lparr>request_sequence = 0, EngineCommand.client_order_id = 0, EngineCommand.price = 0,
      EngineCommand.quantity = 0, EngineCommand.side = Side.Buy, EngineCommand.session = default,
      EngineCommand.type = NewLimit, \<dots> = default\<rparr>"
instance ..
end

datatype EngineResponseType = Accepted | Rejected | Cancelled | Modified | Trade

record EngineResponse =
  client_order_id :: u64
  price :: u64
  quantity :: u64
  reject_reason :: RejectReason
  session :: SessionToken
  type :: EngineResponseType

instantiation EngineResponse_ext :: (default) default
begin
definition default_EngineResponse_ext :: "'a EngineResponse_scheme" where
  "default_EngineResponse_ext =
     \<lparr>EngineResponse.client_order_id = 0, EngineResponse.price = 0, EngineResponse.quantity = 0,
      reject_reason = NoReason, EngineResponse.session = default,
      EngineResponse.type = EngineResponseType.Rejected, \<dots> = default\<rparr>"
instance ..
end

lemmas engine_defaults [simp] =
  default_SessionToken_ext_def default_EngineCommand_ext_def default_EngineResponse_ext_def

end
