(* ===== verification/Epoll_Server.thy ===== *)
theory Epoll_Server
  imports Session Spsc Engine_Messages "HOL-Library.AList"
begin

text \<open>
  \<^verbatim>\<open>epoll_server.cpp\<close>: the gateway thread's event handlers and the matching thread. The local
  variables of \<^verbatim>\<open>main\<close> that the handlers capture are the record \<open>Server\<close>; \<^verbatim>\<open>connections\<close> is an
  association list from file descriptors to connections. System calls are the border of the model:
  their results (what \<^verbatim>\<open>accept\<close>, \<^verbatim>\<open>recv\<close> and \<^verbatim>\<open>send\<close> return) are arguments, their effects are
  appended to the trace \<open>io\<close>. \<^term>\<open>None\<close> is undefined behaviour (an access outside an array, the use of
  a reference to an erased connection) or a loop that outlives its fuel; both are proved impossible.
\<close>

section \<open>State\<close>

definition kQueueCapacity :: size_t where
  "kQueueCapacity = 4096"

definition kParserCapacity :: size_t where
  "kParserCapacity = 4096"

definition kMaxSlots :: u32 where
  "kMaxSlots = 1024"

type_synonym CommandQueue = "EngineCommand SpscRingBufferAtomicV3"
type_synonym ResponseQueue = "EngineResponse SpscRingBufferAtomicV3"

record Connection =
  parser :: FrameParser
  token :: SessionToken
  expected_sequence :: u64
  fd :: int

definition Connection_init :: "int \<Rightarrow> SessionToken \<Rightarrow> Connection" where
  "Connection_init f tok =
     \<lparr>parser = FrameParser_init kParserCapacity, token = tok, expected_sequence = 1, fd = f\<rparr>"

record SessionSlot =
  fd :: int
  generation :: u32

text \<open>The system calls on the descriptors of clients, in the order they are made.\<close>

datatype io =
    Accept int
  | Set_Nonblocking int
  | Set_Nodelay int
  | Epoll_Add int
  | Send int span
  | Epoll_Remove int
  | Close int

record Server =
  cmd_queue :: CommandQueue
  rsp_queue :: ResponseQueue
  connections :: "(int \<times> Connection) list"
  slots :: "SessionSlot list"
  next_slot :: u32
  io :: "io list"

definition Server_init :: Server where
  "Server_init =
     \<lparr>cmd_queue = v3_init kQueueCapacity, rsp_queue = v3_init kQueueCapacity, connections = [],
      slots = replicate (unat kMaxSlots) \<lparr>SessionSlot.fd = - 1, SessionSlot.generation = 0\<rparr>,
      next_slot = 0, io = []\<rparr>"

definition perform :: "io list \<Rightarrow> Server \<Rightarrow> Server" where
  "perform xs s = s\<lparr>io := io s @ xs\<rparr>"

text \<open>Assigning through the reference \<^verbatim>\<open>conn\<close>.\<close>

definition put_conn :: "int \<Rightarrow> Connection \<Rightarrow> Server \<Rightarrow> Server" where
  "put_conn f conn s = s\<lparr>connections := AList.update f conn (connections s)\<rparr>"

section \<open>Matching thread\<close>

text \<open>The \<^verbatim>\<open>switch\<close> on the command type; \<^term>\<open>None\<close> is \<^verbatim>\<open>continue\<close>.\<close>

definition matching_response :: "EngineCommand \<Rightarrow> EngineResponse option" where
  "matching_response cmd =
     (let rsp = (default :: EngineResponse)\<lparr>EngineResponse.session := EngineCommand.session cmd,
            EngineResponse.client_order_id := EngineCommand.client_order_id cmd\<rparr>
      in case EngineCommand.type cmd of
           EngineCommandType.NewLimit \<Rightarrow> Some (rsp\<lparr>EngineResponse.type := EngineResponseType.Accepted\<rparr>)
         | EngineCommandType.Cancel \<Rightarrow> Some (rsp\<lparr>EngineResponse.type := EngineResponseType.Cancelled\<rparr>)
         | EngineCommandType.Modify \<Rightarrow> Some (rsp\<lparr>EngineResponse.type := EngineResponseType.Modified\<rparr>)
         | EngineCommandType.SessionClosed \<Rightarrow> None
         | EngineCommandType.Shutdown \<Rightarrow> None)"

text \<open>
  One round of the \<^verbatim>\<open>while\<close> loop: whether the loop goes on, how often \<^verbatim>\<open>notify_fd\<close> was
  written, and the two queues. The result of the push is not looked at.
\<close>

definition matching_iteration ::
  "CommandQueue \<Rightarrow> ResponseQueue \<Rightarrow> (bool \<times> nat \<times> CommandQueue \<times> ResponseQueue) option" where
  "matching_iteration cmd_q rsp_q = do {
     (ok, cmd, cmd_q) \<leftarrow> v3_pop kQueueCapacity cmd_q default;
     if \<not> ok then Some (True, 0, cmd_q, rsp_q)
     else if EngineCommand.type cmd = EngineCommandType.Shutdown then Some (False, 0, cmd_q, rsp_q)
     else case matching_response cmd of
       None \<Rightarrow> Some (True, 0, cmd_q, rsp_q)
     | Some rsp \<Rightarrow> do {
         (_, rsp_q) \<leftarrow> v3_push kQueueCapacity rsp_q rsp;
         Some (True, 1, cmd_q, rsp_q)
       }
   }"

text \<open>The first \<open>n\<close> rounds of the thread, which spins until it finds a \<^verbatim>\<open>Shutdown\<close> command.\<close>

fun matching_thread ::
  "nat \<Rightarrow> CommandQueue \<Rightarrow> ResponseQueue \<Rightarrow> (bool \<times> nat \<times> CommandQueue \<times> ResponseQueue) option" where
  "matching_thread 0 cmd_q rsp_q = Some (True, 0, cmd_q, rsp_q)"
| "matching_thread (Suc n) cmd_q rsp_q = do {
     (running, k, cmd_q, rsp_q) \<leftarrow> matching_iteration cmd_q rsp_q;
     if \<not> running then Some (False, k, cmd_q, rsp_q)
     else do {
       (running, k', cmd_q, rsp_q) \<leftarrow> matching_thread n cmd_q rsp_q;
       Some (running, k + k', cmd_q, rsp_q)
     }
   }"

section \<open>Gateway thread\<close>

definition encode_response :: "EngineResponse \<Rightarrow> span \<Rightarrow> span option" where
  "encode_response rsp out =
     (let h = (default :: MessageHeader)\<lparr>payload_length := of_nat kPayloadSize\<rparr>;
          cid = EngineResponse.client_order_id rsp
      in map_option snd (case EngineResponse.type rsp of
           EngineResponseType.Accepted \<Rightarrow> encode_accepted h (default\<lparr>Accepted.client_order_id := cid\<rparr>) out
         | EngineResponseType.Rejected \<Rightarrow>
             encode_rejected h (default\<lparr>Rejected.client_order_id := cid, reason := reject_reason rsp\<rparr>) out
         | EngineResponseType.Cancelled \<Rightarrow> encode_cancelled h (default\<lparr>Cancelled.client_order_id := cid\<rparr>) out
         | EngineResponseType.Modified \<Rightarrow> encode_modified h (default\<lparr>Modified.client_order_id := cid\<rparr>) out
         | EngineResponseType.Trade \<Rightarrow>
             encode_trade h (default\<lparr>Trade.client_order_id := cid, Trade.price := EngineResponse.price rsp,
               Trade.quantity := EngineResponse.quantity rsp\<rparr>) out))"

definition close_conn :: "int \<Rightarrow> Server \<Rightarrow> Server option" where
  "close_conn f s = do {
     s \<leftarrow> (case map_of (connections s) f of
             None \<Rightarrow> Some s
           | Some conn \<Rightarrow> do {
               let tok = token conn;
               sl \<leftarrow> span_get (slots s) (unat (slot tok));
               sls \<leftarrow> span_set (slots s) (unat (slot tok)) (sl\<lparr>SessionSlot.fd := - 1\<rparr>);
               let cmd = (default :: EngineCommand)\<lparr>EngineCommand.type := EngineCommandType.SessionClosed,
                 EngineCommand.session := tok\<rparr>;
               (_, q) \<leftarrow> v3_push kQueueCapacity (cmd_queue s) cmd;
               Some (s\<lparr>slots := sls, cmd_queue := q, connections := AList.delete f (connections s)\<rparr>)
             });
     Some (perform [Epoll_Remove f, Close f] s)
   }"

text \<open>5a. The body of the loop that drains the response queue; \<open>sent\<close> is what \<^verbatim>\<open>send\<close> returns.\<close>

definition on_response :: "int \<Rightarrow> EngineResponse \<Rightarrow> Server \<Rightarrow> Server option" where
  "on_response sent rsp s = do {
     sl \<leftarrow> span_get (slots s) (unat (slot (EngineResponse.session rsp)));
     if SessionSlot.generation sl \<noteq> SessionToken.generation (EngineResponse.session rsp) \<or> SessionSlot.fd sl < 0
     then Some s
     else do {
       frame \<leftarrow> encode_response rsp (replicate kFrameSize 0);
       let s = perform [Send (SessionSlot.fd sl) frame] s;
       if sent \<noteq> int (length frame) then close_conn (SessionSlot.fd sl) s else Some s
     }
   }"

fun drain_responses :: "nat \<Rightarrow> (nat \<Rightarrow> int) \<Rightarrow> nat \<Rightarrow> EngineResponse \<Rightarrow> Server \<Rightarrow> Server option" where
  "drain_responses 0 sends k rsp s = None"
| "drain_responses (Suc n) sends k rsp s = do {
     (ok, rsp, q) \<leftarrow> v3_pop kQueueCapacity (rsp_queue s) rsp;
     let s = s\<lparr>rsp_queue := q\<rparr>;
     if \<not> ok then Some s
     else do {
       s \<leftarrow> on_response (sends k) rsp s;
       drain_responses n sends (Suc k) rsp s
     }
   }"

text \<open>5b. One accepted connection, and all the connections \<^verbatim>\<open>accept\<close> returns before it fails.\<close>

definition accept_calls :: "int \<Rightarrow> io list" where
  [simp]: "accept_calls client_fd = [Accept client_fd, Set_Nonblocking client_fd, Set_Nodelay client_fd, Epoll_Add client_fd]"

definition accept_one :: "int \<Rightarrow> Server \<Rightarrow> Server option" where
  "accept_one client_fd s = do {
     let s = perform (accept_calls client_fd) s;
     let i = next_slot s mod kMaxSlots;
     let s = s\<lparr>next_slot := next_slot s + 1\<rparr>;
     sl \<leftarrow> span_get (slots s) (unat i);
     let sl = sl\<lparr>SessionSlot.generation := SessionSlot.generation sl + 1, SessionSlot.fd := client_fd\<rparr>;
     sls \<leftarrow> span_set (slots s) (unat i) sl;
     let tok = \<lparr>slot = i, SessionToken.generation = SessionSlot.generation sl\<rparr>;
     Some (s\<lparr>slots := sls, connections :=
       (if map_of (connections s) client_fd = None
        then (client_fd, Connection_init client_fd tok) # connections s else connections s)\<rparr>)
   }"

fun accept_clients :: "int list \<Rightarrow> Server \<Rightarrow> Server option" where
  "accept_clients [] s = Some s"
| "accept_clients (f # fs) s = do { s \<leftarrow> accept_one f s; accept_clients fs s }"

text \<open>5c. One parsed message; the result tells whether the loop goes on, and \<^verbatim>\<open>should_close\<close>.\<close>

definition command_of :: "SessionToken \<Rightarrow> DecodedMessage \<Rightarrow> EngineCommand" where
  "command_of tok msg =
     (let cmd = (default :: EngineCommand)\<lparr>EngineCommand.session := tok,
            request_sequence := sequence_number (header msg)\<rparr>
      in case DecodedMessage.type msg of
           MessageType.NewOrder \<Rightarrow> cmd\<lparr>EngineCommand.type := EngineCommandType.NewLimit,
             EngineCommand.client_order_id := NewOrder.client_order_id (new_order msg),
             EngineCommand.side := NewOrder.side (new_order msg),
             EngineCommand.price := NewOrder.price (new_order msg),
             EngineCommand.quantity := NewOrder.quantity (new_order msg)\<rparr>
         | MessageType.CancelOrder \<Rightarrow> cmd\<lparr>EngineCommand.type := EngineCommandType.Cancel,
             EngineCommand.client_order_id := CancelOrder.client_order_id (cancel_order msg)\<rparr>
         | MessageType.ModifyOrder \<Rightarrow> cmd\<lparr>EngineCommand.type := EngineCommandType.Modify,
             EngineCommand.client_order_id := ModifyOrder.client_order_id (modify_order msg),
             EngineCommand.price := new_price (modify_order msg),
             EngineCommand.quantity := new_quantity (modify_order msg)\<rparr>
         | _ \<Rightarrow> cmd)"

definition on_message :: "int \<Rightarrow> bool \<Rightarrow> DecodedMessage \<Rightarrow> Server \<Rightarrow> (bool \<times> bool \<times> Server) option" where
  "on_message f should_close msg s = do {
     conn \<leftarrow> map_of (connections s) f;
     if sequence_number (header msg) \<noteq> expected_sequence conn
     then do {
       let rh = (header msg)\<lparr>MessageHeader.session_id := ucast (slot (token conn))\<rparr>;
       (_, frame) \<leftarrow> encode_rejected rh (default\<lparr>reason := RejectReason.BadSequence\<rparr>) (replicate kFrameSize 0);
       Some (True, should_close, perform [Send f frame] s)
     }
     else do {
       let conn = conn\<lparr>expected_sequence := expected_sequence conn + 1\<rparr>;
       let s = put_conn f conn s;
       if DecodedMessage.type msg = MessageType.Logout
       then do {
         (_, frame) \<leftarrow> encode_accepted (header msg) default (replicate kFrameSize 0);
         Some (False, True, perform [Send f frame] s)
       }
       else if DecodedMessage.type msg = MessageType.Heartbeat
       then do {
         (_, frame) \<leftarrow> encode_accepted (header msg) default (replicate kFrameSize 0);
         Some (True, should_close, perform [Send f frame] s)
       }
       else do {
         (_, q) \<leftarrow> v3_push kQueueCapacity (cmd_queue s) (command_of (token conn) msg);
         let s = s\<lparr>cmd_queue := q\<rparr>;
         s \<leftarrow> (if should_close then close_conn f s else Some s);
         Some (True, should_close, s)
       }
     }
   }"

text \<open>
  The loop over the parsed messages. The parser holds at most 64 frames, so 65 rounds are
  enough. Leaving the loop leaves the handler: \<^verbatim>\<open>should_close\<close> is not looked at again.
\<close>

fun client_loop :: "nat \<Rightarrow> int \<Rightarrow> bool \<Rightarrow> Server \<Rightarrow> Server option" where
  "client_loop 0 f should_close s = None"
| "client_loop (Suc n) f should_close s = do {
     conn \<leftarrow> map_of (connections s) f;
     (status, msg, p) \<leftarrow> try_parse kParserCapacity (parser conn) default;
     let s = put_conn f (conn\<lparr>parser := p\<rparr>) s;
     if status = Status.NeedMoreData then Some s
     else if status = Status.ProtocolError then Some s
     else do {
       (continue, should_close, s) \<leftarrow> on_message f should_close msg s;
       if continue then client_loop n f should_close s else Some s
     }
   }"

datatype recv_result = Received span | Would_Block | Recv_Error

definition on_client :: "int \<Rightarrow> bool \<Rightarrow> recv_result \<Rightarrow> Server \<Rightarrow> Server option" where
  "on_client f epollin result s =
     (if \<not> epollin then Some s
      else case map_of (connections s) f of
        None \<Rightarrow> Some s
      | Some conn \<Rightarrow> (case result of
          Would_Block \<Rightarrow> Some s
        | Recv_Error \<Rightarrow> close_conn f s
        | Received bytes \<Rightarrow>
            if bytes = [] then close_conn f s
            else do {
              (ok, p) \<leftarrow> append_bytes kParserCapacity (parser conn) bytes;
              let s = put_conn f (conn\<lparr>parser := p\<rparr>) s;
              if \<not> ok then close_conn f s else client_loop 65 f False s
            }))"

text \<open>
  One entry of the event array with the results of the system calls its handler makes, and the
  dispatch of \<^verbatim>\<open>main\<close>. The branch of the listening socket falls through to the client branch.
\<close>

record event =
  ev_fd :: int
  ev_in :: bool
  ev_sends :: "nat \<Rightarrow> int"
  ev_accepts :: "int list"
  ev_recv :: recv_result

definition handle_event :: "int \<Rightarrow> int \<Rightarrow> event \<Rightarrow> Server \<Rightarrow> Server option" where
  "handle_event event_fd listen_fd ev s =
     (if ev_fd ev = event_fd then drain_responses 4096 (ev_sends ev) 0 default s
      else do {
        s \<leftarrow> (if ev_fd ev = listen_fd then accept_clients (ev_accepts ev) s else Some s);
        on_client (ev_fd ev) (ev_in ev) (ev_recv ev) s
      })"

fun handle_events :: "int \<Rightarrow> int \<Rightarrow> event list \<Rightarrow> Server \<Rightarrow> Server option" where
  "handle_events event_fd listen_fd [] s = Some s"
| "handle_events event_fd listen_fd (ev # evs) s = do {
     s \<leftarrow> handle_event event_fd listen_fd ev s;
     handle_events event_fd listen_fd evs s
   }"

text \<open>What follows the event loop.\<close>

definition shutdown_server :: "int \<Rightarrow> int \<Rightarrow> int \<Rightarrow> Server \<Rightarrow> Server option" where
  "shutdown_server epoll_fd event_fd listen_fd s = do {
     (_, q) \<leftarrow> v3_push kQueueCapacity (cmd_queue s)
       ((default :: EngineCommand)\<lparr>EngineCommand.type := EngineCommandType.Shutdown\<rparr>);
     Some (perform (map Close (map fst (connections s)) @ [Close epoll_fd, Close event_fd, Close listen_fd])
       (s\<lparr>cmd_queue := q\<rparr>))
   }"

section \<open>Invariant\<close>

definition token_ok :: "SessionToken \<Rightarrow> bool" where
  "token_ok tok \<longleftrightarrow> unat (slot tok) < 1024"

definition conn_ok :: "int \<Rightarrow> Connection \<Rightarrow> bool" where
  "conn_ok f c \<longleftrightarrow> parser_inv kParserCapacity (parser c) \<and> token_ok (token c) \<and> Connection.fd c = f"

text \<open>An occupied slot names an open connection, and that connection holds the slot's current token.\<close>

definition routed :: "Server \<Rightarrow> bool" where
  "routed s \<longleftrightarrow> (\<forall>i < length (slots s). 0 \<le> SessionSlot.fd (slots s ! i) \<longrightarrow>
     (\<exists>c. map_of (connections s) (SessionSlot.fd (slots s ! i)) = Some c \<and>
        token c = \<lparr>slot = of_nat i, SessionToken.generation = SessionSlot.generation (slots s ! i)\<rparr>))"

definition server_inv :: "Server \<Rightarrow> bool" where
  "server_inv s \<longleftrightarrow>
     v3_inv kQueueCapacity (cmd_queue s) \<and> v3_inv kQueueCapacity (rsp_queue s) \<and>
     (\<forall>c \<in> set (v3_contents (cmd_queue s)). token_ok (EngineCommand.session c)) \<and>
     (\<forall>r \<in> set (v3_contents (rsp_queue s)). token_ok (EngineResponse.session r)) \<and>
     length (slots s) = 1024 \<and> (\<forall>f c. map_of (connections s) f = Some c \<longrightarrow> conn_ok f c) \<and> routed s"

lemma capacities:
  "ring_static_assert kQueueCapacity" "FrameParser_static_assert kParserCapacity"
  "unat kQueueCapacity = 4096" "unat kParserCapacity = 4096" "unat kMaxSlots = 1024"
  by code_simp+

lemma server_inv_init: "server_inv Server_init"
  by (simp add: server_inv_def Server_init_def routed_def capacities
      v3_fifo.init_inv [OF capacities(1)] v3_fifo.init_contents [OF capacities(1)])

lemma server_inv_perform [simp]: "server_inv (perform xs s) \<longleftrightarrow> server_inv s"
  by (simp add: server_inv_def perform_def routed_def)

lemma perform_sel [simp]:
  "connections (perform xs s) = connections s" "slots (perform xs s) = slots s"
  "cmd_queue (perform xs s) = cmd_queue s" "rsp_queue (perform xs s) = rsp_queue s"
  "next_slot (perform xs s) = next_slot s" "io (perform xs s) = io s @ xs"
  by (simp_all add: perform_def)

lemma put_conn_sel [simp]:
  "map_of (connections (put_conn f c s)) = (map_of (connections s))(f \<mapsto> c)" "slots (put_conn f c s) = slots s"
  "cmd_queue (put_conn f c s) = cmd_queue s" "rsp_queue (put_conn f c s) = rsp_queue s"
  "next_slot (put_conn f c s) = next_slot s" "io (put_conn f c s) = io s"
  by (simp_all add: put_conn_def AList.update_conv')

lemma server_inv_conn: "server_inv s \<Longrightarrow> map_of (connections s) f = Some c \<Longrightarrow> conn_ok f c"
  by (simp add: server_inv_def)

lemma server_inv_put:
  assumes inv: "server_inv s" and old: "map_of (connections s) f = Some c0"
    and c: "conn_ok f c" "token c = token c0"
  shows "server_inv (put_conn f c s)"
proof -
  have "routed (put_conn f c s)" unfolding routed_def
  proof (intro allI impI)
    fix i assume "i < length (slots (put_conn f c s))" "0 \<le> SessionSlot.fd (slots (put_conn f c s) ! i)"
    then obtain c' where "map_of (connections s) (SessionSlot.fd (slots s ! i)) = Some c'"
      "token c' = \<lparr>slot = of_nat i, SessionToken.generation = SessionSlot.generation (slots s ! i)\<rparr>"
      using inv by (auto simp: server_inv_def routed_def)
    then show "\<exists>c'. map_of (connections (put_conn f c s)) (SessionSlot.fd (slots (put_conn f c s) ! i)) = Some c' \<and>
        token c' = \<lparr>slot = of_nat i, SessionToken.generation = SessionSlot.generation (slots (put_conn f c s) ! i)\<rparr>"
      using old c(2) by (cases "SessionSlot.fd (slots s ! i) = f") auto
  qed
  then show ?thesis using inv c by (auto simp: server_inv_def split: if_splits)
qed

lemma server_inv_cmd_queue:
  assumes inv: "server_inv s" and tok: "token_ok (EngineCommand.session cmd)"
  obtains q where "v3_push kQueueCapacity (cmd_queue s) cmd = Some (length (v3_contents (cmd_queue s)) < 4095, q)"
    and "server_inv (s\<lparr>cmd_queue := q\<rparr>)"
    and "v3_contents q = v3_contents (cmd_queue s) @ (if length (v3_contents (cmd_queue s)) < 4095 then [cmd] else [])"
proof -
  have q: "v3_inv kQueueCapacity (cmd_queue s)" using inv by (simp add: server_inv_def)
  obtain q' where q': "v3_push kQueueCapacity (cmd_queue s) cmd
        = Some (length (v3_contents (cmd_queue s)) < unat kQueueCapacity - 1, q')" "v3_inv kQueueCapacity q'"
      "v3_contents q' = (if length (v3_contents (cmd_queue s)) < unat kQueueCapacity - 1
        then v3_contents (cmd_queue s) @ [cmd] else v3_contents (cmd_queue s))"
    using v3_fifo.push_any [OF q] by blast
  have "routed (s\<lparr>cmd_queue := q'\<rparr>)" using inv by (simp add: server_inv_def routed_def)
  then have "server_inv (s\<lparr>cmd_queue := q'\<rparr>)" using inv q' tok by (auto simp: server_inv_def split: if_splits)
  then show thesis using that q' by (simp add: capacities)
qed

lemma unat_word_eq_of_nat: "unat (w :: u32) = i \<Longrightarrow> w = of_nat i"
  by auto

text \<open>Closing a connection frees its slot; no other slot refers to its descriptor.\<close>

lemma close_conn_inv:
  assumes inv: "server_inv s"
  obtains s' where "close_conn f s = Some s'" and "server_inv s'"
    and "map_of (connections s') = (map_of (connections s))(f := None)"
    and "rsp_queue s' = rsp_queue s" and "io s' = io s @ [Epoll_Remove f, Close f]"
proof (cases "map_of (connections s) f")
  case None
  then have "map_of (connections s) = (map_of (connections s))(f := None)" by (simp add: fun_upd_idem)
  then show thesis using that [of "perform [Epoll_Remove f, Close f] s"] inv None by (simp add: close_conn_def)
next
  case (Some conn)
  let ?i = "unat (slot (token conn))"
  have tok: "token_ok (token conn)" using server_inv_conn [OF inv Some] by (simp add: conn_ok_def)
  have i: "?i < length (slots s)" using inv tok by (simp add: server_inv_def token_ok_def)
  define cmd where "cmd = (default :: EngineCommand)\<lparr>EngineCommand.type := EngineCommandType.SessionClosed,
    EngineCommand.session := token conn\<rparr>"
  obtain q where q: "v3_push kQueueCapacity (cmd_queue s) cmd = Some (length (v3_contents (cmd_queue s)) < 4095, q)"
    and inv': "server_inv (s\<lparr>cmd_queue := q\<rparr>)"
    using server_inv_cmd_queue [OF inv, of cmd] tok by (auto simp: cmd_def)
  define s' where "s' = s\<lparr>slots := (slots s)[?i := (slots s ! ?i)\<lparr>SessionSlot.fd := - 1\<rparr>], cmd_queue := q,
    connections := AList.delete f (connections s)\<rparr>"
  have "close_conn f s = Some (perform [Epoll_Remove f, Close f] s')"
    using Some i q by (simp add: close_conn_def span_get_def span_set_def s'_def cmd_def Let_def)
  moreover have mo: "map_of (connections s') = (map_of (connections s))(f := None)"
    by (simp add: s'_def AList.delete_conv')
  moreover have "routed s'" unfolding routed_def
  proof (intro allI impI)
    fix j assume j: "j < length (slots s')" "0 \<le> SessionSlot.fd (slots s' ! j)"
    then have ne: "j \<noteq> ?i" by (auto simp: s'_def nth_list_update)
    then have same: "slots s' ! j = slots s ! j" by (simp add: s'_def)
    obtain c where c: "map_of (connections s) (SessionSlot.fd (slots s ! j)) = Some c"
      "token c = \<lparr>slot = of_nat j, SessionToken.generation = SessionSlot.generation (slots s ! j)\<rparr>"
      using inv j same by (auto simp: server_inv_def routed_def s'_def)
    have "SessionSlot.fd (slots s ! j) \<noteq> f"
    proof
      assume "SessionSlot.fd (slots s ! j) = f"
      then have "slot (token conn) = of_nat j" using c Some by simp
      then have "?i = j" using j(1) inv by (simp add: s'_def server_inv_def unat_of_nat)
      then show False using ne by simp
    qed
    then show "\<exists>c. map_of (connections s') (SessionSlot.fd (slots s' ! j)) = Some c \<and>
        token c = \<lparr>slot = of_nat j, SessionToken.generation = SessionSlot.generation (slots s' ! j)\<rparr>"
      using c same mo by auto
  qed
  then have "server_inv s'"
    using inv' mo by (auto simp: server_inv_def s'_def split: if_splits)
  ultimately show thesis using that [of "perform [Epoll_Remove f, Close f] s'"] by (simp add: s'_def)
qed

lemma session_slot_upd [simp]:
  "(sl :: SessionSlot)\<lparr>SessionSlot.generation := g, SessionSlot.fd := f\<rparr> = \<lparr>SessionSlot.fd = f, SessionSlot.generation = g\<rparr>"
  by (cases sl) simp

lemma accept_one_eq:
  fixes s f
  defines "i \<equiv> next_slot s mod kMaxSlots"
  defines "g \<equiv> SessionSlot.generation (slots s ! unat i) + 1"
  assumes "length (slots s) = 1024"
  shows "accept_one f s = Some ((perform (accept_calls f) s)\<lparr>next_slot := next_slot s + 1,
    slots := (slots s)[unat i := \<lparr>SessionSlot.fd = f, SessionSlot.generation = g\<rparr>],
    connections := (if map_of (connections s) f = None
        then (f, Connection_init f \<lparr>slot = i, SessionToken.generation = g\<rparr>) # connections s else connections s)\<rparr>)"
proof -
  have "unat i < 1024" by (simp add: i_def unat_mod capacities)
  then show ?thesis using assms(3)
    by (simp add: accept_one_def span_get_def span_set_def Let_def g_def flip: i_def)
qed

lemma accept_one_inv:
  assumes inv: "server_inv s" and fresh: "map_of (connections s) f = None"
  obtains s' where "accept_one f s = Some s'" and "server_inv s'"
    and "map_of (connections s') = (map_of (connections s))(f \<mapsto> Connection_init f
          \<lparr>slot = next_slot s mod kMaxSlots, SessionToken.generation =
             SessionSlot.generation (slots s ! unat (next_slot s mod kMaxSlots)) + 1\<rparr>)"
    and "next_slot s' = next_slot s + 1"
    and "slots s' = (slots s)[unat (next_slot s mod kMaxSlots) :=
          \<lparr>SessionSlot.fd = f, SessionSlot.generation =
             SessionSlot.generation (slots s ! unat (next_slot s mod kMaxSlots)) + 1\<rparr>]"
proof -
  let ?i = "next_slot s mod kMaxSlots"
  let ?g = "SessionSlot.generation (slots s ! unat ?i) + 1"
  let ?tok = "\<lparr>slot = ?i, SessionToken.generation = ?g\<rparr>"
  have len: "length (slots s) = 1024" using inv by (simp add: server_inv_def)
  have i: "unat ?i < 1024" by (simp add: unat_mod capacities)
  define s' where "s' = (perform (accept_calls f) s)\<lparr>next_slot := next_slot s + 1,
    slots := (slots s)[unat ?i := \<lparr>SessionSlot.fd = f, SessionSlot.generation = ?g\<rparr>],
    connections := (f, Connection_init f ?tok) # connections s\<rparr>"
  have "accept_one f s = Some s'" using fresh accept_one_eq [OF len, of f] by (simp add: s'_def)
  moreover have "routed s'" unfolding routed_def
  proof (intro allI impI)
    fix j assume j: "j < length (slots s')" "0 \<le> SessionSlot.fd (slots s' ! j)"
    show "\<exists>c. map_of (connections s') (SessionSlot.fd (slots s' ! j)) = Some c \<and>
        token c = \<lparr>slot = of_nat j, SessionToken.generation = SessionSlot.generation (slots s' ! j)\<rparr>"
    proof (cases "j = unat ?i")
      case True
      then show ?thesis using i len by (simp add: s'_def Connection_init_def)
    next
      case False
      then have same: "slots s' ! j = slots s ! j" by (simp add: s'_def)
      obtain c where "map_of (connections s) (SessionSlot.fd (slots s ! j)) = Some c"
        "token c = \<lparr>slot = of_nat j, SessionToken.generation = SessionSlot.generation (slots s ! j)\<rparr>"
        using inv j same by (auto simp: server_inv_def routed_def s'_def)
      then show ?thesis using same fresh by (auto simp: s'_def)
    qed
  qed
  moreover have "conn_ok f (Connection_init f ?tok)"
    using i parser_inv_init [OF capacities(2)] by (simp add: conn_ok_def Connection_init_def token_ok_def)
  ultimately have "server_inv s'" using inv len by (auto simp: server_inv_def s'_def split: if_splits)
  then show thesis using that [of s'] \<open>accept_one f s = Some s'\<close> by (simp add: s'_def)
qed

text \<open>The frame of a response, as the client reads it.\<close>

lemma encode_response_defined:
  assumes "64 \<le> length out"
  shows "\<exists>frame. encode_response rsp out = Some frame \<and> length frame = length out"
proof -
  have "\<exists>o'. encode_accepted h a out = Some (64, o') \<and> length o' = length out"
    "\<exists>o'. encode_rejected h r out = Some (64, o') \<and> length o' = length out"
    "\<exists>o'. encode_cancelled h c out = Some (64, o') \<and> length o' = length out"
    "\<exists>o'. encode_modified h m out = Some (64, o') \<and> length o' = length out"
    "\<exists>o'. encode_trade h t out = Some (64, o') \<and> length o' = length out" for h a r c m t
    using accepted_codec.encode_defined [OF assms] accepted_codec.encode_frame(2)
      rejected_codec.encode_defined [OF assms] rejected_codec.encode_frame(2)
      cancelled_codec.encode_defined [OF assms] cancelled_codec.encode_frame(2)
      modified_codec.encode_defined [OF assms] modified_codec.encode_frame(2)
      trade_codec.encode_defined [OF assms] trade_codec.encode_frame(2) by metis+
  note frame = this
  let ?h = "(default :: MessageHeader)\<lparr>payload_length := of_nat kPayloadSize\<rparr>"
  show ?thesis
  proof (cases "EngineResponse.type rsp")
    case Accepted
    then show ?thesis using frame(1) [of ?h] by (simp add: encode_response_def Let_def) force
  next
    case Rejected
    then show ?thesis using frame(2) [of ?h] by (simp add: encode_response_def Let_def) force
  next
    case Cancelled
    then show ?thesis using frame(3) [of ?h] by (simp add: encode_response_def Let_def) force
  next
    case Modified
    then show ?thesis using frame(4) [of ?h] by (simp add: encode_response_def Let_def) force
  next
    case Trade
    then show ?thesis using frame(5) [of ?h] by (simp add: encode_response_def Let_def) force
  qed
qed

lemma on_response_inv:
  assumes inv: "server_inv s" and tok: "token_ok (EngineResponse.session rsp)"
  obtains s' where "on_response sent rsp s = Some s'" and "server_inv s'" and "rsp_queue s' = rsp_queue s"
proof -
  let ?i = "unat (slot (EngineResponse.session rsp))"
  have i: "?i < length (slots s)" using inv tok by (simp add: server_inv_def token_ok_def)
  obtain frame where frame: "encode_response rsp (replicate 64 0) = Some frame" "length frame = 64"
    using encode_response_defined [of "replicate 64 0" rsp] by auto
  show thesis
  proof (cases "SessionSlot.generation (slots s ! ?i) \<noteq> SessionToken.generation (EngineResponse.session rsp)
      \<or> SessionSlot.fd (slots s ! ?i) < 0")
    case True
    then have "on_response sent rsp s = Some s" using i by (auto simp: on_response_def span_get_def)
    then show thesis using that inv by blast
  next
    case False
    let ?f = "SessionSlot.fd (slots s ! ?i)" and ?s = "perform [Send (SessionSlot.fd (slots s ! ?i)) frame] s"
    have step: "on_response sent rsp s = (if sent \<noteq> 64 then close_conn ?f ?s else Some ?s)"
      using False i frame by (simp add: on_response_def span_get_def Let_def)
    have inv': "server_inv ?s" using inv by simp
    obtain s' where "close_conn ?f ?s = Some s'" "server_inv s'" "rsp_queue s' = rsp_queue ?s"
      using close_conn_inv [OF inv'] by blast
    then show thesis using that step inv' by (cases "sent = 64") auto
  qed
qed

section \<open>The rules of the gateway\<close>

text \<open>
  What one parsed message does to a connection: the gateway answers it itself, or forwards
  a command to the matching engine. The result also has the next expected sequence number and
  whether the loop over the received messages goes on.
\<close>

datatype outcome = Reply MessageHeader response | Forward EngineCommand

definition gateway_rule :: "SessionToken \<Rightarrow> u64 \<Rightarrow> DecodedMessage \<Rightarrow> outcome \<times> u64 \<times> bool" where
  "gateway_rule tok n msg =
     (let h = header msg in
      if sequence_number h \<noteq> n
      then (Reply (stamp MessageType.Rejected (h\<lparr>MessageHeader.session_id := ucast (slot tok)\<rparr>))
              (RRejected 0 BadSequence), n, True)
      else if DecodedMessage.type msg = MessageType.Logout
      then (Reply (stamp MessageType.Accepted h) (RAccepted 0 0), n + 1, False)
      else if DecodedMessage.type msg = MessageType.Heartbeat
      then (Reply (stamp MessageType.Accepted h) (RAccepted 0 0), n + 1, True)
      else (Forward (command_of tok msg), n + 1, True))"

text \<open>The server \<open>s'\<close> after an outcome: a frame for the client, or a command if there is room.\<close>

fun realises :: "int \<Rightarrow> outcome \<Rightarrow> Server \<Rightarrow> Server \<Rightarrow> bool" where
  "realises f (Reply h r) s s' \<longleftrightarrow>
     (\<exists>frame. io s' = io s @ [Send f frame] \<and> length frame = 64 \<and>
        (header_status h = DecodeStatus.Ok \<longrightarrow> read_response frame = Some (h, r))) \<and> cmd_queue s' = cmd_queue s"
| "realises f (Forward cmd) s s' \<longleftrightarrow>
     io s' = io s \<and> v3_contents (cmd_queue s') =
       v3_contents (cmd_queue s) @ (if length (v3_contents (cmd_queue s)) < 4095 then [cmd] else [])"

lemma command_of_session [simp]: "EngineCommand.session (command_of tok msg) = tok"
  by (simp add: command_of_def Let_def split: MessageType.split)

lemma reject_frame:
  "\<exists>frame. encode_rejected h (default\<lparr>reason := BadSequence\<rparr>) (replicate 64 0) = Some (64, frame) \<and>
     length frame = 64 \<and> (header_status h = DecodeStatus.Ok \<longrightarrow>
       read_response frame = Some (stamp MessageType.Rejected h, RRejected 0 BadSequence))"
  using rejected_codec.roundtrip [where out = "replicate 64 0" and hdr = default and old = default
      and h = h and m = "default\<lparr>reason := BadSequence\<rparr>"]
  by (auto simp: read_response_def)

lemma accept_frame:
  "\<exists>frame. encode_accepted h default (replicate 64 0) = Some (64, frame) \<and>
     length frame = 64 \<and> (header_status h = DecodeStatus.Ok \<longrightarrow>
       read_response frame = Some (stamp MessageType.Accepted h, RAccepted 0 0))"
  using accepted_codec.roundtrip [where out = "replicate 64 0" and hdr = default and old = default
      and h = h and m = default]
  by (auto simp: read_response_def)

lemma header_status_stamp [simp]: "header_status (stamp t h) = header_status h"
  by (simp add: header_status_def stamp_def)

lemma on_message_rule:
  fixes msg :: DecodedMessage
  assumes inv: "server_inv s" and conn: "map_of (connections s) f = Some c"
  defines "r \<equiv> gateway_rule (token c) (expected_sequence c) msg"
  obtains s' c' where "on_message f False msg s = Some (snd (snd r), \<not> snd (snd r), s')" and "server_inv s'"
    and "map_of (connections s') = (map_of (connections s))(f \<mapsto> c\<lparr>expected_sequence := fst (snd r)\<rparr>)"
    and "realises f (fst r) s s'" and "slots s' = slots s" and "rsp_queue s' = rsp_queue s"
proof -
  let ?c = "c\<lparr>expected_sequence := expected_sequence c + 1\<rparr>"
  let ?s = "put_conn f ?c s"
  have ok: "conn_ok f c" "conn_ok f ?c" using server_inv_conn [OF inv conn] by (auto simp: conn_ok_def)
  have inv': "server_inv ?s" using server_inv_put [OF inv conn ok(2)] by simp
  have noop: "(map_of (connections s))(f \<mapsto> c\<lparr>expected_sequence := expected_sequence c\<rparr>) = map_of (connections s)"
    using conn by (simp add: fun_upd_idem)
  consider (seq) "sequence_number (header msg) \<noteq> expected_sequence c"
    | (logout) "sequence_number (header msg) = expected_sequence c" "DecodedMessage.type msg = MessageType.Logout"
    | (heartbeat) "sequence_number (header msg) = expected_sequence c" "DecodedMessage.type msg = MessageType.Heartbeat"
    | (order) "sequence_number (header msg) = expected_sequence c" "DecodedMessage.type msg \<noteq> MessageType.Logout"
        "DecodedMessage.type msg \<noteq> MessageType.Heartbeat" by blast
  then show thesis
  proof cases
    case seq
    let ?h = "(header msg)\<lparr>MessageHeader.session_id := ucast (slot (token c))\<rparr>"
    obtain frame where frame: "encode_rejected ?h (default\<lparr>reason := BadSequence\<rparr>) (replicate 64 0) = Some (64, frame)"
      "length frame = 64" "header_status ?h = DecodeStatus.Ok \<longrightarrow>
         read_response frame = Some (stamp MessageType.Rejected ?h, RRejected 0 BadSequence)"
      using reject_frame [of ?h] by blast
    show thesis
      by (rule that [of "perform [Send f frame] s"])
        (use seq conn inv frame noop in \<open>auto simp: on_message_def r_def gateway_rule_def Let_def\<close>)
  next
    case logout
    obtain frame where frame: "encode_accepted (header msg) default (replicate 64 0) = Some (64, frame)"
      "length frame = 64" "header_status (header msg) = DecodeStatus.Ok \<longrightarrow>
         read_response frame = Some (stamp MessageType.Accepted (header msg), RAccepted 0 0)"
      using accept_frame [of "header msg"] by blast
    show thesis
      by (rule that [of "perform [Send f frame] ?s"])
        (use logout conn inv' frame in \<open>auto simp: on_message_def r_def gateway_rule_def Let_def\<close>)
  next
    case heartbeat
    obtain frame where frame: "encode_accepted (header msg) default (replicate 64 0) = Some (64, frame)"
      "length frame = 64" "header_status (header msg) = DecodeStatus.Ok \<longrightarrow>
         read_response frame = Some (stamp MessageType.Accepted (header msg), RAccepted 0 0)"
      using accept_frame [of "header msg"] by blast
    show thesis
      by (rule that [of "perform [Send f frame] ?s"])
        (use heartbeat conn inv' frame in \<open>auto simp: on_message_def r_def gateway_rule_def Let_def\<close>)
  next
    case order
    have "token_ok (EngineCommand.session (command_of (token c) msg))" using ok by (simp add: conn_ok_def)
    then obtain q where q: "v3_push kQueueCapacity (cmd_queue ?s) (command_of (token c) msg)
          = Some (length (v3_contents (cmd_queue ?s)) < 4095, q)"
        "server_inv (?s\<lparr>cmd_queue := q\<rparr>)"
        "v3_contents q = v3_contents (cmd_queue ?s) @
           (if length (v3_contents (cmd_queue ?s)) < 4095 then [command_of (token c) msg] else [])"
      using server_inv_cmd_queue [OF inv'] by blast
    have sel: "map_of (connections (?s\<lparr>cmd_queue := q\<rparr>)) = map_of (connections ?s)"
      "slots (?s\<lparr>cmd_queue := q\<rparr>) = slots ?s" "io (?s\<lparr>cmd_queue := q\<rparr>) = io ?s"
      "rsp_queue (?s\<lparr>cmd_queue := q\<rparr>) = rsp_queue ?s" by simp_all
    have step: "on_message f False msg s = Some (True, False, ?s\<lparr>cmd_queue := q\<rparr>)"
      using order conn q(1) by (simp add: on_message_def Let_def)
    show thesis
      by (rule that [of "?s\<lparr>cmd_queue := q\<rparr>"])
        (use order q(2,3) step in \<open>auto simp: r_def gateway_rule_def Let_def sel\<close>)
  qed
qed

text \<open>
  The rules along a byte stream: the outcomes of the frames it holds up to the first
  logout, unacceptable frame or incomplete frame, the sequence number expected next, and the bytes not consumed.
\<close>

function spec_client :: "SessionToken \<Rightarrow> u64 \<Rightarrow> byte list \<Rightarrow> outcome list \<times> u64 \<times> byte list" where
  "spec_client tok n bs =
     (case spec_parse bs default of
        (st, m, bs') \<Rightarrow>
          if st = Status.MessageReady
          then (case gateway_rule tok n m of (out, n', continue) \<Rightarrow>
                  if continue then (case spec_client tok n' bs' of (outs, n'', bs'') \<Rightarrow> (out # outs, n'', bs''))
                  else ([out], n', bs'))
          else ([], n, bs))"
  by pat_completeness auto
termination
  by (relation "measure (\<lambda>(_, _, bs). length bs)") (auto simp: spec_parse_def split: if_splits option.splits)

declare spec_client.simps [simp del]

fun realises_all :: "int \<Rightarrow> outcome list \<Rightarrow> Server \<Rightarrow> Server \<Rightarrow> bool" where
  "realises_all f [] s s' \<longleftrightarrow> io s' = io s \<and> v3_contents (cmd_queue s') = v3_contents (cmd_queue s)"
| "realises_all f (x # xs) s s' \<longleftrightarrow> (\<exists>t. realises f x s t \<and> realises_all f xs t s')"

lemma realises_cong:
  "io t = io s \<Longrightarrow> cmd_queue t = cmd_queue s \<Longrightarrow> realises f x t s' = realises f x s s'"
  by (cases x) auto

lemma realises_all_cong:
  "io t = io s \<Longrightarrow> cmd_queue t = cmd_queue s \<Longrightarrow> realises_all f xs t s' = realises_all f xs s s'"
  by (cases xs) (auto simp: realises_cong [of t s])

lemma client_loop_refines:
  assumes "server_inv s" and "map_of (connections s) f = Some c" and "length (pending (parser c)) div 64 < n"
  defines "r \<equiv> spec_client (token c) (expected_sequence c) (pending (parser c))"
  shows "\<exists>s' p. client_loop n f False s = Some s' \<and> server_inv s' \<and> slots s' = slots s \<and> rsp_queue s' = rsp_queue s \<and>
           realises_all f (fst r) s s' \<and> pending p = snd (snd r) \<and>
           map_of (connections s') = (map_of (connections s))(f \<mapsto> c\<lparr>parser := p, expected_sequence := fst (snd r)\<rparr>)"
  using assms(1-3) unfolding r_def
proof (induction n arbitrary: s c)
  case (Suc n)
  have ok: "conn_ok f c" by (rule server_inv_conn [OF Suc.prems(1,2)])
  then have pi: "parser_inv kParserCapacity (parser c)" by (simp add: conn_ok_def)
  obtain st m p where tp: "try_parse kParserCapacity (parser c) default = Some (st, m, p)" "parser_inv kParserCapacity p"
    and sp: "spec_parse (pending (parser c)) default = (st, m, pending p)"
    using fp.parse_queued [OF pi] by metis
  define c1 where "c1 = c\<lparr>parser := p\<rparr>"
  define s1 where "s1 = put_conn f c1 s"
  have ok1: "conn_ok f c1" using ok tp(2) by (simp add: conn_ok_def c1_def)
  have inv1: "server_inv s1" unfolding s1_def
    using server_inv_put [OF Suc.prems(1,2) ok1] by (simp add: c1_def)
  have conn1: "map_of (connections s1) f = Some c1" by (simp add: s1_def)
  have same: "token c1 = token c" "expected_sequence c1 = expected_sequence c" by (simp_all add: c1_def)
  note sc = spec_client.simps [of "token c" "expected_sequence c" "pending (parser c)"]
  have st3: "st = Status.MessageReady \<or> st = Status.NeedMoreData \<or> st = Status.ProtocolError"
    using sp by (auto simp: spec_parse_def split: if_splits option.splits)
  show ?case
  proof (cases "st = Status.MessageReady")
    case False
    then have "client_loop (Suc n) f False s = Some s1"
      using Suc.prems(2) tp(1) st3 by (auto simp: s1_def c1_def Let_def)
    moreover have "pending p = pending (parser c)"
      using sp False by (auto simp: spec_parse_def split: if_splits option.splits)
    ultimately show ?thesis
      using inv1 sp False by (intro exI [of _ s1] exI [of _ p]) (simp add: sc s1_def c1_def)
  next
    case True
    have "pending p = drop 64 (pending (parser c))" and long: "64 \<le> length (pending (parser c))"
      using sp True by (auto simp: spec_parse_def split: if_splits option.splits)
    then have len: "length (pending p) = length (pending (parser c)) - 64" by (metis length_drop)
    let ?g = "gateway_rule (token c) (expected_sequence c) m"
    obtain s2 where s2: "on_message f False m s1 = Some (snd (snd ?g), \<not> snd (snd ?g), s2)" "server_inv s2"
      "map_of (connections s2) = (map_of (connections s1))(f \<mapsto> c1\<lparr>expected_sequence := fst (snd ?g)\<rparr>)"
      "realises f (fst ?g) s1 s2" "slots s2 = slots s1" "rsp_queue s2 = rsp_queue s1"
      using on_message_rule [OF inv1 conn1, of m, unfolded same] by blast
    have re: "realises f (fst ?g) s s2" using s2(4) realises_cong [of s1 s] by (simp add: s1_def)
    obtain out n' cont where g: "?g = (out, n', cont)" by (cases ?g)
    define c2 where "c2 = c1\<lparr>expected_sequence := n'\<rparr>"
    have conn2: "map_of (connections s2) f = Some c2" using s2(3) by (simp add: c2_def g)
    have step: "client_loop (Suc n) f False s = (if cont then client_loop n f False s2 else Some s2)"
      using Suc.prems(2) tp(1) True s2(1) g by (simp add: s1_def c1_def Let_def)
    show ?thesis
    proof (cases cont)
      case False
      have "realises_all f [out] s s2" using re g by (auto intro!: exI [of _ s2])
      then show ?thesis using False step s2 sp True g
        by (intro exI [of _ s2] exI [of _ p]) (simp add: sc s1_def c1_def del: realises_all.simps)
    next
      case cont: True
      have sel: "token c2 = token c" "expected_sequence c2 = n'" "parser c2 = p" by (simp_all add: c2_def c1_def)
      have "length (pending (parser c2)) div 64 < n" using Suc.prems(3) len long by (simp add: c2_def c1_def div_if)
      from Suc.IH [OF s2(2) conn2 this, unfolded sel] obtain s3 p3 where s3: "client_loop n f False s2 = Some s3" "server_inv s3"
        "slots s3 = slots s2" "rsp_queue s3 = rsp_queue s2"
        "realises_all f (fst (spec_client (token c) n' (pending p))) s2 s3"
        "pending p3 = snd (snd (spec_client (token c) n' (pending p)))"
        "map_of (connections s3) = (map_of (connections s2))(f \<mapsto> c2\<lparr>parser := p3,
           expected_sequence := fst (snd (spec_client (token c) n' (pending p)))\<rparr>)"
        by blast
      have "spec_client (token c) (expected_sequence c) (pending (parser c)) =
          (out # fst (spec_client (token c) n' (pending p)), snd (spec_client (token c) n' (pending p)))"
        using sp True g cont by (simp add: sc split: prod.splits)
      then show ?thesis using step cont s2 s3 re g
        by (intro exI [of _ s3] exI [of _ p3]) (auto simp: s1_def c1_def c2_def)
    qed
  qed
qed simp

section \<open>Every handler is defined and keeps the invariant\<close>

text \<open>
  Received bytes that fit are appended and parsed; bytes that do not fit, an end of file and an
  error close the connection.
\<close>

lemma on_client_received:
  assumes inv: "server_inv s" and conn: "map_of (connections s) f = Some c" and ne: "bytes \<noteq> []"
    and fits: "length (pending (parser c)) + length bytes \<le> 4096"
  defines "r \<equiv> spec_client (token c) (expected_sequence c) (pending (parser c) @ bytes)"
  shows "\<exists>s' p. on_client f True (Received bytes) s = Some s' \<and> server_inv s' \<and> slots s' = slots s \<and>
           rsp_queue s' = rsp_queue s \<and> realises_all f (fst r) s s' \<and> pending p = snd (snd r) \<and>
           map_of (connections s') = (map_of (connections s))(f \<mapsto> c\<lparr>parser := p, expected_sequence := fst (snd r)\<rparr>)"
proof -
  have ok: "conn_ok f c" using server_inv_conn [OF inv conn] .
  then obtain p1 where p1: "append_bytes kParserCapacity (parser c) bytes = Some (True, p1)"
    "parser_inv kParserCapacity p1" "pending p1 = pending (parser c) @ bytes"
    using fp.append_fits [of kParserCapacity "parser c" bytes] fits by (auto simp: conn_ok_def capacities)
  let ?c = "c\<lparr>parser := p1\<rparr>" and ?s = "put_conn f (c\<lparr>parser := p1\<rparr>) s"
  have inv': "server_inv ?s" using server_inv_put [OF inv conn, of ?c] ok p1(2) by (simp add: conn_ok_def)
  have conn': "map_of (connections ?s) f = Some ?c" by simp
  have "length (pending p1) \<le> 4096" using p1(3) fits by (metis length_append)
  then have "length (pending (parser ?c)) div 64 < 65" by simp
  from client_loop_refines [OF inv' conn' this] obtain s' p where s': "client_loop 65 f False ?s = Some s'"
    "server_inv s'" "slots s' = slots ?s" "rsp_queue s' = rsp_queue ?s" "realises_all f (fst r) ?s s'"
    "pending p = snd (snd r)"
    "map_of (connections s') = (map_of (connections ?s))(f \<mapsto> ?c\<lparr>parser := p, expected_sequence := fst (snd r)\<rparr>)"
    unfolding r_def using p1(3) by auto
  have "on_client f True (Received bytes) s = Some s'"
    using conn ne p1(1) s'(1) by (simp add: on_client_def Let_def)
  then show ?thesis
    using s' realises_all_cong [of ?s s f "fst r" s'] by (intro exI [of _ s'] exI [of _ p]) auto
qed

lemma on_client_inv:
  assumes inv: "server_inv s"
  obtains s' where "on_client f epollin result s = Some s'" and "server_inv s'" and "rsp_queue s' = rsp_queue s"
proof (cases "epollin \<and> map_of (connections s) f \<noteq> None")
  case False
  then have "on_client f epollin result s = Some s" by (auto simp: on_client_def)
  then show thesis using that inv by blast
next
  case True
  then obtain c where epollin: epollin and conn: "map_of (connections s) f = Some c" by auto
  have ok: "conn_ok f c" using server_inv_conn [OF inv conn] .
  note oc = on_client_def epollin conn
  show thesis
  proof (cases result)
    case Would_Block
    then show thesis using that inv by (simp add: oc)
  next
    case Recv_Error
    then have "on_client f epollin result s = close_conn f s" by (simp add: oc)
    then show thesis using that close_conn_inv [OF inv, of f] by metis
  next
    case (Received bytes)
    show thesis
    proof (cases "bytes = []")
      case True
      then have "on_client f epollin result s = close_conn f s" by (simp add: oc Received)
      then show thesis using that close_conn_inv [OF inv, of f] by metis
    next
      case ne: False
      show thesis
      proof (cases "length (pending (parser c)) + length bytes \<le> 4096")
        case True
        then show thesis using on_client_received [OF inv conn ne True] that Received epollin by auto
      next
        case False
        then have "append_bytes kParserCapacity (parser c) bytes = Some (False, parser c)"
          using append_bytes_rejects [of kParserCapacity "parser c" bytes] ok by (simp add: conn_ok_def capacities)
        then have eq: "on_client f epollin result s = close_conn f (put_conn f (c\<lparr>parser := parser c\<rparr>) s)"
          using ne by (simp add: oc Received Let_def)
        have "server_inv (put_conn f (c\<lparr>parser := parser c\<rparr>) s)"
          using server_inv_put [OF inv conn, of "c\<lparr>parser := parser c\<rparr>"] ok by simp
        from close_conn_inv [OF this, of f] show thesis using that eq by (metis put_conn_sel(4))
      qed
    qed
  qed
qed

lemma server_inv_rsp_queue:
  assumes "server_inv s" and "v3_inv kQueueCapacity q" and "\<forall>r \<in> set (v3_contents q). token_ok (EngineResponse.session r)"
  shows "server_inv (s\<lparr>rsp_queue := q\<rparr>)"
  using assms by (simp add: server_inv_def routed_def)

lemma drain_responses_inv:
  "server_inv s \<Longrightarrow> length (v3_contents (rsp_queue s)) < n \<Longrightarrow>
     \<exists>s'. drain_responses n sends k rsp s = Some s' \<and> server_inv s' \<and> v3_contents (rsp_queue s') = []"
proof (induction n arbitrary: s k rsp)
  case (Suc n)
  have vi: "v3_inv kQueueCapacity (rsp_queue s)" using Suc.prems by (simp add: server_inv_def)
  obtain q where q: "v3_inv kQueueCapacity q" "v3_contents q = tl (v3_contents (rsp_queue s))"
    "v3_pop kQueueCapacity (rsp_queue s) rsp = Some (v3_contents (rsp_queue s) \<noteq> [],
       case v3_contents (rsp_queue s) of [] \<Rightarrow> rsp | x # _ \<Rightarrow> x, q)"
    using v3_fifo.pop_any [OF vi] by blast
  let ?s = "s\<lparr>rsp_queue := q\<rparr>"
  have toks: "\<forall>r \<in> set (v3_contents (rsp_queue s)). token_ok (EngineResponse.session r)"
    using Suc.prems by (simp add: server_inv_def)
  then have "\<forall>r \<in> set (v3_contents q). token_ok (EngineResponse.session r)" using q(2)
    by (cases "v3_contents (rsp_queue s)") auto
  then have inv': "server_inv ?s" using server_inv_rsp_queue [OF Suc.prems(1) q(1)] by blast
  show ?case
  proof (cases "v3_contents (rsp_queue s)")
    case Nil
    then show ?thesis using q inv' by (simp add: Let_def)
  next
    case (Cons x xs)
    then have "token_ok (EngineResponse.session x)" using toks by simp
    then obtain s2 where s2: "on_response (sends k) x ?s = Some s2" "server_inv s2" "rsp_queue s2 = q"
      using on_response_inv [OF inv', of x "sends k"] by auto
    then have "length (v3_contents (rsp_queue s2)) < n" using q(2) Cons Suc.prems(2) by simp
    from Suc.IH [OF s2(2) this, of "Suc k" x] show ?thesis using s2(1) q(3) Cons by (simp add: Let_def)
  qed
qed simp

text \<open>What the kernel promises about \<^verbatim>\<open>accept\<close>: a new descriptor is not the number of an open one.\<close>

fun fresh_fds :: "int list \<Rightarrow> Server \<Rightarrow> bool" where
  "fresh_fds fs s \<longleftrightarrow> distinct fs \<and> (\<forall>f \<in> set fs. map_of (connections s) f = None)"

declare fresh_fds.simps [simp del]

lemma accept_clients_inv:
  "server_inv s \<Longrightarrow> fresh_fds fs s \<Longrightarrow> \<exists>s'. accept_clients fs s = Some s' \<and> server_inv s'"
proof (induction fs arbitrary: s)
  case (Cons f fs)
  have "map_of (connections s) f = None" using Cons.prems(2) by (simp add: fresh_fds.simps)
  then obtain s1 c where "accept_one f s = Some s1" "server_inv s1" "map_of (connections s1) = (map_of (connections s))(f \<mapsto> c)"
    using accept_one_inv [OF Cons.prems(1)] by metis
  moreover from this Cons.prems(2) have "fresh_fds fs s1" by (auto simp: fresh_fds.simps)
  ultimately show ?case using Cons.IH by auto
qed simp

lemma handle_event_inv:
  assumes inv: "server_inv s" and fresh: "fresh_fds (ev_accepts ev) s"
  shows "\<exists>s'. handle_event event_fd listen_fd ev s = Some s' \<and> server_inv s'"
proof (cases "ev_fd ev = event_fd")
  case True
  have "v3_inv kQueueCapacity (rsp_queue s)" using inv by (simp add: server_inv_def)
  then have "length (v3_contents (rsp_queue s)) \<le> unat kQueueCapacity - 1" by (rule v3_fifo.bounded)
  then have "length (v3_contents (rsp_queue s)) < 4096" by (simp add: capacities)
  from drain_responses_inv [OF inv this] show ?thesis using True by (metis handle_event_def)
next
  case False
  obtain s1 where s1: "(if ev_fd ev = listen_fd then accept_clients (ev_accepts ev) s else Some s) = Some s1"
    and inv1: "server_inv s1"
    using accept_clients_inv [OF inv fresh] inv by (cases "ev_fd ev = listen_fd") auto
  obtain s2 where "on_client (ev_fd ev) (ev_in ev) (ev_recv ev) s1 = Some s2" "server_inv s2"
    using on_client_inv [OF inv1] by blast
  then show ?thesis using False s1 by (simp add: handle_event_def)
qed

section \<open>The matching thread\<close>

text \<open>The responses to a list of commands, up to a \<^verbatim>\<open>Shutdown\<close>.\<close>

fun engine_answers :: "EngineCommand list \<Rightarrow> EngineResponse list" where
  "engine_answers [] = []"
| "engine_answers (c # cs) =
     (if EngineCommand.type c = EngineCommandType.Shutdown then []
      else (case matching_response c of None \<Rightarrow> [] | Some r \<Rightarrow> [r]) @ engine_answers cs)"

lemma matching_response_session:
  "matching_response c = Some r \<Longrightarrow> EngineResponse.session r = EngineCommand.session c"
  by (auto simp: matching_response_def Let_def split: EngineCommandType.splits)

lemma matching_iteration_cases:
  assumes cv: "v3_inv kQueueCapacity cq" and rv: "v3_inv kQueueCapacity rq"
  obtains run k cq' rq' where "matching_iteration cq rq = Some (run, k, cq', rq')"
    and "v3_inv kQueueCapacity cq'" and "v3_inv kQueueCapacity rq'"
    and "v3_contents cq' = tl (v3_contents cq)"
    and "run \<longleftrightarrow> v3_contents cq = [] \<or> EngineCommand.type (hd (v3_contents cq)) \<noteq> EngineCommandType.Shutdown"
    and "v3_contents rq' = v3_contents rq @
           (if length (v3_contents rq) < 4095 then engine_answers (take 1 (v3_contents cq)) else [])"
    and "k = length (engine_answers (take 1 (v3_contents cq)))"
proof -
  obtain cq' where cq': "v3_inv kQueueCapacity cq'" "v3_contents cq' = tl (v3_contents cq)"
    "v3_pop kQueueCapacity cq default = Some (v3_contents cq \<noteq> [],
       case v3_contents cq of [] \<Rightarrow> default | x # _ \<Rightarrow> x, cq')"
    using v3_fifo.pop_any [OF cv] by blast
  show thesis
  proof (cases "v3_contents cq")
    case Nil
    then show thesis using that [of True 0 cq' rq] cq' rv by (simp add: matching_iteration_def)
  next
    case (Cons c cs)
    show thesis
    proof (cases "EngineCommand.type c = EngineCommandType.Shutdown")
      case True
      then show thesis using that [of False 0 cq' rq] cq' rv Cons by (simp add: matching_iteration_def)
    next
      case False
      show thesis
      proof (cases "matching_response c")
        case None
        then show thesis using that [of True 0 cq' rq] cq' rv Cons False by (simp add: matching_iteration_def)
      next
        case (Some r)
        obtain rq' where "v3_push kQueueCapacity rq r = Some (length (v3_contents rq) < unat kQueueCapacity - 1, rq')"
          "v3_inv kQueueCapacity rq'"
          "v3_contents rq' = (if length (v3_contents rq) < unat kQueueCapacity - 1 then v3_contents rq @ [r] else v3_contents rq)"
          using v3_fifo.push_any [OF rv] by blast
        then show thesis using that [of True 1 cq' rq'] cq' Cons False Some
          by (simp add: matching_iteration_def capacities)
      qed
    qed
  qed
qed

lemma matching_iteration_inv:
  assumes inv: "server_inv s"
  shows "\<exists>run k cq rq. matching_iteration (cmd_queue s) (rsp_queue s) = Some (run, k, cq, rq) \<and>
           server_inv (s\<lparr>cmd_queue := cq, rsp_queue := rq\<rparr>)"
proof -
  have cv: "v3_inv kQueueCapacity (cmd_queue s)" and rv: "v3_inv kQueueCapacity (rsp_queue s)"
    and ct: "\<forall>c \<in> set (v3_contents (cmd_queue s)). token_ok (EngineCommand.session c)"
    and rt: "\<forall>r \<in> set (v3_contents (rsp_queue s)). token_ok (EngineResponse.session r)"
    using inv by (auto simp: server_inv_def)
  obtain run k cq rq where it: "matching_iteration (cmd_queue s) (rsp_queue s) = Some (run, k, cq, rq)"
    "v3_inv kQueueCapacity cq" "v3_inv kQueueCapacity rq" "v3_contents cq = tl (v3_contents (cmd_queue s))"
    "v3_contents rq = v3_contents (rsp_queue s) @
       (if length (v3_contents (rsp_queue s)) < 4095 then engine_answers (take 1 (v3_contents (cmd_queue s))) else [])"
    using matching_iteration_cases [OF cv rv] by metis
  have "\<forall>c \<in> set (v3_contents cq). token_ok (EngineCommand.session c)"
    using ct it(4) by (cases "v3_contents (cmd_queue s)") auto
  moreover have "\<forall>r \<in> set (engine_answers (take 1 (v3_contents (cmd_queue s)))). token_ok (EngineResponse.session r)"
    using ct matching_response_session by (cases "v3_contents (cmd_queue s)") (auto split: option.splits)
  then have "\<forall>r \<in> set (v3_contents rq). token_ok (EngineResponse.session r)" using rt it(5) by auto
  ultimately have "server_inv (s\<lparr>cmd_queue := cq, rsp_queue := rq\<rparr>)"
    using inv it(2,3) by (simp add: server_inv_def routed_def)
  then show ?thesis using it(1) by blast
qed

lemma matching_thread_answers:
  assumes "v3_inv kQueueCapacity cq" and "v3_inv kQueueCapacity rq" and "v3_contents cq = cs @ c # rest"
    and "\<forall>x \<in> set cs. EngineCommand.type x \<noteq> EngineCommandType.Shutdown" and "EngineCommand.type c = EngineCommandType.Shutdown"
    and "length (v3_contents rq) + length cs \<le> 4095" and "length cs < n"
  shows "\<exists>cq' rq'. matching_thread n cq rq = Some (False, length (engine_answers cs), cq', rq') \<and>
           v3_contents cq' = rest \<and> v3_contents rq' = v3_contents rq @ engine_answers cs"
  using assms
proof (induction cs arbitrary: n cq rq)
  case Nil
  obtain n' where n: "n = Suc n'" using Nil.prems(7) by (cases n) auto
  obtain run k cq' rq' where it: "matching_iteration cq rq = Some (run, k, cq', rq')"
    "v3_contents cq' = tl (v3_contents cq)"
    "run \<longleftrightarrow> v3_contents cq = [] \<or> EngineCommand.type (hd (v3_contents cq)) \<noteq> EngineCommandType.Shutdown"
    "v3_contents rq' = v3_contents rq @
       (if length (v3_contents rq) < 4095 then engine_answers (take 1 (v3_contents cq)) else [])"
    "k = length (engine_answers (take 1 (v3_contents cq)))"
    using matching_iteration_cases [OF Nil.prems(1,2)] by metis
  then show ?case using Nil.prems(3,5) n by (intro exI [of _ cq'] exI [of _ rq']) simp
next
  case (Cons x cs)
  obtain n' where n: "n = Suc n'" using Cons.prems(7) by (cases n) auto
  obtain run k cq' rq' where it: "matching_iteration cq rq = Some (run, k, cq', rq')"
    "v3_inv kQueueCapacity cq'" "v3_inv kQueueCapacity rq'" "v3_contents cq' = tl (v3_contents cq)"
    "run \<longleftrightarrow> v3_contents cq = [] \<or> EngineCommand.type (hd (v3_contents cq)) \<noteq> EngineCommandType.Shutdown"
    "v3_contents rq' = v3_contents rq @
       (if length (v3_contents rq) < 4095 then engine_answers (take 1 (v3_contents cq)) else [])"
    "k = length (engine_answers (take 1 (v3_contents cq)))"
    using matching_iteration_cases [OF Cons.prems(1,2)] by metis
  have run: "run" using it(5) Cons.prems(3,4) by simp
  have rq': "v3_contents rq' = v3_contents rq @ engine_answers [x]" using it(6) Cons.prems(3,6) by simp
  have one: "length (engine_answers [x]) \<le> 1" by (simp split: option.split)
  have split: "engine_answers (x # cs) = engine_answers [x] @ engine_answers cs" using Cons.prems(4) by simp
  have "length (v3_contents rq') + length cs \<le> 4095" using rq' one Cons.prems(6) by simp
  from Cons.IH [OF it(2,3) _ _ Cons.prems(5) this, of n'] obtain cq2 rq2 where
    "matching_thread n' cq' rq' = Some (False, length (engine_answers cs), cq2, rq2)" "v3_contents cq2 = rest"
    "v3_contents rq2 = v3_contents rq' @ engine_answers cs"
    using it(4) Cons.prems(3,4,7) n by auto
  moreover have "k = length (engine_answers [x])" using it(7) Cons.prems(3) by simp
  ultimately show ?case using n it(1) run rq' unfolding split by simp
qed

section \<open>The running server\<close>

text \<open>
  The states the gateway thread and the matching thread reach together, one handled event or one
  round of the matching loop at a time. \<^verbatim>\<open>accept\<close> returns descriptors that are not open.
\<close>

inductive server_reachable :: "int \<Rightarrow> int \<Rightarrow> Server \<Rightarrow> bool" for event_fd listen_fd where
  start: "server_reachable event_fd listen_fd Server_init"
| gateway: "server_reachable event_fd listen_fd s'"
    if "server_reachable event_fd listen_fd s" and "fresh_fds (ev_accepts ev) s"
    and "handle_event event_fd listen_fd ev s = Some s'"
| engine: "server_reachable event_fd listen_fd (s\<lparr>cmd_queue := cq, rsp_queue := rq\<rparr>)"
    if "server_reachable event_fd listen_fd s"
    and "matching_iteration (cmd_queue s) (rsp_queue s) = Some (run, k, cq, rq)"

lemma server_reachable_inv: "server_reachable event_fd listen_fd s \<Longrightarrow> server_inv s"
proof (induction rule: server_reachable.induct)
  case start
  then show ?case by (rule server_inv_init)
next
  case (gateway s ev s')
  then show ?case using handle_event_inv [of s ev event_fd listen_fd] by auto
next
  case (engine s run k cq rq)
  then show ?case using matching_iteration_inv [of s] by auto
qed

section \<open>Allocation of session tokens\<close>

text \<open>The number of connections accepted so far, and what the allocator has made of it.\<close>

fun is_add :: "io \<Rightarrow> bool" where
  "is_add (Accept _) \<longleftrightarrow> True"
| "is_add _ \<longleftrightarrow> False"

definition accepts :: "Server \<Rightarrow> nat" where
  "accepts s = length (filter is_add (io s))"

definition allocated :: "Server \<Rightarrow> u32 \<times> u32 list \<times> nat" where
  "allocated s = (next_slot s, map SessionSlot.generation (slots s), accepts s)"

definition alloc_inv :: "Server \<Rightarrow> bool" where
  "alloc_inv s \<longleftrightarrow> (let n = accepts s in
     next_slot s = of_nat n \<and> length (slots s) = 1024 \<and>
     (\<forall>i < 1024. SessionSlot.generation (slots s ! i) = of_nat (n div 1024 + (if i < n mod 1024 then 1 else 0))))"

lemma alloc_inv_cong:
  assumes "allocated t = allocated s" and "alloc_inv s"
  shows "alloc_inv t"
proof -
  have m: "map SessionSlot.generation (slots t) = map SessionSlot.generation (slots s)"
    using assms(1) by (simp add: allocated_def)
  have len: "length (slots t) = length (slots s)" using m by (metis length_map)
  have "SessionSlot.generation (slots t ! i) = SessionSlot.generation (slots s ! i)" if "i < length (slots s)" for i
    using m len that by (metis nth_map)
  then show ?thesis using assms len by (simp add: alloc_inv_def allocated_def Let_def)
qed

lemma allocated_frame [simp]:
  "allocated (s\<lparr>cmd_queue := q\<rparr>) = allocated s" "allocated (s\<lparr>rsp_queue := r\<rparr>) = allocated s"
  "allocated (put_conn f c s) = allocated s"
  "allocated (s\<lparr>connections := cs\<rparr>) = allocated s"
  "\<forall>x \<in> set xs. \<not> is_add x \<Longrightarrow> allocated (perform xs s) = allocated s"
  by (simp_all add: allocated_def accepts_def put_conn_def filter_False)

lemma map_update_same: "i < length xs \<Longrightarrow> (map g xs)[i := g (xs ! i)] = map g xs"
  by (metis list_update_id nth_map)

lemma close_conn_allocated: "close_conn f s = Some s' \<Longrightarrow> allocated s' = allocated s"
  by (auto simp: close_conn_def allocated_def accepts_def span_get_def span_set_def map_update map_update_same
      Let_def split: option.splits if_splits bind_splits)

lemma on_response_allocated: "on_response sent rsp s = Some s' \<Longrightarrow> allocated s' = allocated s"
  by (auto simp: on_response_def Let_def dest!: close_conn_allocated split: if_splits bind_splits)

lemma drain_allocated: "drain_responses n sends k rsp s = Some s' \<Longrightarrow> allocated s' = allocated s"
  by (induction n arbitrary: k rsp s)
    (auto simp: Let_def dest!: on_response_allocated split: if_splits bind_splits)

lemma on_message_allocated: "on_message f sc msg s = Some (cont, sc', s') \<Longrightarrow> allocated s' = allocated s"
  by (auto simp: on_message_def Let_def dest!: close_conn_allocated split: if_splits bind_splits)

lemma client_loop_allocated: "client_loop n f sc s = Some s' \<Longrightarrow> allocated s' = allocated s"
  by (induction n arbitrary: sc s)
    (auto simp: Let_def dest!: on_message_allocated split: if_splits bind_splits)

lemma on_client_allocated: "on_client f epollin result s = Some s' \<Longrightarrow> allocated s' = allocated s"
  by (auto simp: on_client_def Let_def dest!: client_loop_allocated close_conn_allocated
      split: if_splits bind_splits option.splits recv_result.splits)

lemma kMaxSlots_mod: "unat (of_nat n mod kMaxSlots) = n mod 1024"
proof -
  have "(1024::nat) dvd 2 ^ 32" by (rule dvdI [of _ _ "2 ^ 22"]) simp
  then show ?thesis by (simp add: unat_mod capacities unat_of_nat mod_mod_cancel)
qed

lemma accept_one_alloc:
  assumes inv: "alloc_inv s" and acc: "accept_one f s = Some s'"
  shows "alloc_inv s'" and "accepts s' = Suc (accepts s)"
    and "map_of (connections s) f = None \<Longrightarrow> map_of (connections s') = (map_of (connections s))(f \<mapsto> Connection_init f
          \<lparr>slot = of_nat (accepts s mod 1024), SessionToken.generation = of_nat (accepts s div 1024 + 1)\<rparr>)"
proof -
  let ?n = "accepts s" and ?i = "next_slot s mod kMaxSlots"
  have nx: "next_slot s = of_nat ?n" and len: "length (slots s) = 1024"
    and gen: "i < 1024 \<Longrightarrow> SessionSlot.generation (slots s ! i) = of_nat (?n div 1024 + (if i < ?n mod 1024 then 1 else 0))" for i
    using inv by (simp_all add: alloc_inv_def Let_def)
  have i: "unat ?i = ?n mod 1024" by (simp add: nx kMaxSlots_mod)
  then have slot: "?i = of_nat (?n mod 1024)" by (simp flip: i)
  have g: "SessionSlot.generation (slots s ! (?n mod 1024)) + 1 = of_nat (?n div 1024 + 1)"
    using gen [of "?n mod 1024"] by (simp add: add.commute)
  define s1 where "s1 = (perform (accept_calls f) s)\<lparr>next_slot := next_slot s + 1,
    slots := (slots s)[?n mod 1024 := \<lparr>SessionSlot.fd = f, SessionSlot.generation = of_nat (?n div 1024 + 1)\<rparr>]\<rparr>"
  have s': "s' = s1\<lparr>connections :=
       (if map_of (connections s) f = None
        then (f, Connection_init f \<lparr>slot = of_nat (?n mod 1024), SessionToken.generation = of_nat (?n div 1024 + 1)\<rparr>) # connections s
        else connections s)\<rparr>"
    using trans [OF acc [symmetric] accept_one_eq [OF len, of f, unfolded i, unfolded g, unfolded slot]]
    by (simp only: option.inject s1_def)
  show "accepts s' = Suc ?n" by (simp add: s' s1_def accepts_def perform_def)
  have step: "of_nat (Suc ?n div 1024 + (if j < Suc ?n mod 1024 then 1 else 0)) =
      (if j = ?n mod 1024 then of_nat (?n div 1024 + 1) else of_nat (?n div 1024 + (if j < ?n mod 1024 then 1 else 0)) :: u32)"
    if "j < 1024" for j
    using that by (cases "Suc ?n mod 1024 = 0") (auto simp: mod_Suc div_Suc split: if_splits)
  show "alloc_inv s'"
    using \<open>accepts s' = Suc ?n\<close> step gen len nx
    by (auto simp: alloc_inv_def Let_def s' s1_def nth_list_update)
  show "map_of (connections s) f = None \<Longrightarrow> map_of (connections s') = (map_of (connections s))(f \<mapsto> Connection_init f
          \<lparr>slot = of_nat (?n mod 1024), SessionToken.generation = of_nat (?n div 1024 + 1)\<rparr>)"
    by (simp add: s')
qed

lemma accept_clients_alloc: "accept_clients fs s = Some s' \<Longrightarrow> alloc_inv s \<Longrightarrow> alloc_inv s'"
  by (induction fs arbitrary: s) (auto dest: accept_one_alloc(1) split: bind_splits)

lemma handle_event_alloc:
  "handle_event event_fd listen_fd ev s = Some s' \<Longrightarrow> alloc_inv s \<Longrightarrow> alloc_inv s'"
  by (auto simp: handle_event_def dest: drain_allocated on_client_allocated accept_clients_alloc alloc_inv_cong
      split: if_splits bind_splits)

lemma server_reachable_alloc: "server_reachable event_fd listen_fd s \<Longrightarrow> alloc_inv s"
proof (induction rule: server_reachable.induct)
  case start
  then show ?case
    by (simp add: alloc_inv_def Server_init_def accepts_def capacities)
next
  case (gateway s ev s')
  then show ?case using handle_event_alloc by blast
next
  case (engine s run k cq rq)
  then show ?case by (auto intro: alloc_inv_cong [of _ s] simp: allocated_def accepts_def)
qed

section \<open>Lemmas for the properties\<close>

text \<open>What the client reads from the frame of an engine response.\<close>

lemma engine_frame:
  "\<exists>frame. encode_response rsp (replicate 64 0) = Some frame \<and> length frame = 64 \<and>
     (case EngineResponse.type rsp of
        EngineResponseType.Accepted \<Rightarrow> read_response frame =
          Some (stamp MessageType.Accepted default, RAccepted (EngineResponse.client_order_id rsp) 0)
      | EngineResponseType.Rejected \<Rightarrow> RejectReason_ok (reject_reason rsp) \<longrightarrow> read_response frame =
          Some (stamp MessageType.Rejected default, RRejected (EngineResponse.client_order_id rsp) (reject_reason rsp))
      | EngineResponseType.Cancelled \<Rightarrow> read_response frame =
          Some (stamp MessageType.Cancelled default, RCancelled (EngineResponse.client_order_id rsp) 0)
      | EngineResponseType.Modified \<Rightarrow> read_response frame =
          Some (stamp MessageType.Modified default, RModified (EngineResponse.client_order_id rsp) 0)
      | EngineResponseType.Trade \<Rightarrow> decode_trade frame default = Some (DecodeStatus.Ok,
          default\<lparr>Trade.client_order_id := EngineResponse.client_order_id rsp,
            Trade.price := EngineResponse.price rsp, Trade.quantity := EngineResponse.quantity rsp\<rparr>))"
proof -
  let ?h = "(default :: MessageHeader)\<lparr>payload_length := of_nat kPayloadSize\<rparr>"
  have h: "header_status ?h = DecodeStatus.Ok" "stamp t ?h = stamp t default" for t
    by (simp_all add: header_status_def stamp_def)
  let ?cid = "EngineResponse.client_order_id rsp"
  note def = encode_response_def Let_def read_response_def
  have len: "64 \<le> length (replicate 64 (0 :: byte))" by simp
  show ?thesis
  proof (cases "EngineResponse.type rsp")
    case Accepted
    then show ?thesis
      using accepted_codec.roundtrip [OF len TrueI, of ?h "default\<lparr>Accepted.client_order_id := ?cid\<rparr>" default default] h
      by (auto simp: def)
  next
    case Rejected
    obtain frame where "encode_rejected ?h (default\<lparr>Rejected.client_order_id := ?cid, reason := reject_reason rsp\<rparr>)
        (replicate 64 0) = Some (64, frame)" "length frame = 64"
      using rejected_codec.encode_defined [OF len] rejected_codec.encode_frame(2) by (metis length_replicate)
    then show ?thesis
      using Rejected rejected_codec.roundtrip [OF len,
          of "default\<lparr>Rejected.client_order_id := ?cid, reason := reject_reason rsp\<rparr>" ?h default default] h
      by (auto simp: def)
  next
    case Cancelled
    then show ?thesis
      using cancelled_codec.roundtrip [OF len TrueI, of ?h "default\<lparr>Cancelled.client_order_id := ?cid\<rparr>" default default] h
      by (auto simp: def)
  next
    case Modified
    then show ?thesis
      using modified_codec.roundtrip [OF len TrueI, of ?h "default\<lparr>Modified.client_order_id := ?cid\<rparr>" default default] h
      by (auto simp: def)
  next
    case Trade
    then show ?thesis
      using trade_codec.roundtrip [OF len TrueI, of ?h "default\<lparr>Trade.client_order_id := ?cid,
          Trade.price := EngineResponse.price rsp, Trade.quantity := EngineResponse.quantity rsp\<rparr>" default default] h
      by (auto simp: def)
  qed
qed

lemma io_prefix_close: "close_conn f s = Some s' \<Longrightarrow> io s' = io s @ [Epoll_Remove f, Close f]"
  by (auto simp: close_conn_def Let_def split: option.splits bind_splits)

lemma on_response_sends:
  assumes inv: "server_inv s" and step: "on_response sent rsp s = Some s'"
    and new: "Send f frame \<in> set (drop (length (io s)) (io s'))"
  shows "\<exists>c. map_of (connections s) f = Some c \<and> token c = EngineResponse.session rsp"
    and "encode_response rsp (replicate 64 0) = Some frame"
proof -
  let ?i = "unat (slot (EngineResponse.session rsp))"
  let ?sl = "slots s ! ?i"
  have i: "?i < length (slots s)" using step by (auto simp: on_response_def span_get_def split: if_splits)
  have live: "SessionSlot.generation ?sl = SessionToken.generation (EngineResponse.session rsp)" "0 \<le> SessionSlot.fd ?sl"
    using step new i by (auto simp: on_response_def span_get_def split: if_splits)
  obtain fr where fr: "encode_response rsp (replicate 64 0) = Some fr"
    and io: "io s' = io s @ [Send (SessionSlot.fd ?sl) fr] \<or>
      io s' = io s @ [Send (SessionSlot.fd ?sl) fr, Epoll_Remove (SessionSlot.fd ?sl), Close (SessionSlot.fd ?sl)]"
    using step live i
    by (auto simp: on_response_def span_get_def Let_def dest: io_prefix_close split: if_splits bind_splits)
  then have f: "f = SessionSlot.fd ?sl" "frame = fr" using new by auto
  show "encode_response rsp (replicate 64 0) = Some frame" using fr f by simp
  obtain c where "map_of (connections s) (SessionSlot.fd ?sl) = Some c"
    "token c = \<lparr>slot = of_nat ?i, SessionToken.generation = SessionSlot.generation ?sl\<rparr>"
    using inv i live by (auto simp: server_inv_def routed_def)
  then show "\<exists>c. map_of (connections s) f = Some c \<and> token c = EngineResponse.session rsp"
    using f live by (cases "EngineResponse.session rsp") auto
qed

text \<open>A response for a session whose slot is empty goes nowhere.\<close>

lemma on_response_dropped:
  "unat (slot (EngineResponse.session rsp)) < length (slots s) \<Longrightarrow>
   SessionSlot.fd (slots s ! unat (slot (EngineResponse.session rsp))) < 0 \<Longrightarrow> on_response sent rsp s = Some s"
  by (simp add: on_response_def span_get_def)

lemma close_conn_frees_slot:
  assumes inv: "server_inv s" and conn: "map_of (connections s) f = Some c" and cl: "close_conn f s = Some s'"
  shows "SessionSlot.fd (slots s' ! unat (slot (token c))) = - 1" and "length (slots s') = 1024"
proof -
  have "unat (slot (token c)) < length (slots s)" "length (slots s) = 1024"
    using inv server_inv_conn [OF inv conn] by (auto simp: server_inv_def conn_ok_def token_ok_def)
  then show "SessionSlot.fd (slots s' ! unat (slot (token c))) = - 1" and "length (slots s') = 1024"
    using cl conn by (auto simp: close_conn_def span_get_def span_set_def Let_def split: bind_splits)
qed

text \<open>Distinct accept counts below \<open>2 ^ 42\<close> give distinct tokens.\<close>

lemma token_distinct:
  assumes "n < m" and "m < 2 ^ 42"
  shows "(of_nat (n mod 1024) :: u32) \<noteq> of_nat (m mod 1024) \<or> (of_nat (n div 1024 + 1) :: u32) \<noteq> of_nat (m div 1024 + 1)"
proof (rule ccontr)
  assume "\<not> ?thesis"
  then have eq: "(of_nat (n mod 1024) :: u32) = of_nat (m mod 1024)" "(of_nat (n div 1024) :: u32) = of_nat (m div 1024)"
    by simp_all
  have small: "n mod 1024 < 2 ^ 32" "m mod 1024 < 2 ^ 32" "n div 1024 < 2 ^ 32" "m div 1024 < 2 ^ 32"
    using assms by (auto simp: less_mult_imp_div_less intro: order_less_trans [OF mod_less_divisor])
  have "n mod 1024 = m mod 1024" "n div 1024 = m div 1024"
    using arg_cong [OF eq(1), of unat] arg_cong [OF eq(2), of unat] small by (simp_all add: unat_of_nat)
  then have "n = m" by (metis div_mult_mod_eq)
  then show False using assms by simp
qed

text \<open>A server that has accepted the descriptor 7, for the examples.\<close>

lemma one_client:
  obtains s where "server_reachable 4 3 s" and "map_of (connections s) 7 = Some (Connection_init 7 \<lparr>slot = 0, generation = 1\<rparr>)"
    and "map_of (connections s) 8 = None" and "accepts s = 1" and "v3_contents (cmd_queue s) = []"
    and "SessionSlot.fd (slots s ! 0) = 7" and "SessionSlot.generation (slots s ! 0) = 1"
    and "v3_contents (rsp_queue s) = []" and "io s = accept_calls 7"
    and "\<exists>e. handle_event 4 3 e Server_init = Some s \<and> fresh_fds (ev_accepts e) Server_init"
proof -
  define ev where "ev = \<lparr>ev_fd = 3, ev_in = True, ev_sends = (\<lambda>_. 64), ev_accepts = [7], ev_recv = Would_Block\<rparr>"
  have none: "map_of (connections Server_init) 7 = None" by (simp add: Server_init_def)
  have len: "length (slots Server_init) = 1024" by (simp add: Server_init_def capacities)
  have ai: "alloc_inv Server_init" by (rule server_reachable_alloc [OF server_reachable.start])
  obtain s where s: "accept_one 7 Server_init = Some s" using accept_one_eq [OF len] by blast
  have sv: "s = (perform (accept_calls 7) Server_init)\<lparr>next_slot := 1,
      slots := (slots Server_init)[0 := \<lparr>SessionSlot.fd = 7, SessionSlot.generation = 1\<rparr>],
      connections := [(7, Connection_init 7 \<lparr>slot = 0, SessionToken.generation = 1\<rparr>)]\<rparr>"
    using s accept_one_eq [OF len, of 7] by (simp add: Server_init_def capacities)
  have "on_client 3 True Would_Block s = Some s" by (simp add: on_client_def sv)
  then have he: "handle_event 4 3 ev Server_init = Some s" using s by (simp add: handle_event_def ev_def)
  have fresh: "fresh_fds (ev_accepts ev) Server_init" using none by (simp add: fresh_fds.simps ev_def)
  have r: "server_reachable 4 3 s" using server_reachable.gateway [OF server_reachable.start fresh he] .
  have "accepts s = 1" using accept_one_alloc(2) [OF ai s] by (simp add: accepts_def Server_init_def)
  then show thesis
    using he fresh
    by (intro that [of s] r)
      (simp_all add: sv Server_init_def capacities v3_fifo.init_contents [OF capacities(1)], blast)
qed

section \<open>Properties\<close>

text \<open>
  C17. The server never gets stuck. In every state that the gateway thread and the matching thread reach
  together, whatever event comes next and whatever the system calls return, the handler finishes
  (the drain and parse loops end) without an access outside an array or through a reference to an
  erased connection, and so does the next round of the matching thread; the queues, parsers,
  slots and connections keep their invariant.
\<close>

theorem server_never_stuck:
  assumes "server_reachable event_fd listen_fd s" and "fresh_fds (ev_accepts ev) s"
  shows "server_inv s \<and>
         (\<exists>s'. handle_event event_fd listen_fd ev s = Some s' \<and> server_inv s') \<and>
         (\<exists>run k cq rq. matching_iteration (cmd_queue s) (rsp_queue s) = Some (run, k, cq, rq) \<and>
            server_inv (s\<lparr>cmd_queue := cq, rsp_queue := rq\<rparr>))"
  using server_reachable_inv [OF assms(1)] handle_event_inv assms(2) matching_iteration_inv by blast

theorem server_never_stuck_witness:
  "\<exists>s'. handle_event 4 3 \<lparr>ev_fd = 3, ev_in = True, ev_sends = (\<lambda>_. - 1), ev_accepts = [7, 8], ev_recv = Recv_Error\<rparr> Server_init
     = Some s' \<and> server_inv s'"
proof -
  let ?ev = "\<lparr>ev_fd = 3, ev_in = True, ev_sends = (\<lambda>_. - 1), ev_accepts = [7, 8], ev_recv = Recv_Error\<rparr>"
  have fresh: "fresh_fds (ev_accepts ?ev) Server_init" by (simp add: fresh_fds.simps Server_init_def)
  show ?thesis using server_never_stuck [OF server_reachable.start [of 4 3] fresh] by blast
qed

text \<open>
  C6. Responses reach the session they belong to. Whenever the drain loop sends a frame on a
  descriptor, that descriptor is an open connection whose token equals the token of the response, also
  after the slot or the descriptor has been reused; a response of a session that is gone is
  not sent to anyone else.
\<close>

theorem responses_reach_their_session:
  assumes "server_reachable event_fd listen_fd s" and "on_response sent rsp s = Some s'"
    and "Send f frame \<in> set (drop (length (io s)) (io s'))"
  shows "(\<exists>c. map_of (connections s) f = Some c \<and> token c = EngineResponse.session rsp) \<and>
         encode_response rsp (replicate kFrameSize 0) = Some frame"
  using on_response_sends [OF server_reachable_inv [OF assms(1)] assms(2,3)] by simp

theorem responses_reach_their_session_witness:
  "\<exists>s s' frame c. server_reachable 4 3 s \<and>
     on_response 64 (default\<lparr>EngineResponse.session := \<lparr>slot = 0, generation = 1\<rparr>\<rparr>) s = Some s' \<and>
     Send 7 frame \<in> set (drop (length (io s)) (io s')) \<and>
     map_of (connections s) 7 = Some c \<and> token c = \<lparr>slot = 0, generation = 1\<rparr>"
proof -
  obtain s where r: "server_reachable 4 3 s" and sl: "SessionSlot.fd (slots s ! 0) = 7" "SessionSlot.generation (slots s ! 0) = 1"
    using one_client by metis
  let ?rsp = "(default :: EngineResponse)\<lparr>EngineResponse.session := \<lparr>slot = 0, generation = 1\<rparr>\<rparr>"
  obtain frame where frame: "encode_response ?rsp (replicate 64 0) = Some frame" "length frame = 64"
    using encode_response_defined [of "replicate 64 0" ?rsp] by auto
  have "length (slots s) = 1024" using server_reachable_inv [OF r] by (simp add: server_inv_def)
  then have step: "on_response 64 ?rsp s = Some (perform [Send 7 frame] s)"
    using sl frame by (simp add: on_response_def span_get_def)
  have new: "Send 7 frame \<in> set (drop (length (io s)) (io (perform [Send 7 frame] s)))" by simp
  from responses_reach_their_session [OF r step new] show ?thesis using r step new by force
qed

text \<open>
  C5. Received bytes have exactly the effect of the gateway rules on the byte stream. When the bytes
  that \<^verbatim>\<open>recv\<close> delivers fit into the connection's parser, the frames they complete are handled in order:
  each is answered by a frame that the client decodes to the rule's reply, or its command is appended to
  the command queue (and lost if the queue is full); the connection keeps the
  unconsumed bytes and the next expected sequence number, and nothing else changes.
\<close>

theorem client_data_follows_rules:
  assumes "server_reachable event_fd listen_fd s" and "map_of (connections s) f = Some c" and "bytes \<noteq> []"
    and "length (pending (parser c)) + length bytes \<le> 4096"
  shows "\<exists>s' p. on_client f True (Received bytes) s = Some s' \<and> slots s' = slots s \<and> rsp_queue s' = rsp_queue s \<and>
     (let (outs, n, rest) = spec_client (token c) (expected_sequence c) (pending (parser c) @ bytes)
      in realises_all f outs s s' \<and> pending p = rest \<and>
         map_of (connections s') = (map_of (connections s))(f \<mapsto> c\<lparr>parser := p, expected_sequence := n\<rparr>))"
  using on_client_received [OF server_reachable_inv [OF assms(1)] assms(2-4)] by (fastforce simp: case_prod_unfold Let_def)

theorem client_data_follows_rules_witness:
  "\<exists>s s'. server_reachable 4 3 s \<and> on_client 7 True (Received [1, 2, 3]) s = Some s' \<and> slots s' = slots s"
proof -
  obtain s where r: "server_reachable 4 3 s"
    and c: "map_of (connections s) 7 = Some (Connection_init 7 \<lparr>slot = 0, generation = 1\<rparr>)"
    using one_client by metis
  have "length (pending (parser (Connection_init 7 \<lparr>slot = 0, generation = 1\<rparr>))) + length [1, 2, 3 :: byte] \<le> 4096"
    by (simp add: Connection_init_def)
  from client_data_follows_rules [OF r c _ this] show ?thesis using r by blast
qed

text \<open>
  C25. Session tokens are never reused. The connection accepted as number \<open>n\<close> (from 0) gets slot
  \<open>n mod 1024\<close> and generation \<open>n div 1024 + 1\<close>, whatever was closed in between and although \<^verbatim>\<open>next_slot\<close>
  and the generations are 32-bit counters, and two of the first \<open>2 ^ 42\<close> connections never share a token.
\<close>

theorem session_tokens_unique:
  assumes "server_reachable event_fd listen_fd s" and "accept_one f s = Some s'" and "map_of (connections s) f = None"
    and "server_reachable event_fd listen_fd t" and "accept_one g t = Some t'" and "map_of (connections t) g = None"
    and "accepts s < accepts t" and "accepts t < 2 ^ 42"
  shows "\<exists>c d. map_of (connections s') f = Some c \<and> map_of (connections t') g = Some d \<and>
           token c = \<lparr>slot = of_nat (accepts s mod 1024), generation = of_nat (accepts s div 1024 + 1)\<rparr> \<and>
           token d = \<lparr>slot = of_nat (accepts t mod 1024), generation = of_nat (accepts t div 1024 + 1)\<rparr> \<and>
           token c \<noteq> token d"
  using accept_one_alloc(3) [OF server_reachable_alloc [OF assms(1)] assms(2,3)]
    accept_one_alloc(3) [OF server_reachable_alloc [OF assms(4)] assms(5,6)] token_distinct [OF assms(7,8)]
  by (simp add: Connection_init_def)

theorem session_tokens_unique_witness:
  "\<exists>s t s' t' c d. server_reachable 4 3 s \<and> server_reachable 4 3 t \<and> accept_one 7 s = Some s' \<and> accept_one 8 t = Some t' \<and>
     map_of (connections s') 7 = Some c \<and> map_of (connections t') 8 = Some d \<and> token c \<noteq> token d"
proof -
  obtain t where t: "server_reachable 4 3 t" "map_of (connections t) 8 = None" "accepts t = 1"
    using one_client by metis
  have none: "map_of (connections Server_init) 7 = None" "accepts Server_init = 0" by (simp_all add: Server_init_def accepts_def)
  obtain s' where s': "accept_one 7 Server_init = Some s'"
    using accept_one_eq [of Server_init 7] by (simp add: Server_init_def capacities)
  obtain t' where t': "accept_one 8 t = Some t'"
    using accept_one_eq [of t 8] server_reachable_inv [OF t(1)] by (simp add: server_inv_def)
  show ?thesis
    using session_tokens_unique [OF server_reachable.start [of 4 3] s' none(1) t(1) t' t(2)] none(2) t(1,3) s' t'
      server_reachable.start [of 4 3] by fastforce
qed

text \<open>
  The matching thread answers the queue in order and stops at \<^verbatim>\<open>Shutdown\<close>. With the commands \<open>cs\<close> in front of
  a \<^verbatim>\<open>Shutdown\<close> and room for their responses, it leaves its loop after at most \<open>length cs + 1\<close> rounds, having pushed
  exactly the responses of \<open>cs\<close> in order, one event notification each; the commands behind the
  \<^verbatim>\<open>Shutdown\<close> stay in the queue.
\<close>

theorem matching_thread_in_order:
  assumes "v3_inv kQueueCapacity cq" and "v3_inv kQueueCapacity rq" and "v3_contents cq = cs @ c # rest"
    and "\<forall>x \<in> set cs. EngineCommand.type x \<noteq> EngineCommandType.Shutdown" and "EngineCommand.type c = EngineCommandType.Shutdown"
    and "length (v3_contents rq) + length cs \<le> 4095"
  shows "\<exists>cq' rq'. matching_thread (length cs + 1) cq rq = Some (False, length (engine_answers cs), cq', rq') \<and>
           v3_contents cq' = rest \<and> v3_contents rq' = v3_contents rq @ engine_answers cs"
  by (rule matching_thread_answers [OF assms]) simp

theorem matching_thread_in_order_witness:
  "\<exists>cq rq cq' rq'. matching_thread 2 cq rq = Some (False, 1, cq', rq') \<and>
     map EngineResponse.type (v3_contents rq') = [EngineResponseType.Cancelled]"
proof -
  let ?c = "(default :: EngineCommand)\<lparr>EngineCommand.type := EngineCommandType.Cancel\<rparr>"
  let ?d = "(default :: EngineCommand)\<lparr>EngineCommand.type := EngineCommandType.Shutdown\<rparr>"
  let ?q = "v3_init kQueueCapacity :: CommandQueue" and ?r = "v3_init kQueueCapacity :: ResponseQueue"
  have q0: "v3_inv kQueueCapacity ?q" "v3_contents ?q = []" and r0: "v3_inv kQueueCapacity ?r" "v3_contents ?r = []"
    using v3_fifo.init_inv v3_fifo.init_contents capacities(1) by blast+
  obtain q1 where q1: "v3_inv kQueueCapacity q1" "v3_contents q1 = [?c]"
    using v3_fifo.push_room [OF q0(1), of ?c] q0(2) by (auto simp: capacities)
  obtain q2 where q2: "v3_inv kQueueCapacity q2" "v3_contents q2 = [?c] @ ?d # []"
    using v3_fifo.push_room [OF q1(1), of ?d] q1(2) by (auto simp: capacities)
  from matching_thread_in_order [OF q2(1) r0(1) q2(2)] show ?thesis
    using r0(2) by (fastforce simp: matching_response_def numeral_2_eq_2)
qed

lemma spec_request_status: "spec_request frame out = Some m \<Longrightarrow> header_status (header m) = DecodeStatus.Ok"
  by (auto simp: spec_request_def Let_def split: if_splits)

text \<open>
  C33. A logout does not close the connection. A logout request in sequence is answered by an \<^verbatim>\<open>Accepted\<close>
  frame and sets \<^verbatim>\<open>should_close\<close>, but the loop is left before the only statement that looks at
  it: the handler sends that frame and nothing else, closes no descriptor, keeps the connection open in its
  slot with the next sequence number, and tells the matching engine nothing.
\<close>

theorem logout_keeps_connection:
  assumes "server_reachable event_fd listen_fd s" and "map_of (connections s) f = Some c" and "bytes \<noteq> []"
    and "length (pending (parser c)) + length bytes \<le> 4096" and "64 \<le> length (pending (parser c)) + length bytes"
    and "spec_request (take 64 (pending (parser c) @ bytes)) default = Some m"
    and "DecodedMessage.type m = MessageType.Logout" and "sequence_number (header m) = expected_sequence c"
  shows "\<exists>s' p frame. on_client f True (Received bytes) s = Some s' \<and> io s' = io s @ [Send f frame] \<and>
           read_response frame = Some (stamp MessageType.Accepted (header m), RAccepted 0 0) \<and>
           slots s' = slots s \<and> v3_contents (cmd_queue s') = v3_contents (cmd_queue s) \<and>
           map_of (connections s') f = Some (c\<lparr>parser := p, expected_sequence := expected_sequence c + 1\<rparr>)"
proof -
  let ?bs = "pending (parser c) @ bytes"
  have sp: "spec_parse ?bs default = (Status.MessageReady, m, drop 64 ?bs)"
    using assms(5,6) by (simp add: spec_parse_def)
  have "spec_client (token c) (expected_sequence c) ?bs =
      ([Reply (stamp MessageType.Accepted (header m)) (RAccepted 0 0)], expected_sequence c + 1, drop 64 ?bs)"
    using assms(7,8) by (simp add: spec_client.simps [of _ _ ?bs] sp gateway_rule_def Let_def del: drop_append)
  moreover have "header_status (header m) = DecodeStatus.Ok" using assms(6) by (rule spec_request_status)
  ultimately show ?thesis
    using on_client_received [OF server_reachable_inv [OF assms(1)] assms(2-4)] by fastforce
qed

theorem logout_keeps_connection_witness:
  "\<exists>s bytes s' c. server_reachable 4 3 s \<and> on_client 7 True (Received bytes) s = Some s' \<and>
     map DecodedMessage.type (fst (spec_messages bytes)) = [MessageType.Logout] \<and> map_of (connections s') 7 = Some c"
proof -
  obtain s where r: "server_reachable 4 3 s"
    and c: "map_of (connections s) 7 = Some (Connection_init 7 \<lparr>slot = 0, generation = 1\<rparr>)"
    using one_client by metis
  define h where "h = (default :: MessageHeader)\<lparr>message_type := MessageType.Logout, payload_length := 32, sequence_number := 1\<rparr>"
  define bytes where "bytes = header_bytes h @ replicate 32 0"
  have len: "length bytes = 64" by (simp add: bytes_def)
  have "read_header (take 64 bytes) = h" using len by (simp add: bytes_def h_def read_header_bytes)
  then have m: "spec_request (take 64 bytes) default = Some ((default :: DecodedMessage)\<lparr>header := h, DecodedMessage.type := MessageType.Logout\<rparr>)"
    by (simp add: spec_request_def h_def header_status_def validate_header_def Let_def)
  then have "spec_parse bytes default = (Status.MessageReady, (default :: DecodedMessage)\<lparr>header := h, DecodedMessage.type := MessageType.Logout\<rparr>, [])"
    using len by (simp add: spec_parse_def)
  then have "map DecodedMessage.type (fst (spec_messages bytes)) = [MessageType.Logout]"
    by (simp add: spec_messages.simps [of bytes] spec_messages.simps [of "[]"] spec_parse_def)
  moreover have "bytes \<noteq> []" using len by auto
  ultimately show ?thesis
    using logout_keeps_connection [OF r c, of bytes] m r len by (force simp: Connection_init_def h_def)
qed

text \<open>
  C34. Neither does a protocol error. On a frame with an unacceptable header the handler sends nothing and
  closes nothing: the connection stays open with the frame at the head of its parser, where every later chunk
  finds it again, until the parser's 4096 bytes are exhausted and a chunk no longer fits.
\<close>

theorem protocol_error_keeps_connection:
  assumes "server_reachable event_fd listen_fd s" and "map_of (connections s) f = Some c" and "bytes \<noteq> []"
    and "64 \<le> length (pending (parser c)) + length bytes"
    and "spec_request (take 64 (pending (parser c) @ bytes)) default = None"
  shows "if length (pending (parser c)) + length bytes \<le> 4096
         then \<exists>s' p. on_client f True (Received bytes) s = Some s' \<and> io s' = io s \<and> slots s' = slots s \<and>
                v3_contents (cmd_queue s') = v3_contents (cmd_queue s) \<and>
                map_of (connections s') f = Some (c\<lparr>parser := p\<rparr>) \<and> pending p = pending (parser c) @ bytes
         else \<exists>s'. on_client f True (Received bytes) s = Some s' \<and> io s' = io s @ [Epoll_Remove f, Close f] \<and>
                map_of (connections s') f = None"
proof (cases "length (pending (parser c)) + length bytes \<le> 4096")
  case True
  let ?bs = "pending (parser c) @ bytes"
  have "spec_client (token c) (expected_sequence c) ?bs = ([], expected_sequence c, ?bs)"
    using assms(4,5) by (simp add: spec_client.simps [of _ _ ?bs] spec_parse_def)
  then show ?thesis
    using True on_client_received [OF server_reachable_inv [OF assms(1)] assms(2,3) True] by fastforce
next
  case False
  have inv: "server_inv s" using server_reachable_inv [OF assms(1)] .
  have ok: "conn_ok f c" using server_inv_conn [OF inv assms(2)] .
  then have "append_bytes kParserCapacity (parser c) bytes = Some (False, parser c)"
    using append_bytes_rejects [of kParserCapacity "parser c" bytes] False by (simp add: conn_ok_def capacities)
  then have eq: "on_client f True (Received bytes) s = close_conn f (put_conn f (c\<lparr>parser := parser c\<rparr>) s)"
    using assms(2,3) by (simp add: on_client_def Let_def)
  have "server_inv (put_conn f (c\<lparr>parser := parser c\<rparr>) s)"
    using server_inv_put [OF inv assms(2), of "c\<lparr>parser := parser c\<rparr>"] ok by simp
  from close_conn_inv [OF this, of f] show ?thesis using eq False by (metis fun_upd_same put_conn_sel(6))
qed

theorem protocol_error_keeps_connection_witness:
  "\<exists>s s' c. server_reachable 4 3 s \<and> on_client 7 True (Received (replicate 64 0)) s = Some s' \<and> io s' = io s \<and>
     map_of (connections s') 7 = Some c"
proof -
  obtain s where r: "server_reachable 4 3 s"
    and c: "map_of (connections s) 7 = Some (Connection_init 7 \<lparr>slot = 0, generation = 1\<rparr>)"
    using one_client by metis
  have p: "pending (parser (Connection_init 7 \<lparr>slot = 0, generation = 1\<rparr>)) = []" by (simp add: Connection_init_def)
  have bad: "spec_request (replicate 64 0) default = None" by code_simp
  show ?thesis using protocol_error_keeps_connection [OF r c, of "replicate 64 0"] r bad by (auto simp: p)
qed

text \<open>
  C35. Closing a connection can cut off another one. Slots are handed out round robin without looking whether
  they are in use, so two open connections can have the same slot; when the older one is closed, the slot is
  cleared although it belongs to the newer one: that connection stays open, and from then on every
  response of its session is silently dropped.
\<close>

theorem slot_reuse_cuts_live_session:
  assumes "server_inv s" and "map_of (connections s) f = Some c" and "map_of (connections s) g = Some d" and "f \<noteq> g"
    and "slot (token c) = slot (token d)" and "EngineResponse.session rsp = token d"
  shows "\<exists>s'. close_conn f s = Some s' \<and> map_of (connections s') g = Some d \<and> on_response sent rsp s' = Some s'"
proof -
  obtain s' where s': "close_conn f s = Some s'" "map_of (connections s') = (map_of (connections s))(f := None)"
    using close_conn_inv [OF assms(1)] by metis
  have "token_ok (token c)" using server_inv_conn [OF assms(1,2)] by (simp add: conn_ok_def)
  then have "on_response sent rsp s' = Some s'"
    using close_conn_frees_slot [OF assms(1,2) s'(1)] assms(5,6)
    by (intro on_response_dropped) (simp_all add: token_ok_def)
  then show ?thesis using s' assms(3,4) by simp
qed

theorem slot_reuse_cuts_live_session_witness:
  "\<exists>s s'. server_inv s \<and> close_conn 5 s = Some s' \<and>
     map_of (connections s') 6 = Some (Connection_init 6 \<lparr>slot = 0, generation = 2\<rparr>) \<and>
     on_response 64 (default\<lparr>EngineResponse.session := \<lparr>slot = 0, generation = 2\<rparr>\<rparr>) s' = Some s'"
proof -
  define s where "s = Server_init\<lparr>slots := (slots Server_init)[0 := \<lparr>SessionSlot.fd = 6, SessionSlot.generation = 2\<rparr>],
    connections := [(6, Connection_init 6 \<lparr>slot = 0, generation = 2\<rparr>), (5, Connection_init 5 \<lparr>slot = 0, generation = 1\<rparr>)]\<rparr>"
  have "conn_ok f (Connection_init f \<lparr>slot = 0, generation = g\<rparr>)" for f g
    using parser_inv_init [OF capacities(2)] by (simp add: conn_ok_def Connection_init_def token_ok_def)
  then have inv: "server_inv s"
    using server_inv_init
    by (auto simp: server_inv_def s_def routed_def Connection_init_def Server_init_def capacities nth_list_update split: if_splits)
  show ?thesis
    using slot_reuse_cuts_live_session [OF inv, of 5 "Connection_init 5 \<lparr>slot = 0, generation = 1\<rparr>" 6
        "Connection_init 6 \<lparr>slot = 0, generation = 2\<rparr>" "default\<lparr>EngineResponse.session := \<lparr>slot = 0, generation = 2\<rparr>\<rparr>" 64] inv
    by (force simp: s_def Connection_init_def)
qed

end
