(* ===== verification/Event_Loop.thy ===== *)
theory Event_Loop
  imports Epoll_Server
begin

text \<open>
  \<^verbatim>\<open>main\<close> and \<^verbatim>\<open>matching_thread\<close> of \<^verbatim>\<open>epoll_server.cpp\<close> as two threads whose steps interleave: one step is one
  round of a loop of the gateway (a response drained, a frame parsed, an event begun) or one queue operation or
  system call of the matching thread. \<open>Epoll_Server\<close> runs each handler and each matching round in one
  piece; here the matching thread also moves between the rounds of a handler. A queue operation is one step, with
  the result it has in \<open>Spsc\<close>: \<open>Spsc_Concurrent\<close> shows that the queue class used delivers in order and without loss under
  the weak memory, but there a refusal may rest on a stale index. Here it is exact, as the kernel's \<^verbatim>\<open>eventfd\<close>
  orders the push before the notification and the notification before the pop.

  Shown are: no step is undefined, no response is left without a wake-up, every handler ends although
  the matching thread keeps producing, and when the shutdown sequence ends and when it does not.
\<close>

section \<open>The two threads\<close>

text \<open>
  The point the gateway has reached. \<open>Handling evs\<close> is the loop over the event array with the entries
  that are left, \<open>Draining\<close> the loop over the response queue, \<open>Parsing\<close> the loop over the
  received frames of a descriptor with \<^verbatim>\<open>should_close\<close>; then the three stages of the shutdown.
\<close>

datatype main_pc =
    Polling
  | Handling "event list"
  | Draining "nat \<Rightarrow> int" nat EngineResponse "event list"
  | Parsing int bool "event list"
  | Stopping
  | Joining
  | Exited

datatype engine_pc = Popping | Responding EngineResponse | Notifying | Finished

record System =
  server :: Server
  counter :: u64
  main_at :: main_pc
  engine_at :: engine_pc

definition System_init :: System where
  "System_init = \<lparr>server = Server_init, counter = 0, main_at = Polling, engine_at = Popping\<rparr>"

text \<open>
  One round of each loop of the event handlers: whether the loop goes on, and the new state. \<open>client_read\<close> is
  what comes before the loop over the frames; its truth value tells whether that loop is entered.
\<close>

definition drain_round :: "int \<Rightarrow> EngineResponse \<Rightarrow> Server \<Rightarrow> (bool \<times> EngineResponse \<times> Server) option" where
  "drain_round sent rsp s = do {
     (ok, rsp, q) \<leftarrow> v3_pop kQueueCapacity (rsp_queue s) rsp;
     let s = s\<lparr>rsp_queue := q\<rparr>;
     if \<not> ok then Some (False, rsp, s)
     else do {
       s \<leftarrow> on_response sent rsp s;
       Some (True, rsp, s)
     }
   }"

definition client_read :: "int \<Rightarrow> bool \<Rightarrow> recv_result \<Rightarrow> Server \<Rightarrow> (bool \<times> Server) option" where
  "client_read f epollin result s =
     (if \<not> epollin then Some (False, s)
      else case map_of (connections s) f of
        None \<Rightarrow> Some (False, s)
      | Some conn \<Rightarrow> (case result of
          Would_Block \<Rightarrow> Some (False, s)
        | Recv_Error \<Rightarrow> map_option (Pair False) (close_conn f s)
        | Received bytes \<Rightarrow>
            if bytes = [] then map_option (Pair False) (close_conn f s)
            else do {
              (ok, p) \<leftarrow> append_bytes kParserCapacity (parser conn) bytes;
              let s = put_conn f (conn\<lparr>parser := p\<rparr>) s;
              if \<not> ok then map_option (Pair False) (close_conn f s) else Some (True, s)
            }))"

definition client_round :: "int \<Rightarrow> bool \<Rightarrow> Server \<Rightarrow> (bool \<times> bool \<times> Server) option" where
  "client_round f should_close s = do {
     conn \<leftarrow> map_of (connections s) f;
     (status, msg, p) \<leftarrow> try_parse kParserCapacity (parser conn) default;
     let s = put_conn f (conn\<lparr>parser := p\<rparr>) s;
     if status = Status.NeedMoreData then Some (False, should_close, s)
     else if status = Status.ProtocolError then Some (False, True, s)
     else on_message f should_close msg s
   }"

text \<open>What \<^verbatim>\<open>epoll_wait\<close> returns: \<^verbatim>\<open>EINTR\<close>, another error, or an array of events.\<close>

datatype wait_result = Interrupted | Wait_Failed | Ready "event list"

definition close_all :: "int \<Rightarrow> int \<Rightarrow> int \<Rightarrow> Server \<Rightarrow> Server" where
  "close_all epoll_fd event_fd listen_fd s =
     perform (map Close (map fst (connections s)) @ [Close epoll_fd, Close event_fd, Close listen_fd]) s"

definition shutdown_command :: EngineCommand where
  "shutdown_command = (default :: EngineCommand)\<lparr>EngineCommand.type := EngineCommandType.Shutdown\<rparr>"

definition send_shutdown :: "Server \<Rightarrow> Server option" where
  "send_shutdown s = do {
     (_, q) \<leftarrow> v3_push kQueueCapacity (cmd_queue s) shutdown_command;
     Some (s\<lparr>cmd_queue := q\<rparr>)
   }"

text \<open>
  A step of \<^verbatim>\<open>main\<close>. Reading \<^verbatim>\<open>event_fd\<close> resets its counter; \<^verbatim>\<open>matching.join()\<close> waits for the other thread.
\<close>

definition main_step :: "int \<Rightarrow> int \<Rightarrow> int \<Rightarrow> wait_result \<Rightarrow> System \<Rightarrow> System option" where
  "main_step epoll_fd event_fd listen_fd w x =
     (case main_at x of
        Polling \<Rightarrow>
          (case w of
             Interrupted \<Rightarrow> Some x
           | Wait_Failed \<Rightarrow> Some (x\<lparr>main_at := Stopping\<rparr>)
           | Ready evs \<Rightarrow> Some (x\<lparr>main_at := Handling evs\<rparr>))
      | Handling [] \<Rightarrow> Some (x\<lparr>main_at := Polling\<rparr>)
      | Handling (ev # evs) \<Rightarrow>
          if ev_fd ev = event_fd
          then Some (x\<lparr>counter := 0, main_at := Draining (ev_sends ev) 0 default evs\<rparr>)
          else do {
            s \<leftarrow> (if ev_fd ev = listen_fd then accept_clients (ev_accepts ev) (server x) else Some (server x));
            (loop, s) \<leftarrow> client_read (ev_fd ev) (ev_in ev) (ev_recv ev) s;
            Some (x\<lparr>server := s, main_at := (if loop then Parsing (ev_fd ev) False evs else Handling evs)\<rparr>)
          }
      | Draining sends k rsp evs \<Rightarrow> do {
          (more, rsp, s) \<leftarrow> drain_round (sends k) rsp (server x);
          Some (x\<lparr>server := s, main_at := (if more then Draining sends (Suc k) rsp evs else Handling evs)\<rparr>)
        }
      | Parsing f should_close evs \<Rightarrow> do {
          (more, should_close, s) \<leftarrow> client_round f should_close (server x);
          Some (x\<lparr>server := s, main_at := (if more then Parsing f should_close evs else Handling evs)\<rparr>)
        }
      | Stopping \<Rightarrow> map_option (\<lambda>s. x\<lparr>server := s, main_at := Joining\<rparr>) (send_shutdown (server x))
      | Joining \<Rightarrow>
          if engine_at x = Finished
          then Some (x\<lparr>server := close_all epoll_fd event_fd listen_fd (server x), main_at := Exited\<rparr>)
          else Some x
      | Exited \<Rightarrow> Some x)"

text \<open>
  A step of the matching thread; nobody clears \<^verbatim>\<open>engine_running\<close>, so its loop is left through a
  \<^verbatim>\<open>Shutdown\<close> only. \<^verbatim>\<open>write\<close> adds one to the counter of the \<^verbatim>\<open>eventfd\<close>, unless it is at its maximum.
\<close>

definition engine_step :: "System \<Rightarrow> System option" where
  "engine_step x =
     (case engine_at x of
        Popping \<Rightarrow> do {
          (ok, cmd, q) \<leftarrow> v3_pop kQueueCapacity (cmd_queue (server x)) default;
          let x = x\<lparr>server := (server x)\<lparr>cmd_queue := q\<rparr>\<rparr>;
          if \<not> ok then Some x
          else if EngineCommand.type cmd = EngineCommandType.Shutdown then Some (x\<lparr>engine_at := Finished\<rparr>)
          else case matching_response cmd of
            None \<Rightarrow> Some x
          | Some rsp \<Rightarrow> Some (x\<lparr>engine_at := Responding rsp\<rparr>)
        }
      | Responding rsp \<Rightarrow> do {
          (_, q) \<leftarrow> v3_push kQueueCapacity (rsp_queue (server x)) rsp;
          Some (x\<lparr>server := (server x)\<lparr>rsp_queue := q\<rparr>, engine_at := Notifying\<rparr>)
        }
      | Notifying \<Rightarrow>
          Some (x\<lparr>counter := (if counter x < 0xFFFFFFFFFFFFFFFE then counter x + 1 else counter x),
                  engine_at := Popping\<rparr>)
      | Finished \<Rightarrow> Some x)"

text \<open>An executable schedule: who moves, with what \<^verbatim>\<open>epoll_wait\<close> returns if it is called.\<close>

datatype actor = Gateway wait_result | Engine

fun system_step :: "int \<Rightarrow> int \<Rightarrow> int \<Rightarrow> actor \<Rightarrow> System \<Rightarrow> System option" where
  "system_step epoll_fd event_fd listen_fd (Gateway w) x = main_step epoll_fd event_fd listen_fd w x"
| "system_step epoll_fd event_fd listen_fd Engine x = engine_step x"

fun run_system :: "int \<Rightarrow> int \<Rightarrow> int \<Rightarrow> actor list \<Rightarrow> System \<Rightarrow> System option" where
  "run_system epoll_fd event_fd listen_fd [] x = Some x"
| "run_system epoll_fd event_fd listen_fd (a # as) x = do {
     x \<leftarrow> system_step epoll_fd event_fd listen_fd a x;
     run_system epoll_fd event_fd listen_fd as x
   }"

fun is_gateway :: "actor \<Rightarrow> bool" where
  "is_gateway (Gateway _) \<longleftrightarrow> True"
| "is_gateway Engine \<longleftrightarrow> False"

text \<open>The kernel hands out descriptors that are not open when the gateway accepts.\<close>

definition accepts_fresh :: "int \<Rightarrow> int \<Rightarrow> System \<Rightarrow> bool" where
  "accepts_fresh event_fd listen_fd x =
     (case main_at x of
        Handling (ev # _) \<Rightarrow> ev_fd ev = event_fd \<or> ev_fd ev \<noteq> listen_fd \<or> fresh_fds (ev_accepts ev) (server x)
      | _ \<Rightarrow> True)"

inductive system_reachable :: "int \<Rightarrow> int \<Rightarrow> int \<Rightarrow> System \<Rightarrow> bool" for epoll_fd event_fd listen_fd where
  start: "system_reachable epoll_fd event_fd listen_fd System_init"
| gateway: "system_reachable epoll_fd event_fd listen_fd x'"
    if "system_reachable epoll_fd event_fd listen_fd x" and "accepts_fresh event_fd listen_fd x"
    and "main_step epoll_fd event_fd listen_fd w x = Some x'"
| engine: "system_reachable epoll_fd event_fd listen_fd x'"
    if "system_reachable epoll_fd event_fd listen_fd x" and "engine_step x = Some x'"

section \<open>The rounds are those of the handlers\<close>

lemma drain_responses_round:
  "drain_responses (Suc n) sends k rsp s = do {
     (more, rsp, s) \<leftarrow> drain_round (sends k) rsp s;
     if more then drain_responses n sends (Suc k) rsp s else Some s
   }"
  by (simp add: drain_round_def Let_def split: bind_splits)

lemma client_loop_round:
  "client_loop (Suc n) f should_close s = do {
     (more, should_close, s) \<leftarrow> client_round f should_close s;
     if more then client_loop n f should_close s else Some s
   }"
  by (simp add: client_round_def Let_def split: bind_splits)

lemma on_client_read:
  "on_client f epollin result s = do {
     (loop, s) \<leftarrow> client_read f epollin result s;
     if loop then client_loop 65 f False s else Some s
   }"
  by (simp add: on_client_def client_read_def Let_def map_option_case split: bind_splits option.splits recv_result.splits)

lemma shutdown_server_stages:
  "shutdown_server epoll_fd event_fd listen_fd s = map_option (close_all epoll_fd event_fd listen_fd) (send_shutdown s)"
  by (simp add: shutdown_server_def send_shutdown_def close_all_def shutdown_command_def map_option_case split: bind_splits)

section \<open>What the gateway does to the queues\<close>

text \<open>The gateway only appends to the command queue, and no \<^verbatim>\<open>Shutdown\<close> before its own end.\<close>

definition commands :: "Server \<Rightarrow> EngineCommand list" where
  "commands s = v3_contents (cmd_queue s)"

definition responses :: "Server \<Rightarrow> EngineResponse list" where
  "responses s = v3_contents (rsp_queue s)"

definition is_shutdown :: "EngineCommand \<Rightarrow> bool" where
  "is_shutdown c \<longleftrightarrow> EngineCommand.type c = EngineCommandType.Shutdown"

definition submits :: "Server \<Rightarrow> EngineCommand list \<Rightarrow> Server \<Rightarrow> bool" where
  "submits s cs s' \<longleftrightarrow> commands s' = commands s @ cs \<and> (\<forall>c \<in> set cs. \<not> is_shutdown c)"

lemma submits_refl [simp]: "submits s [] s"
  by (simp add: submits_def)

lemma submits_same: "cmd_queue s' = cmd_queue s \<Longrightarrow> submits s [] s'"
  by (simp add: submits_def commands_def)

lemma submits_trans: "submits s cs t \<Longrightarrow> submits t ds u \<Longrightarrow> submits s (cs @ ds) u"
  by (auto simp: submits_def)

lemma close_conn_commands:
  assumes inv: "server_inv s" and conn: "map_of (connections s) f = Some c" and step: "close_conn f s = Some s'"
  shows "commands s' = commands s @ (if length (commands s) < 4095
    then [(default :: EngineCommand)\<lparr>EngineCommand.type := EngineCommandType.SessionClosed, EngineCommand.session := token c\<rparr>]
    else [])"
proof -
  let ?cmd = "(default :: EngineCommand)\<lparr>EngineCommand.type := EngineCommandType.SessionClosed,
    EngineCommand.session := token c\<rparr>"
  have "token_ok (EngineCommand.session ?cmd)"
    using server_inv_conn [OF inv conn] by (simp add: conn_ok_def)
  then obtain q where q: "v3_push kQueueCapacity (cmd_queue s) ?cmd = Some (length (v3_contents (cmd_queue s)) < 4095, q)"
    "v3_contents q = v3_contents (cmd_queue s) @ (if length (v3_contents (cmd_queue s)) < 4095 then [?cmd] else [])"
    using server_inv_cmd_queue [OF inv, of ?cmd] by blast
  have "cmd_queue s' = q" using step conn q(1) by (auto simp: close_conn_def Let_def split: bind_splits)
  then show ?thesis using q(2) by (simp add: commands_def)
qed

lemma close_conn_submits:
  assumes inv: "server_inv s" and step: "close_conn f s = Some s'"
  shows "\<exists>cs. submits s cs s' \<and> engine_answers cs = []"
proof (cases "map_of (connections s) f")
  case None
  then have "cmd_queue s' = cmd_queue s" using step by (auto simp: close_conn_def)
  then show ?thesis using submits_same by (intro exI [of _ "[]"]) simp
next
  case (Some c)
  show ?thesis using close_conn_commands [OF inv Some step]
    by (intro exI [of _ "if length (commands s) < 4095 then [(default :: EngineCommand)\<lparr>EngineCommand.type :=
        EngineCommandType.SessionClosed, EngineCommand.session := token c\<rparr>] else []"])
      (simp add: submits_def is_shutdown_def matching_response_def)
qed

lemma on_response_submits:
  assumes inv: "server_inv s" and step: "on_response sent rsp s = Some s'"
  shows "\<exists>cs. submits s cs s' \<and> engine_answers cs = []"
proof -
  obtain sl where sl: "span_get (slots s) (unat (slot (EngineResponse.session rsp))) = Some sl"
    using step by (auto simp: on_response_def split: bind_splits)
  show ?thesis
  proof (cases "SessionSlot.generation sl \<noteq> SessionToken.generation (EngineResponse.session rsp) \<or> SessionSlot.fd sl < 0")
    case True
    then have "s' = s" using step sl by (simp add: on_response_def)
    then show ?thesis by (intro exI [of _ "[]"]) simp
  next
    case False
    then obtain frame where "encode_response rsp (replicate kFrameSize 0) = Some frame"
      using step sl by (auto simp: on_response_def split: bind_splits)
    then have s': "(if sent \<noteq> int (length frame) then close_conn (SessionSlot.fd sl) (perform [Send (SessionSlot.fd sl) frame] s)
        else Some (perform [Send (SessionSlot.fd sl) frame] s)) = Some s'"
      using step sl False by (simp add: on_response_def Let_def)
    have inv': "server_inv (perform [Send (SessionSlot.fd sl) frame] s)" using inv by simp
    show ?thesis
    proof (cases "sent = int (length frame)")
      case True
      then have "cmd_queue s' = cmd_queue s" using s' by auto
      then show ?thesis using submits_same by (intro exI [of _ "[]"]) simp
    next
      case False
      then show ?thesis using close_conn_submits [OF inv', of "SessionSlot.fd sl" s'] s' by (simp add: submits_def commands_def)
    qed
  qed
qed

text \<open>One response drained: the queue loses its head, and the matching thread gets no work from it.\<close>

lemma drain_round_inv:
  assumes inv: "server_inv s"
  shows "\<exists>rsp' s' cs. drain_round sent rsp s = Some (responses s \<noteq> [], rsp', s') \<and> server_inv s' \<and>
           responses s' = tl (responses s) \<and> submits s cs s' \<and> engine_answers cs = []"
proof -
  have vi: "v3_inv kQueueCapacity (rsp_queue s)" using inv by (simp add: server_inv_def)
  obtain q where q: "v3_inv kQueueCapacity q" "v3_contents q = tl (responses s)"
    "v3_pop kQueueCapacity (rsp_queue s) rsp = Some (responses s \<noteq> [],
       case responses s of [] \<Rightarrow> rsp | x # _ \<Rightarrow> x, q)"
    using v3_fifo.pop_any [OF vi] unfolding responses_def by blast
  let ?s = "s\<lparr>rsp_queue := q\<rparr>"
  have toks: "\<forall>r \<in> set (responses s). token_ok (EngineResponse.session r)"
    using inv by (simp add: server_inv_def responses_def)
  then have "\<forall>r \<in> set (v3_contents q). token_ok (EngineResponse.session r)"
    using q(2) by (cases "responses s") auto
  then have inv': "server_inv ?s" using server_inv_rsp_queue [OF inv q(1)] by blast
  show ?thesis
  proof (cases "responses s")
    case Nil
    then have "drain_round sent rsp s = Some (responses s \<noteq> [], rsp, ?s)" using q by (simp add: drain_round_def Let_def)
    then show ?thesis using inv' q(2) submits_same [of ?s s]
      by (intro exI [of _ rsp] exI [of _ ?s] exI [of _ "[]"]) (simp add: responses_def)
  next
    case (Cons x xs)
    then have "token_ok (EngineResponse.session x)" using toks by simp
    then obtain s2 where s2: "on_response sent x ?s = Some s2" "server_inv s2" "rsp_queue s2 = q"
      using on_response_inv [OF inv', of x sent] by auto
    obtain cs where cs: "submits ?s cs s2" "engine_answers cs = []" using on_response_submits [OF inv' s2(1)] by blast
    have "drain_round sent rsp s = Some (responses s \<noteq> [], x, s2)" using s2(1) q(3) Cons by (simp add: drain_round_def Let_def)
    moreover have "submits s cs s2" using cs(1) by (simp add: submits_def commands_def)
    ultimately show ?thesis using s2 q(2) cs(2) by (intro exI [of _ x] exI [of _ s2] exI [of _ cs]) (simp add: responses_def)
  qed
qed

lemma client_read_inv:
  assumes inv: "server_inv s"
  shows "\<exists>loop s' cs. client_read f epollin result s = Some (loop, s') \<and> server_inv s' \<and> rsp_queue s' = rsp_queue s \<and>
           (loop \<longrightarrow> map_of (connections s') f \<noteq> None) \<and> submits s cs s'"
proof (cases "epollin \<and> map_of (connections s) f \<noteq> None")
  case False
  then have "client_read f epollin result s = Some (False, s)" by (auto simp: client_read_def)
  then show ?thesis using inv by (intro exI [of _ False] exI [of _ s] exI [of _ "[]"]) simp
next
  case True
  then obtain c where epollin: epollin and conn: "map_of (connections s) f = Some c" by auto
  have ok: "conn_ok f c" using server_inv_conn [OF inv conn] .
  have closed: ?thesis if "client_read f epollin result s = map_option (Pair False) (close_conn f t)"
    and t: "server_inv t" "rsp_queue t = rsp_queue s" "cmd_queue t = cmd_queue s" for t
  proof -
    obtain s' where s': "close_conn f t = Some s'" "server_inv s'" "rsp_queue s' = rsp_queue t"
      using close_conn_inv [OF t(1), of f] by metis
    obtain cs where "submits t cs s'" using close_conn_submits [OF t(1) s'(1)] by blast
    then have "submits s cs s'" using t(3) by (simp add: submits_def commands_def)
    then show ?thesis using that(1) s' t(2) by (intro exI [of _ False] exI [of _ s'] exI [of _ cs]) simp
  qed
  show ?thesis
  proof (cases "\<exists>bytes. result = Received bytes \<and> bytes \<noteq> []")
    case False
    then consider "result = Would_Block" | "client_read f epollin result s = map_option (Pair False) (close_conn f s)"
      using epollin conn by (cases result) (auto simp: client_read_def)
    then show ?thesis
    proof cases
      case 1
      then have "client_read f epollin result s = Some (False, s)" using epollin conn by (simp add: client_read_def)
      then show ?thesis using inv by (intro exI [of _ False] exI [of _ s] exI [of _ "[]"]) simp
    next
      case 2
      then show ?thesis using inv by (rule closed) simp_all
    qed
  next
    case True
    then obtain bytes where bytes: "result = Received bytes" "bytes \<noteq> []" by blast
    show ?thesis
    proof (cases "length (pending (parser c)) + length bytes \<le> 4096")
      case True
      then obtain p where p: "append_bytes kParserCapacity (parser c) bytes = Some (True, p)" "parser_inv kParserCapacity p"
        using fp.append_fits [of kParserCapacity "parser c" bytes] ok by (auto simp: conn_ok_def capacities)
      let ?s = "put_conn f (c\<lparr>parser := p\<rparr>) s"
      have "server_inv ?s" using server_inv_put [OF inv conn, of "c\<lparr>parser := p\<rparr>"] ok p(2) by (simp add: conn_ok_def)
      then show ?thesis using epollin conn bytes p(1) submits_same [of ?s s]
        by (intro exI [of _ True] exI [of _ ?s] exI [of _ "[]"]) (simp add: client_read_def Let_def)
    next
      case False
      then have "append_bytes kParserCapacity (parser c) bytes = Some (False, parser c)"
        using append_bytes_rejects [of kParserCapacity "parser c" bytes] ok by (simp add: conn_ok_def capacities)
      then have "client_read f epollin result s = map_option (Pair False) (close_conn f (put_conn f (c\<lparr>parser := parser c\<rparr>) s))"
        using epollin conn bytes by (simp add: client_read_def Let_def)
      moreover have "server_inv (put_conn f (c\<lparr>parser := parser c\<rparr>) s)"
        using server_inv_put [OF inv conn, of "c\<lparr>parser := parser c\<rparr>"] ok by simp
      ultimately show ?thesis by (rule closed) simp_all
    qed
  qed
qed

text \<open>A round of the frame loop: it stays in the loop only if it consumed a whole frame.\<close>

definition frames_left :: "int \<Rightarrow> Server \<Rightarrow> nat" where
  "frames_left f s = (case map_of (connections s) f of None \<Rightarrow> 0 | Some c \<Rightarrow> length (pending (parser c)) div 64)"

lemma gateway_rule_command: "fst (gateway_rule tok n msg) = Forward c \<Longrightarrow> \<not> is_shutdown c"
  by (auto simp: gateway_rule_def command_of_def is_shutdown_def Let_def split: if_splits MessageType.splits)

lemma realises_submits:
  assumes "realises f x s s'" and "\<And>c. x = Forward c \<Longrightarrow> \<not> is_shutdown c"
  shows "\<exists>cs. submits s cs s'"
proof (cases x)
  case (Reply h r)
  then show ?thesis using assms(1) submits_same by auto
next
  case (Forward c)
  then show ?thesis using assms
    by (intro exI [of _ "if length (commands s) < 4095 then [c] else []"]) (simp add: submits_def commands_def)
qed

lemma client_round_inv:
  assumes inv: "server_inv s" and open_f: "map_of (connections s) f \<noteq> None"
  shows "\<exists>more stop s' cs. client_round f False s = Some (more, stop, s') \<and> server_inv s' \<and> rsp_queue s' = rsp_queue s \<and>
           map_of (connections s') f \<noteq> None \<and> submits s cs s' \<and>
           (more \<longrightarrow> \<not> stop \<and> frames_left f s' < frames_left f s)"
proof -
  obtain c where conn: "map_of (connections s) f = Some c" using open_f by auto
  have ok: "conn_ok f c" by (rule server_inv_conn [OF inv conn])
  then have pi: "parser_inv kParserCapacity (parser c)" by (simp add: conn_ok_def)
  obtain st m p where tp: "try_parse kParserCapacity (parser c) default = Some (st, m, p)" "parser_inv kParserCapacity p"
    and sp: "spec_parse (pending (parser c)) default = (st, m, pending p)"
    using fp.parse_queued [OF pi] by metis
  define c1 where "c1 = c\<lparr>parser := p\<rparr>"
  define s1 where "s1 = put_conn f c1 s"
  have ok1: "conn_ok f c1" using ok tp(2) by (simp add: conn_ok_def c1_def)
  have inv1: "server_inv s1" unfolding s1_def
    using server_inv_put [OF inv conn ok1] by (simp add: c1_def)
  have conn1: "map_of (connections s1) f = Some c1" by (simp add: s1_def)
  have sub1: "submits s [] s1" by (rule submits_same) (simp add: s1_def)
  note step = client_round_def conn tp(1) Let_def
  show ?thesis
  proof (cases "st = Status.MessageReady")
    case False
    then have "st = Status.NeedMoreData \<or> st = Status.ProtocolError"
      using sp by (auto simp: spec_parse_def split: if_splits option.splits)
    then have "client_round f False s = Some (False, st = Status.ProtocolError, s1)"
      by (auto simp: step s1_def c1_def)
    then show ?thesis using inv1 conn1 sub1 by (auto simp: s1_def)
  next
    case True
    have "pending p = drop 64 (pending (parser c))" and long: "64 \<le> length (pending (parser c))"
      using sp True by (auto simp: spec_parse_def split: if_splits option.splits)
    then have "length (pending p) = length (pending (parser c)) - 64" by (metis length_drop)
    then have less: "length (pending p) div 64 < length (pending (parser c)) div 64" using long by (simp add: div_if)
    obtain s2 where s2: "on_message f False m s1 = Some (snd (snd (gateway_rule (token c1) (expected_sequence c1) m)),
         \<not> snd (snd (gateway_rule (token c1) (expected_sequence c1) m)), s2)" "server_inv s2"
      "map_of (connections s2) = (map_of (connections s1))(f \<mapsto> c1\<lparr>expected_sequence :=
         fst (snd (gateway_rule (token c1) (expected_sequence c1) m))\<rparr>)"
      "realises f (fst (gateway_rule (token c1) (expected_sequence c1) m)) s1 s2" "rsp_queue s2 = rsp_queue s1"
      using on_message_rule [OF inv1 conn1, of m] by blast
    have "\<exists>cs. submits s1 cs s2" by (rule realises_submits [OF s2(4)]) (rule gateway_rule_command)
    then obtain cs where cs: "submits s1 cs s2" by blast
    have "client_round f False s = on_message f False m s1" using True by (simp add: step s1_def c1_def)
    moreover have "frames_left f s2 < frames_left f s" using less s2(3) conn by (simp add: frames_left_def c1_def)
    moreover have "submits s cs s2" using submits_trans [OF sub1 cs] by simp
    moreover have "map_of (connections s2) f \<noteq> None" using s2(3) by simp
    ultimately show ?thesis using s2 by (auto simp: s1_def)
  qed
qed

section \<open>The invariant of the two threads\<close>

text \<open>
  A waiting response has a wake-up on its way: the counter of the \<^verbatim>\<open>eventfd\<close> is positive, or the matching
  thread is about to write it, or the gateway is in the loop that empties the queue.
\<close>

fun draining :: "main_pc \<Rightarrow> bool" where
  "draining (Draining _ _ _ _) \<longleftrightarrow> True"
| "draining _ \<longleftrightarrow> False"

definition wake_inv :: "System \<Rightarrow> bool" where
  "wake_inv x \<longleftrightarrow> (responses (server x) \<noteq> [] \<longrightarrow> 0 < counter x \<or> engine_at x = Notifying \<or> draining (main_at x))"

fun main_ok :: "main_pc \<Rightarrow> Server \<Rightarrow> engine_pc \<Rightarrow> bool" where
  "main_ok (Parsing f should_close _) s e \<longleftrightarrow> map_of (connections s) f \<noteq> None \<and> \<not> should_close"
| "main_ok Exited s e \<longleftrightarrow> e = Finished"
| "main_ok _ s e \<longleftrightarrow> True"

fun engine_ok :: "engine_pc \<Rightarrow> bool" where
  "engine_ok (Responding rsp) \<longleftrightarrow> token_ok (EngineResponse.session rsp)"
| "engine_ok _ \<longleftrightarrow> True"

text \<open>No \<^verbatim>\<open>Shutdown\<close> has been sent before \<^verbatim>\<open>main\<close> joins the matching thread.\<close>

fun stopped :: "main_pc \<Rightarrow> bool" where
  "stopped Joining \<longleftrightarrow> True"
| "stopped Exited \<longleftrightarrow> True"
| "stopped _ \<longleftrightarrow> False"

definition no_shutdown :: "System \<Rightarrow> bool" where
  "no_shutdown x \<longleftrightarrow> engine_at x \<noteq> Finished \<and> (\<forall>c \<in> set (commands (server x)). \<not> is_shutdown c)"

definition system_inv :: "System \<Rightarrow> bool" where
  "system_inv x \<longleftrightarrow> server_inv (server x) \<and> wake_inv x \<and> main_ok (main_at x) (server x) (engine_at x) \<and>
     engine_ok (engine_at x) \<and> (\<not> stopped (main_at x) \<longrightarrow> no_shutdown x)"

lemma system_inv_init: "system_inv System_init"
  using server_inv_init
  by (simp add: system_inv_def System_init_def wake_inv_def no_shutdown_def responses_def commands_def Server_init_def
      v3_fifo.init_contents [OF capacities(1)])

lemma server_inv_push_cmd:
  assumes inv: "server_inv s" and tok: "token_ok (EngineCommand.session c)"
  obtains q where "v3_push kQueueCapacity (cmd_queue s) c = Some (length (commands s) < 4095, q)"
    and "server_inv (s\<lparr>cmd_queue := q\<rparr>)"
    and "commands (s\<lparr>cmd_queue := q\<rparr>) = commands s @ (if length (commands s) < 4095 then [c] else [])"
  using server_inv_cmd_queue [OF inv tok] by (auto simp: commands_def)

lemma server_inv_pop_cmd:
  assumes inv: "server_inv s"
  obtains q where "v3_pop kQueueCapacity (cmd_queue s) d = Some (commands s \<noteq> [], case commands s of [] \<Rightarrow> d | c # _ \<Rightarrow> c, q)"
    and "server_inv (s\<lparr>cmd_queue := q\<rparr>)" and "commands (s\<lparr>cmd_queue := q\<rparr>) = tl (commands s)"
proof -
  have vi: "v3_inv kQueueCapacity (cmd_queue s)" using inv by (simp add: server_inv_def)
  obtain q where q: "v3_inv kQueueCapacity q" "v3_contents q = tl (commands s)"
    "v3_pop kQueueCapacity (cmd_queue s) d = Some (commands s \<noteq> [], case commands s of [] \<Rightarrow> d | c # _ \<Rightarrow> c, q)"
    using v3_fifo.pop_any [OF vi] unfolding commands_def by blast
  have "\<forall>c \<in> set (v3_contents q). token_ok (EngineCommand.session c)"
    using inv q(2) by (cases "commands s") (auto simp: server_inv_def commands_def)
  then have "server_inv (s\<lparr>cmd_queue := q\<rparr>)" using inv q(1) by (simp add: server_inv_def routed_def)
  then show thesis using that q by (simp add: commands_def)
qed

lemma server_inv_push_rsp:
  assumes inv: "server_inv s" and tok: "token_ok (EngineResponse.session r)"
  obtains q where "v3_push kQueueCapacity (rsp_queue s) r = Some (length (responses s) < 4095, q)"
    and "server_inv (s\<lparr>rsp_queue := q\<rparr>)"
    and "responses (s\<lparr>rsp_queue := q\<rparr>) = responses s @ (if length (responses s) < 4095 then [r] else [])"
proof -
  have vi: "v3_inv kQueueCapacity (rsp_queue s)" using inv by (simp add: server_inv_def)
  obtain q where q: "v3_push kQueueCapacity (rsp_queue s) r = Some (length (responses s) < unat kQueueCapacity - 1, q)"
    "v3_inv kQueueCapacity q" "v3_contents q =
       (if length (responses s) < unat kQueueCapacity - 1 then responses s @ [r] else responses s)"
    using v3_fifo.push_any [OF vi] unfolding responses_def by blast
  have "\<forall>r \<in> set (v3_contents q). token_ok (EngineResponse.session r)"
    using inv q(3) tok by (simp add: server_inv_def responses_def)
  then show thesis using that server_inv_rsp_queue [OF inv q(2)] q by (simp add: responses_def capacities)
qed

text \<open>The matching thread: its steps are defined and keep the invariant.\<close>

lemma engine_step_cases:
  assumes inv: "server_inv (server x)" and ok: "engine_ok (engine_at x)"
  obtains (idle) s where "engine_at x = Popping" and "commands (server x) = []" and "engine_step x = Some (x\<lparr>server := s\<rparr>)"
      and "server_inv s" and "commands s = []" and "rsp_queue s = rsp_queue (server x)"
      and "connections s = connections (server x)" and "io s = io (server x)"
  | (pop) c cs s where "engine_at x = Popping" and "commands (server x) = c # cs"
      and "engine_step x = Some (x\<lparr>server := s, engine_at := (if is_shutdown c then Finished
             else case matching_response c of None \<Rightarrow> Popping | Some r \<Rightarrow> Responding r)\<rparr>)"
      and "server_inv s" and "commands s = cs" and "rsp_queue s = rsp_queue (server x)"
      and "connections s = connections (server x)" and "io s = io (server x)" and "token_ok (EngineCommand.session c)"
  | (respond) r s where "engine_at x = Responding r" and "engine_step x = Some (x\<lparr>server := s, engine_at := Notifying\<rparr>)"
      and "server_inv s" and "cmd_queue s = cmd_queue (server x)"
      and "responses s = responses (server x) @ (if length (responses (server x)) < 4095 then [r] else [])"
      and "connections s = connections (server x)" and "io s = io (server x)"
  | (wake) n where "engine_at x = Notifying" and "engine_step x = Some (x\<lparr>counter := n, engine_at := Popping\<rparr>)" and "0 < n"
  | (finished) "engine_at x = Finished" and "engine_step x = Some x"
proof (cases "engine_at x")
  case Popping
  obtain q where q: "v3_pop kQueueCapacity (cmd_queue (server x)) default = Some (commands (server x) \<noteq> [],
      case commands (server x) of [] \<Rightarrow> default | c # _ \<Rightarrow> c, q)"
    "server_inv ((server x)\<lparr>cmd_queue := q\<rparr>)" "commands ((server x)\<lparr>cmd_queue := q\<rparr>) = tl (commands (server x))"
    using server_inv_pop_cmd [OF inv] by blast
  show thesis
  proof (cases "commands (server x)")
    case Nil
    then show thesis using idle [of "(server x)\<lparr>cmd_queue := q\<rparr>"] q Popping by (simp add: engine_step_def Let_def)
  next
    case (Cons c cs)
    then have "token_ok (EngineCommand.session c)" using inv by (simp add: server_inv_def commands_def)
    then show thesis using pop [of c cs "(server x)\<lparr>cmd_queue := q\<rparr>"] q Popping Cons
      by (cases "matching_response c"; cases "is_shutdown c") (simp_all add: engine_step_def is_shutdown_def)
  qed
next
  case (Responding r)
  then obtain q where "v3_push kQueueCapacity (rsp_queue (server x)) r = Some (length (responses (server x)) < 4095, q)"
    "server_inv ((server x)\<lparr>rsp_queue := q\<rparr>)"
    "responses ((server x)\<lparr>rsp_queue := q\<rparr>) = responses (server x) @ (if length (responses (server x)) < 4095 then [r] else [])"
    using server_inv_push_rsp [OF inv] ok by (metis engine_ok.simps(1))
  then show thesis using respond [of r "(server x)\<lparr>rsp_queue := q\<rparr>"] Responding by (simp add: engine_step_def)
next
  case Notifying
  have "counter x + 1 \<noteq> 0" if "counter x < 0xFFFFFFFFFFFFFFFE"
    using that by (metis add_eq_0_iff2 add.inverse_inverse linorder_not_less word_order.extremum)
  then have "0 < (if counter x < 0xFFFFFFFFFFFFFFFE then counter x + 1 else counter x)"
    by (auto simp: word_gt_0)
  then show thesis using wake Notifying by (simp add: engine_step_def)
next
  case Finished
  then show thesis using finished by (simp add: engine_step_def)
qed

lemma main_ok_engine: "main_ok m s e \<Longrightarrow> connections t = connections s \<Longrightarrow> (m = Exited \<Longrightarrow> e' = Finished) \<Longrightarrow> main_ok m t e'"
  by (cases m) auto

lemma engine_step_inv:
  assumes inv: "system_inv x"
  shows "\<exists>x'. engine_step x = Some x' \<and> system_inv x' \<and> main_at x' = main_at x"
proof -
  have si: "server_inv (server x)" and eo: "engine_ok (engine_at x)" and wi: "wake_inv x"
    and mo: "main_ok (main_at x) (server x) (engine_at x)"
    and ns: "\<not> stopped (main_at x) \<Longrightarrow> no_shutdown x" using inv by (auto simp: system_inv_def)
  from si eo show ?thesis
  proof (cases rule: engine_step_cases)
    case (idle s)
    then show ?thesis using wi mo eo ns
      by (auto simp: system_inv_def wake_inv_def responses_def no_shutdown_def intro: main_ok_engine)
  next
    case (pop c cs s)
    let ?e = "if is_shutdown c then Finished else case matching_response c of None \<Rightarrow> Popping | Some r \<Rightarrow> Responding r"
    have "engine_ok ?e" using pop(9) matching_response_session by (auto split: option.splits)
    moreover have "wake_inv (x\<lparr>server := s, engine_at := ?e\<rparr>)"
      using wi pop(1,6) by (auto simp: wake_inv_def responses_def)
    moreover have "main_ok (main_at x) s ?e" using mo pop(1,7) by (intro main_ok_engine [OF mo]) auto
    moreover have "\<not> stopped (main_at x) \<Longrightarrow> no_shutdown (x\<lparr>server := s, engine_at := ?e\<rparr>)"
      using ns pop(2,5) by (auto simp: no_shutdown_def split: option.splits)
    ultimately show ?thesis using pop(3,4) by (simp add: system_inv_def)
  next
    case (respond r s)
    then show ?thesis using wi mo ns
      by (auto simp: system_inv_def wake_inv_def commands_def no_shutdown_def intro: main_ok_engine)
  next
    case (wake n)
    have "main_ok (main_at x) (server x) Popping" using mo wake(1) by (intro main_ok_engine [OF mo]) auto
    then show ?thesis using wi ns wake si by (auto simp: system_inv_def wake_inv_def no_shutdown_def)
  next
    case finished
    then show ?thesis using inv by simp
  qed
qed

text \<open>
  The loops inside a handler, with the events that are left for later, and a bound on the rounds still to
  come: what is in the response queue or can still get there from the commands already submitted, and the
  frames the parser holds.
\<close>

fun loop_events :: "main_pc \<Rightarrow> event list option" where
  "loop_events (Draining _ _ _ evs) = Some evs"
| "loop_events (Parsing _ _ evs) = Some evs"
| "loop_events _ = None"

fun in_hand :: "engine_pc \<Rightarrow> nat" where
  "in_hand (Responding _) = 1"
| "in_hand _ = 0"

definition response_work :: "System \<Rightarrow> nat" where
  "response_work x = length (responses (server x)) + length (engine_answers (commands (server x))) + in_hand (engine_at x)"

definition rounds_left :: "System \<Rightarrow> nat" where
  "rounds_left x =
     (case main_at x of
        Draining _ _ _ _ \<Rightarrow> response_work x
      | Parsing f _ _ \<Rightarrow> frames_left f (server x)
      | _ \<Rightarrow> 0)"

lemma engine_answers_append:
  "engine_answers (xs @ ys) = engine_answers xs @ (if \<exists>c \<in> set xs. is_shutdown c then [] else engine_answers ys)"
  by (induction xs) (auto simp: is_shutdown_def)

lemma length_engine_answers: "length (engine_answers cs) \<le> length cs"
  by (induction cs) (auto split: option.split)

lemma submits_no_shutdown: "submits s cs s' \<Longrightarrow> no_shutdown x \<Longrightarrow> server x = s \<Longrightarrow> server y = s' \<Longrightarrow> engine_at y = engine_at x \<Longrightarrow> no_shutdown y"
  by (auto simp: submits_def no_shutdown_def)

lemma draining_step:
  assumes inv: "system_inv x" and at: "main_at x = Draining sends k rsp evs"
  shows "\<exists>x'. main_step ep ev li w x = Some x' \<and> system_inv x' \<and>
           (main_at x' = Handling evs \<and> responses (server x') = [] \<or> (\<exists>k' rsp'. main_at x' = Draining sends k' rsp' evs) \<and> response_work x' < response_work x)"
proof -
  have si: "server_inv (server x)" and ns: "no_shutdown x" and eo: "engine_ok (engine_at x)"
    using inv at by (auto simp: system_inv_def)
  obtain rsp' s' cs where r: "drain_round (sends k) rsp (server x) = Some (responses (server x) \<noteq> [], rsp', s')"
      "server_inv s'" "responses s' = tl (responses (server x))" "submits (server x) cs s'" "engine_answers cs = []"
    using drain_round_inv [OF si, of "sends k" rsp] by blast
  let ?m = "if responses (server x) \<noteq> [] then Draining sends (Suc k) rsp' evs else Handling evs"
  let ?x = "x\<lparr>server := s', main_at := ?m\<rparr>"
  have step: "main_step ep ev li w x = Some ?x" using r(1) at by (simp add: main_step_def)
  have "wake_inv ?x" using r(3) by (auto simp: wake_inv_def)
  moreover have "no_shutdown ?x" by (rule submits_no_shutdown [OF r(4) ns]) simp_all
  ultimately have "system_inv ?x" using r(2) eo by (auto simp: system_inv_def)
  moreover have "response_work ?x < response_work x" if "responses (server x) \<noteq> []"
    using that r(3-5) by (cases "responses (server x)") (auto simp: response_work_def submits_def engine_answers_append)
  ultimately show ?thesis using step r(3) by (intro exI [of _ ?x]) auto
qed

lemma parsing_step:
  assumes inv: "system_inv x" and at: "main_at x = Parsing f stop evs"
  shows "\<exists>x'. main_step ep ev li w x = Some x' \<and> system_inv x' \<and>
           (main_at x' = Handling evs \<or> main_at x' = Parsing f False evs \<and> frames_left f (server x') < frames_left f (server x))"
proof -
  have si: "server_inv (server x)" and ns: "no_shutdown x" and eo: "engine_ok (engine_at x)"
    and wi: "wake_inv x" and f: "map_of (connections (server x)) f \<noteq> None" and st: "stop = False"
    using inv at by (auto simp: system_inv_def)
  obtain more stop' s' cs where r: "client_round f False (server x) = Some (more, stop', s')" "server_inv s'"
      "rsp_queue s' = rsp_queue (server x)" "map_of (connections s') f \<noteq> None" "submits (server x) cs s'"
      "more \<longrightarrow> \<not> stop' \<and> frames_left f s' < frames_left f (server x)"
    using client_round_inv [OF si f] by blast
  let ?x = "x\<lparr>server := s', main_at := (if more then Parsing f stop' evs else Handling evs)\<rparr>"
  have step: "main_step ep ev li w x = Some ?x" using r(1) at st by (simp add: main_step_def)
  have "wake_inv ?x" using wi r(3) at by (simp add: wake_inv_def responses_def)
  moreover have "no_shutdown ?x" by (rule submits_no_shutdown [OF r(5) ns]) simp_all
  ultimately have "system_inv ?x" using r eo by (auto simp: system_inv_def)
  then show ?thesis using step r(6) by (intro exI [of _ ?x]) auto
qed

lemma accept_clients_queues:
  "accept_clients fs s = Some s' \<Longrightarrow> rsp_queue s' = rsp_queue s \<and> cmd_queue s' = cmd_queue s"
proof (induction fs arbitrary: s)
  case (Cons f fs)
  obtain t where t: "accept_one f s = Some t" "accept_clients fs t = Some s'"
    using Cons.prems by (auto split: bind_splits)
  have "rsp_queue t = rsp_queue s \<and> cmd_queue t = cmd_queue s"
    using t(1) by (auto simp: accept_one_def Let_def split: bind_splits)
  then show ?case using Cons.IH [OF t(2)] by simp
qed simp

lemma accept_stage:
  assumes inv: "server_inv (server x)" and at: "main_at x = Handling (e # evs)" and fresh: "accepts_fresh ev li x"
    and ne: "ev_fd e \<noteq> ev"
  obtains s where "(if ev_fd e = li then accept_clients (ev_accepts e) (server x) else Some (server x)) = Some s"
    and "server_inv s" and "rsp_queue s = rsp_queue (server x)" and "cmd_queue s = cmd_queue (server x)"
proof (cases "ev_fd e = li")
  case True
  then have "fresh_fds (ev_accepts e) (server x)" using fresh at ne by (simp add: accepts_fresh_def)
  then obtain s where "accept_clients (ev_accepts e) (server x) = Some s" "server_inv s"
    using accept_clients_inv [OF inv] by blast
  then show thesis using that [of s] accept_clients_queues [of "ev_accepts e" "server x" s] True by simp
qed (use that [of "server x"] inv in simp)

lemma handling_step:
  assumes inv: "system_inv x" and at: "main_at x = Handling (e # evs)" and fresh: "accepts_fresh ev li x"
  shows "\<exists>x'. main_step ep ev li w x = Some x' \<and> system_inv x'"
proof (cases "ev_fd e = ev")
  case True
  then show ?thesis using inv at by (simp add: main_step_def system_inv_def wake_inv_def no_shutdown_def)
next
  case False
  have si: "server_inv (server x)" and ns: "no_shutdown x" and eo: "engine_ok (engine_at x)" and wi: "wake_inv x"
    using inv at by (auto simp: system_inv_def)
  obtain s1 where s1: "(if ev_fd e = li then accept_clients (ev_accepts e) (server x) else Some (server x)) = Some s1"
    "server_inv s1" "rsp_queue s1 = rsp_queue (server x)" "cmd_queue s1 = cmd_queue (server x)"
    using accept_stage [OF si at fresh False] by blast
  obtain loop s2 cs where s2: "client_read (ev_fd e) (ev_in e) (ev_recv e) s1 = Some (loop, s2)" "server_inv s2"
    "rsp_queue s2 = rsp_queue s1" "loop \<longrightarrow> map_of (connections s2) (ev_fd e) \<noteq> None" "submits s1 cs s2"
    using client_read_inv [OF s1(2)] by blast
  have sub: "submits (server x) cs s2" using s2(5) s1(4) by (simp add: submits_def commands_def)
  let ?x = "x\<lparr>server := s2, main_at := (if loop then Parsing (ev_fd e) False evs else Handling evs)\<rparr>"
  have step: "main_step ep ev li w x = Some ?x" using s1(1) s2(1) False at by (simp add: main_step_def)
  have "wake_inv ?x" using wi s1(3) s2(3) at by (simp add: wake_inv_def responses_def)
  moreover have "no_shutdown ?x" by (rule submits_no_shutdown [OF sub ns]) simp_all
  ultimately have "system_inv ?x" using s2 eo by (auto simp: system_inv_def)
  then show ?thesis using step by blast
qed

lemma stopping_step:
  assumes inv: "system_inv x" and at: "main_at x = Stopping"
  obtains q where "main_step ep ev li w x = Some (x\<lparr>server := (server x)\<lparr>cmd_queue := q\<rparr>, main_at := Joining\<rparr>)"
    and "system_inv (x\<lparr>server := (server x)\<lparr>cmd_queue := q\<rparr>, main_at := Joining\<rparr>)"
    and "commands ((server x)\<lparr>cmd_queue := q\<rparr>) =
           commands (server x) @ (if length (commands (server x)) < 4095 then [shutdown_command] else [])"
proof -
  have "token_ok (EngineCommand.session shutdown_command)" by (simp add: shutdown_command_def token_ok_def)
  then obtain q where q: "v3_push kQueueCapacity (cmd_queue (server x)) shutdown_command = Some (length (commands (server x)) < 4095, q)"
    "server_inv ((server x)\<lparr>cmd_queue := q\<rparr>)"
    "commands ((server x)\<lparr>cmd_queue := q\<rparr>) = commands (server x) @ (if length (commands (server x)) < 4095 then [shutdown_command] else [])"
    using server_inv_push_cmd [of "server x" shutdown_command] inv by (auto simp: system_inv_def)
  then have "system_inv (x\<lparr>server := (server x)\<lparr>cmd_queue := q\<rparr>, main_at := Joining\<rparr>)"
    using inv at by (simp add: system_inv_def wake_inv_def responses_def)
  then show thesis using that q at by (simp add: main_step_def send_shutdown_def)
qed

lemma main_step_inv:
  assumes inv: "system_inv x" and fresh: "accepts_fresh ev li x"
  shows "\<exists>x'. main_step ep ev li w x = Some x' \<and> system_inv x'"
proof (cases "main_at x")
  case Polling
  then show ?thesis using inv
    by (cases w) (auto simp: main_step_def system_inv_def wake_inv_def no_shutdown_def)
next
  case (Handling evs)
  then show ?thesis using inv handling_step [OF inv _ fresh]
    by (cases evs) (auto simp: main_step_def system_inv_def wake_inv_def no_shutdown_def)
next
  case (Draining sends k rsp evs)
  then show ?thesis using draining_step [OF inv] by blast
next
  case (Parsing f stop evs)
  then show ?thesis using parsing_step [OF inv] by blast
next
  case Stopping
  then show ?thesis using stopping_step [OF inv] by blast
next
  case Joining
  then show ?thesis using inv
    by (auto simp: main_step_def system_inv_def wake_inv_def close_all_def responses_def)
next
  case Exited
  then show ?thesis using inv by (auto simp: main_step_def)
qed

lemma system_reachable_inv: "system_reachable ep ev li x \<Longrightarrow> system_inv x"
proof (induction rule: system_reachable.induct)
  case start
  then show ?case by (rule system_inv_init)
next
  case (gateway x w x')
  then show ?case using main_step_inv [of x ev li ep w] by auto
next
  case (engine x x')
  then show ?case using engine_step_inv [of x] by auto
qed

lemma loop_step:
  assumes inv: "system_inv x" and lp: "loop_events (main_at x) = Some evs"
  shows "\<exists>x'. main_step ep ev li w x = Some x' \<and> system_inv x' \<and>
           (main_at x' = Handling evs \<and> (draining (main_at x) \<longrightarrow> responses (server x') = []) \<or>
            loop_events (main_at x') = Some evs \<and> draining (main_at x') = draining (main_at x) \<and> rounds_left x' < rounds_left x)"
proof (cases "main_at x")
  case (Draining sends k rsp evs')
  then show ?thesis using draining_step [OF inv Draining, of ep ev li w] lp by (fastforce simp: rounds_left_def)
next
  case (Parsing f stop evs')
  then show ?thesis using parsing_step [OF inv Parsing, of ep ev li w] lp by (fastforce simp: rounds_left_def)
qed (use lp in auto)

lemma engine_step_rounds:
  assumes inv: "system_inv x" and lp: "loop_events (main_at x) \<noteq> None" and step: "engine_step x = Some x'"
  shows "rounds_left x' \<le> rounds_left x"
proof -
  have si: "server_inv (server x)" and eo: "engine_ok (engine_at x)" using inv by (auto simp: system_inv_def)
  have "\<not> stopped (main_at x)" using lp by (cases "main_at x") auto
  then have ns: "\<forall>c \<in> set (commands (server x)). \<not> is_shutdown c" using inv by (simp add: system_inv_def no_shutdown_def)
  from si eo have "response_work x' \<le> response_work x \<and> connections (server x') = connections (server x) \<and> main_at x' = main_at x"
  proof (cases rule: engine_step_cases)
    case (pop c cs s)
    then show ?thesis using step ns
      by (auto simp: response_work_def responses_def is_shutdown_def split: option.splits if_splits)
  next
    case (respond r s)
    then show ?thesis using step by (auto simp: response_work_def commands_def)
  qed (use step in \<open>auto simp: response_work_def responses_def\<close>)
  then show ?thesis by (auto simp: rounds_left_def frames_left_def split: main_pc.split)
qed

lemma handler_ends_schedule:
  "system_inv x \<Longrightarrow> loop_events (main_at x) = Some evs \<Longrightarrow> rounds_left x < length (filter is_gateway as) \<Longrightarrow>
     \<exists>bs cs x'. as = bs @ cs \<and> run_system ep ev li bs x = Some x' \<and> system_inv x' \<and> main_at x' = Handling evs \<and>
       (draining (main_at x) \<longrightarrow> responses (server x') = [])"
proof (induction as arbitrary: x)
  case (Cons a as)
  show ?case
  proof (cases a)
    case (Gateway w)
    obtain x' where x': "main_step ep ev li w x = Some x'" "system_inv x'"
      "main_at x' = Handling evs \<and> (draining (main_at x) \<longrightarrow> responses (server x') = []) \<or>
       loop_events (main_at x') = Some evs \<and> draining (main_at x') = draining (main_at x) \<and> rounds_left x' < rounds_left x"
      using loop_step [OF Cons.prems(1,2)] by blast
    show ?thesis
    proof (cases "main_at x' = Handling evs")
      case True
      then have "run_system ep ev li [a] x = Some x'" "draining (main_at x) \<longrightarrow> responses (server x') = []"
        using x' Gateway by auto
      then show ?thesis using x'(2) True by (intro exI [of _ "[a]"] exI [of _ as] exI [of _ x']) simp
    next
      case False
      then obtain bs cs y where "as = bs @ cs" "run_system ep ev li bs x' = Some y" "system_inv y" "main_at y = Handling evs"
        "draining (main_at x) \<longrightarrow> responses (server y) = []"
        using Cons.IH [of x'] x' Cons.prems(3) Gateway by auto
      then show ?thesis using x'(1) Gateway by (intro exI [of _ "a # bs"] exI [of _ cs] exI [of _ y]) simp
    qed
  next
    case Engine
    obtain x' where x': "engine_step x = Some x'" "system_inv x'" "main_at x' = main_at x"
      using engine_step_inv [OF Cons.prems(1)] by blast
    then obtain bs cs y where "as = bs @ cs" "run_system ep ev li bs x' = Some y" "system_inv y" "main_at y = Handling evs"
      "draining (main_at x) \<longrightarrow> responses (server y) = []"
      using Cons.IH [of x'] Cons.prems Engine engine_step_rounds [OF Cons.prems(1) _ x'(1)] by fastforce
    then show ?thesis using x'(1) Engine by (intro exI [of _ "a # bs"] exI [of _ cs] exI [of _ y]) simp
  qed
qed simp

lemma queue_bounds:
  assumes "server_inv s"
  shows "length (commands s) \<le> 4095" and "length (responses s) \<le> 4095"
proof -
  have "v3_inv kQueueCapacity (cmd_queue s)" "v3_inv kQueueCapacity (rsp_queue s)" using assms by (auto simp: server_inv_def)
  then show "length (commands s) \<le> 4095" "length (responses s) \<le> 4095"
    using v3_fifo.bounded by (fastforce simp: commands_def responses_def capacities)+
qed

lemma frames_left_bound:
  assumes "server_inv s"
  shows "frames_left f s \<le> 64"
proof (cases "map_of (connections s) f")
  case (Some c)
  then have "parser_inv kParserCapacity (parser c)" using server_inv_conn [OF assms] by (simp add: conn_ok_def)
  then have "length (pending (parser c)) \<le> 4096" by (simp add: parser_inv_def capacities)
  then show ?thesis using Some by (simp add: frames_left_def)
qed (simp add: frames_left_def)

lemma rounds_left_bound:
  assumes "system_inv x"
  shows "rounds_left x < 8192"
proof -
  have si: "server_inv (server x)" using assms by (simp add: system_inv_def)
  have "in_hand (engine_at x) \<le> 1" by (cases "engine_at x") auto
  then have "response_work x \<le> 4095 + 4095 + 1"
    using queue_bounds [OF si] length_engine_answers [of "commands (server x)"] unfolding response_work_def by linarith
  moreover have "frames_left f (server x) < 8192" for f using frames_left_bound [OF si, of f] by linarith
  ultimately show ?thesis by (simp add: rounds_left_def split: main_pc.split)
qed

section \<open>Undisturbed runs\<close>

text \<open>Run without interruption, the rounds of a handler have the effect of the handler in one piece.\<close>

lemma run_system_append:
  "run_system ep ev li (as @ bs) x = do { y \<leftarrow> run_system ep ev li as x; run_system ep ev li bs y }"
  by (induction as arbitrary: x) (auto split: bind_splits)

abbreviation gateway_runs :: "int \<Rightarrow> int \<Rightarrow> int \<Rightarrow> nat \<Rightarrow> System \<Rightarrow> System option" where
  "gateway_runs ep ev li n \<equiv> run_system ep ev li (replicate n (Gateway Interrupted))"

lemma reachable_gateway:
  "system_reachable ep ev li x \<Longrightarrow> accepts_fresh ev li x \<Longrightarrow> main_step ep ev li w x = Some x' \<Longrightarrow> system_reachable ep ev li x'"
  using system_reachable.gateway by blast

lemma drain_run:
  "drain_responses n sends k rsp (server x) = Some s \<Longrightarrow> main_at x = Draining sends k rsp evs \<Longrightarrow>
     \<exists>m. gateway_runs ep ev li m x = Some (x\<lparr>server := s, main_at := Handling evs\<rparr>) \<and>
       (system_reachable ep ev li x \<longrightarrow> system_reachable ep ev li (x\<lparr>server := s, main_at := Handling evs\<rparr>))"
proof (induction n arbitrary: k rsp x)
  case (Suc n)
  obtain more rsp' t where r: "drain_round (sends k) rsp (server x) = Some (more, rsp', t)"
    and rest: "(if more then drain_responses n sends (Suc k) rsp' t else Some t) = Some s"
    using Suc.prems(1) unfolding drain_responses_round by (auto split: bind_splits)
  let ?x = "x\<lparr>server := t, main_at := (if more then Draining sends (Suc k) rsp' evs else Handling evs)\<rparr>"
  have step: "main_step ep ev li Interrupted x = Some ?x" using r Suc.prems(2) by (simp add: main_step_def)
  have reach: "system_reachable ep ev li x \<longrightarrow> system_reachable ep ev li ?x"
    using reachable_gateway [OF _ _ step] Suc.prems(2) by (simp add: accepts_fresh_def)
  show ?case
  proof (cases more)
    case True
    then obtain m where "gateway_runs ep ev li m ?x = Some (?x\<lparr>server := s, main_at := Handling evs\<rparr>)"
      "system_reachable ep ev li ?x \<longrightarrow> system_reachable ep ev li (?x\<lparr>server := s, main_at := Handling evs\<rparr>)"
      using Suc.IH [of "Suc k" rsp' ?x] rest by auto
    then show ?thesis using step reach by (intro exI [of _ "Suc m"]) simp
  next
    case False
    then show ?thesis using step rest reach by (intro exI [of _ "Suc 0"]) simp
  qed
qed simp

lemma parse_run:
  "client_loop n f stop (server x) = Some s \<Longrightarrow> main_at x = Parsing f stop evs \<Longrightarrow>
     \<exists>m. gateway_runs ep ev li m x = Some (x\<lparr>server := s, main_at := Handling evs\<rparr>) \<and>
       (system_reachable ep ev li x \<longrightarrow> system_reachable ep ev li (x\<lparr>server := s, main_at := Handling evs\<rparr>))"
proof (induction n arbitrary: stop x)
  case (Suc n)
  obtain more stop' t where r: "client_round f stop (server x) = Some (more, stop', t)"
    and rest: "(if more then client_loop n f stop' t else Some t) = Some s"
    using Suc.prems(1) unfolding client_loop_round by (auto split: bind_splits)
  let ?x = "x\<lparr>server := t, main_at := (if more then Parsing f stop' evs else Handling evs)\<rparr>"
  have step: "main_step ep ev li Interrupted x = Some ?x" using r Suc.prems(2) by (simp add: main_step_def)
  have reach: "system_reachable ep ev li x \<longrightarrow> system_reachable ep ev li ?x"
    using reachable_gateway [OF _ _ step] Suc.prems(2) by (simp add: accepts_fresh_def)
  show ?case
  proof (cases more)
    case True
    then obtain m where "gateway_runs ep ev li m ?x = Some (?x\<lparr>server := s, main_at := Handling evs\<rparr>)"
      "system_reachable ep ev li ?x \<longrightarrow> system_reachable ep ev li (?x\<lparr>server := s, main_at := Handling evs\<rparr>)"
      using Suc.IH [of stop' ?x] rest by auto
    then show ?thesis using step reach by (intro exI [of _ "Suc m"]) simp
  next
    case False
    then show ?thesis using step rest reach by (intro exI [of _ "Suc 0"]) simp
  qed
qed simp

lemma handler_run:
  assumes he: "handle_event ev li e (server x) = Some s" and at: "main_at x = Handling (e # evs)"
  defines "x' \<equiv> x\<lparr>server := s, main_at := Handling evs, counter := (if ev_fd e = ev then 0 else counter x)\<rparr>"
  shows "\<exists>m. gateway_runs ep ev li m x = Some x' \<and>
           (system_reachable ep ev li x \<and> accepts_fresh ev li x \<longrightarrow> system_reachable ep ev li x')"
proof (cases "ev_fd e = ev")
  case True
  let ?x = "x\<lparr>counter := 0, main_at := Draining (ev_sends e) 0 default evs\<rparr>"
  have step: "main_step ep ev li Interrupted x = Some ?x" using True at by (simp add: main_step_def)
  have d: "drain_responses 4096 (ev_sends e) 0 default (server ?x) = Some s" using he True by (simp add: handle_event_def)
  have at': "main_at ?x = Draining (ev_sends e) 0 default evs" by simp
  have "?x\<lparr>server := s, main_at := Handling evs\<rparr> = x'" using True by (simp add: x'_def)
  then obtain m where
    "gateway_runs ep ev li m ?x = Some x'" "system_reachable ep ev li ?x \<longrightarrow> system_reachable ep ev li x'"
    using drain_run [OF d at', of ep ev li] by metis
  then show ?thesis using step reachable_gateway [OF _ _ step] by (intro exI [of _ "Suc m"]) simp
next
  case False
  obtain s1 where s1: "(if ev_fd e = li then accept_clients (ev_accepts e) (server x) else Some (server x)) = Some s1"
    and "on_client (ev_fd e) (ev_in e) (ev_recv e) s1 = Some s"
    using he False by (auto simp: handle_event_def split: bind_splits)
  then obtain loop s2 where s2: "client_read (ev_fd e) (ev_in e) (ev_recv e) s1 = Some (loop, s2)"
    and rest: "(if loop then client_loop 65 (ev_fd e) False s2 else Some s2) = Some s"
    unfolding on_client_read by (auto split: bind_splits)
  let ?x = "x\<lparr>server := s2, main_at := (if loop then Parsing (ev_fd e) False evs else Handling evs)\<rparr>"
  have step: "main_step ep ev li Interrupted x = Some ?x" using False at s1 s2 by (simp add: main_step_def)
  show ?thesis
  proof (cases loop)
    case True
    then obtain m where "gateway_runs ep ev li m ?x = Some x'"
      "system_reachable ep ev li ?x \<longrightarrow> system_reachable ep ev li x'"
      using parse_run [of 65 "ev_fd e" False ?x s evs ep ev li] rest False by (auto simp: x'_def)
    then show ?thesis using step reachable_gateway [OF _ _ step] by (intro exI [of _ "Suc m"]) simp
  next
    case loop: False
    then show ?thesis using step False rest reachable_gateway [OF _ _ step]
      by (intro exI [of _ "Suc 0"]) (simp add: x'_def)
  qed
qed

lemma engine_run:
  assumes "matching_iteration (cmd_queue (server x)) (rsp_queue (server x)) = Some (run, k, cq, rq)" and "engine_at x = Popping"
  shows "\<exists>m n. run_system ep ev li (replicate m Engine) x =
           Some (x\<lparr>server := (server x)\<lparr>cmd_queue := cq, rsp_queue := rq\<rparr>, counter := n,
                   engine_at := (if run then Popping else Finished)\<rparr>) \<and> m \<le> 3 \<and> (k = 0 \<longrightarrow> n = counter x)"
proof -
  obtain ok cmd q where pop: "v3_pop kQueueCapacity (cmd_queue (server x)) default = Some (ok, cmd, q)"
    using assms(1) by (auto simp: matching_iteration_def split: bind_splits)
  let ?s = "(server x)\<lparr>cmd_queue := q\<rparr>"
  note def = matching_iteration_def engine_step_def Let_def
  show ?thesis
  proof (cases "\<not> ok \<or> EngineCommand.type cmd = EngineCommandType.Shutdown \<or> matching_response cmd = None")
    case True
    have "run_system ep ev li (replicate 1 Engine) x = Some (x\<lparr>server := (server x)\<lparr>cmd_queue := cq, rsp_queue := rq\<rparr>,
        counter := counter x, engine_at := (if run then Popping else Finished)\<rparr>)"
      using True pop assms by (cases x; cases "server x") (auto simp: def split: if_splits option.splits)
    then show ?thesis by (metis le_numeral_extra(4) one_le_numeral)
  next
    case False
    then obtain r where r: "matching_response cmd = Some r" by blast
    obtain b q2 where push: "v3_push kQueueCapacity (rsp_queue (server x)) r = Some (b, q2)"
      using assms(1) pop False r by (auto simp: matching_iteration_def split: bind_splits)
    have res: "run" "k = 1" "cq = q" "rq = q2" using assms(1) pop False r push by (auto simp: matching_iteration_def)
    have "run_system ep ev li (replicate 3 Engine) x = Some (x\<lparr>server := (server x)\<lparr>cmd_queue := cq, rsp_queue := rq\<rparr>,
        counter := (if counter x < 0xFFFFFFFFFFFFFFFE then counter x + 1 else counter x), engine_at := Popping\<rparr>)"
      using False pop r push assms(2) res by (simp add: def numeral_3_eq_3)
    then show ?thesis using res by (intro exI) (auto intro: exI [of _ 3])
  qed
qed

lemma reachable_engine_runs:
  "system_reachable ep ev li x \<Longrightarrow> run_system ep ev li (replicate m Engine) x = Some x' \<Longrightarrow> system_reachable ep ev li x'"
proof (induction m arbitrary: x)
  case (Suc m)
  then obtain y where "engine_step x = Some y" "run_system ep ev li (replicate m Engine) y = Some x'"
    by (auto split: bind_splits)
  then show ?case using Suc.IH system_reachable.engine [OF Suc.prems(1)] by blast
qed simp

text \<open>So every state of the sequential model is one of the interleaved model.\<close>

lemma sequential_states:
  "server_reachable ev li s \<Longrightarrow> \<exists>x. system_reachable ep ev li x \<and> server x = s \<and> main_at x = Polling \<and> engine_at x = Popping"
proof (induction rule: server_reachable.induct)
  case start
  then show ?case using system_reachable.start by (force simp: System_init_def)
next
  case (gateway s e s')
  then obtain x where x: "system_reachable ep ev li x" "server x = s" "main_at x = Polling" "engine_at x = Popping" by blast
  let ?y = "x\<lparr>main_at := Handling [e]\<rparr>"
  let ?z = "?y\<lparr>server := s', main_at := Handling [], counter := (if ev_fd e = ev then 0 else counter ?y)\<rparr>"
  have "main_step ep ev li (Ready [e]) x = Some ?y" "accepts_fresh ev li x"
    using x by (simp_all add: main_step_def accepts_fresh_def)
  then have y: "system_reachable ep ev li ?y" using reachable_gateway [OF x(1)] by blast
  have fy: "accepts_fresh ev li ?y" using gateway.hyps(2) x(2) by (simp add: accepts_fresh_def)
  have "handle_event ev li e (server ?y) = Some s'" "main_at ?y = Handling [e]" using gateway.hyps(3) x(2) by simp_all
  from handler_run [OF this, of ep] have z: "system_reachable ep ev li ?z" using y fy by blast
  have "main_step ep ev li Interrupted ?z = Some (?z\<lparr>main_at := Polling\<rparr>)" "accepts_fresh ev li ?z"
    by (simp_all add: main_step_def accepts_fresh_def)
  then have "system_reachable ep ev li (?z\<lparr>main_at := Polling\<rparr>)" using reachable_gateway [OF z] by blast
  then show ?case using x(4) by (intro exI [of _ "?z\<lparr>main_at := Polling\<rparr>"]) simp
next
  case (engine s run k cq rq)
  then obtain x where x: "system_reachable ep ev li x" "server x = s" "main_at x = Polling" "engine_at x = Popping" by blast
  have inv: "system_inv x" by (rule system_reachable_inv [OF x(1)])
  then have si: "server_inv s" and ns: "no_shutdown x" using x by (auto simp: system_inv_def)
  have v: "v3_inv kQueueCapacity (cmd_queue s)" "v3_inv kQueueCapacity (rsp_queue s)" using si by (auto simp: server_inv_def)
  obtain run' k' cq' rq' where it: "matching_iteration (cmd_queue s) (rsp_queue s) = Some (run', k', cq', rq')"
    "run' \<longleftrightarrow> v3_contents (cmd_queue s) = [] \<or> EngineCommand.type (hd (v3_contents (cmd_queue s))) \<noteq> EngineCommandType.Shutdown"
    using matching_iteration_cases [OF v] by metis
  then have "run"
    using engine.hyps(2) ns x(2) by (cases "commands s") (auto simp: no_shutdown_def commands_def is_shutdown_def)
  then obtain m n where "run_system ep ev li (replicate m Engine) x =
      Some (x\<lparr>server := s\<lparr>cmd_queue := cq, rsp_queue := rq\<rparr>, counter := n, engine_at := Popping\<rparr>)"
    using engine_run [of x run k cq rq ep ev li] engine.hyps(2) x by auto
  then have "system_reachable ep ev li (x\<lparr>server := s\<lparr>cmd_queue := cq, rsp_queue := rq\<rparr>, counter := n, engine_at := Popping\<rparr>)"
    by (rule reachable_engine_runs [OF x(1)])
  then show ?case using x(3)
    by (intro exI [of _ "x\<lparr>server := s\<lparr>cmd_queue := cq, rsp_queue := rq\<rparr>, counter := n, engine_at := Popping\<rparr>"]) simp
qed

section \<open>Shutdown\<close>

text \<open>The steps the matching thread has to make until it meets the \<^verbatim>\<open>Shutdown\<close>.\<close>

fun engine_rank :: "engine_pc \<Rightarrow> nat" where
  "engine_rank Popping = 0"
| "engine_rank (Responding _) = 2"
| "engine_rank Notifying = 1"
| "engine_rank Finished = 0"

definition stop_rank :: "System \<Rightarrow> nat" where
  "stop_rank x =
     (if engine_at x = Finished then 0
      else 3 * Suc (length (takeWhile (\<lambda>c. \<not> is_shutdown c) (commands (server x)))) + engine_rank (engine_at x))"

text \<open>From the join on: either \<^verbatim>\<open>main\<close> waits, or it has closed everything and is gone.\<close>

definition closing :: "int \<Rightarrow> int \<Rightarrow> int \<Rightarrow> Server \<Rightarrow> System \<Rightarrow> bool" where
  "closing ep ev li s x \<longleftrightarrow> system_inv x \<and>
     (engine_at x = Finished \<or> (\<exists>c \<in> set (commands (server x)). is_shutdown c)) \<and>
     (main_at x = Joining \<and> connections (server x) = connections s \<and> io (server x) = io s \<or>
      main_at x = Exited \<and> engine_at x = Finished \<and> io (server x) = io (close_all ep ev li s))"

lemma closing_engine:
  assumes cl: "closing ep ev li s x"
  shows "\<exists>x'. engine_step x = Some x' \<and> closing ep ev li s x' \<and> stop_rank x' \<le> stop_rank x - 1"
proof -
  have inv: "system_inv x" and sh: "engine_at x = Finished \<or> (\<exists>c \<in> set (commands (server x)). is_shutdown c)"
    using cl by (auto simp: closing_def)
  obtain x' where x': "engine_step x = Some x'" "system_inv x'" "main_at x' = main_at x"
    using engine_step_inv [OF inv] by blast
  have si: "server_inv (server x)" and eo: "engine_ok (engine_at x)" using inv by (auto simp: system_inv_def)
  from si eo have "(engine_at x' = Finished \<or> (\<exists>c \<in> set (commands (server x')). is_shutdown c)) \<and>
      connections (server x') = connections (server x) \<and> io (server x') = io (server x) \<and> stop_rank x' \<le> stop_rank x - 1 \<and>
      (engine_at x = Finished \<longrightarrow> engine_at x' = Finished)"
  proof (cases rule: engine_step_cases)
    case (idle t)
    then show ?thesis using sh by simp
  next
    case (pop c cs t)
    then show ?thesis using x'(1) sh by (cases "is_shutdown c") (auto simp: stop_rank_def split: option.splits)
  next
    case (respond r t)
    then have "commands t = commands (server x)" by (simp add: commands_def)
    then show ?thesis using x'(1) sh respond by (auto simp: stop_rank_def)
  next
    case (wake n)
    then show ?thesis using x'(1) sh by (auto simp: stop_rank_def)
  next
    case finished
    then show ?thesis using x'(1) sh by (auto simp: stop_rank_def)
  qed
  then have "closing ep ev li s x'" using cl x' by (auto simp: closing_def)
  then show ?thesis using x'(1) \<open>_ \<and> _ \<and> _ \<and> stop_rank x' \<le> stop_rank x - 1 \<and> _\<close> by blast
qed

lemma closing_main:
  assumes cl: "closing ep ev li s x"
  shows "\<exists>x'. main_step ep ev li w x = Some x' \<and> closing ep ev li s x' \<and> stop_rank x' = stop_rank x \<and>
           engine_at x' = engine_at x \<and> (engine_at x = Finished \<longrightarrow> main_at x' = Exited)"
proof -
  have inv: "system_inv x" and at: "main_at x = Joining \<or> main_at x = Exited" using cl by (auto simp: closing_def)
  then have "accepts_fresh ev li x" by (auto simp: accepts_fresh_def)
  then obtain x' where x': "main_step ep ev li w x = Some x'" "system_inv x'" using main_step_inv [OF inv] by blast
  have "x' = (if main_at x = Joining \<and> engine_at x = Finished
      then x\<lparr>server := close_all ep ev li (server x), main_at := Exited\<rparr> else x)"
    using x'(1) at by (auto simp: main_step_def split: if_splits)
  then show ?thesis using x' cl by (auto simp: closing_def stop_rank_def close_all_def commands_def)
qed

lemma closing_run:
  "closing ep ev li s x \<Longrightarrow> \<exists>x'. run_system ep ev li as x = Some x' \<and> closing ep ev li s x' \<and>
     stop_rank x' \<le> stop_rank x - length (filter (\<lambda>a. \<not> is_gateway a) as)"
proof (induction as arbitrary: x)
  case (Cons a as)
  obtain y where y: "system_step ep ev li a x = Some y" "closing ep ev li s y"
    "stop_rank y \<le> stop_rank x - (if is_gateway a then 0 else 1)"
    using closing_engine [OF Cons.prems] closing_main [OF Cons.prems] by (cases a) (auto, metis order_refl)
  then show ?case using Cons.IH [OF y(2)] by (auto split: if_splits)
qed simp

text \<open>Without a \<^verbatim>\<open>Shutdown\<close> in the queue the matching thread never ends, and \<^verbatim>\<open>main\<close> waits for it.\<close>

lemma join_hangs_run:
  "system_inv x \<Longrightarrow> main_at x = Joining \<Longrightarrow> no_shutdown x \<Longrightarrow>
     \<exists>x'. run_system ep ev li as x = Some x' \<and> main_at x' = Joining \<and> no_shutdown x'"
proof (induction as arbitrary: x)
  case (Cons a as)
  show ?case
  proof (cases a)
    case (Gateway w)
    then have "system_step ep ev li a x = Some x" using Cons.prems by (auto simp: main_step_def no_shutdown_def)
    then show ?thesis using Cons.IH [OF Cons.prems] by simp
  next
    case Engine
    obtain x' where x': "engine_step x = Some x'" "system_inv x'" "main_at x' = main_at x"
      using engine_step_inv [OF Cons.prems(1)] by blast
    have si: "server_inv (server x)" and eo: "engine_ok (engine_at x)" using Cons.prems by (auto simp: system_inv_def)
    from si eo have "no_shutdown x'"
    proof (cases rule: engine_step_cases)
      case (pop c cs t)
      then show ?thesis using x'(1) Cons.prems(3) by (auto simp: no_shutdown_def split: option.splits)
    qed (use x'(1) Cons.prems(3) in \<open>auto simp: no_shutdown_def commands_def\<close>)
    then show ?thesis using Cons.IH [of x'] x' Cons.prems(2) Engine by simp
  qed
qed auto

section \<open>States for the examples\<close>

text \<open>A client that connects and disconnects leaves a command behind; so the command queue can become full.\<close>

lemma connect_disconnect:
  assumes r: "server_reachable ev li s" and ne: "ev \<noteq> li" "ev \<noteq> 7" "li \<noteq> 7" and free: "connections s = []"
  shows "\<exists>s'. server_reachable ev li s' \<and> connections s' = [] \<and>
           length (commands s') = (if length (commands s) < 4095 then Suc (length (commands s)) else length (commands s))"
proof -
  let ?e1 = "\<lparr>ev_fd = li, ev_in = True, ev_sends = (\<lambda>_. 64), ev_accepts = [7], ev_recv = Would_Block\<rparr>"
  let ?e2 = "\<lparr>ev_fd = 7, ev_in = True, ev_sends = (\<lambda>_. 64), ev_accepts = [], ev_recv = Received []\<rparr>"
  have inv: "server_inv s" by (rule server_reachable_inv [OF r])
  then have len: "length (slots s) = 1024" by (simp add: server_inv_def)
  obtain s1 c where s1: "accept_one 7 s = Some s1" "connections s1 = [(7, c)]" "cmd_queue s1 = cmd_queue s"
    using accept_one_eq [OF len, of 7] free by simp
  have "handle_event ev li ?e1 s = Some s1"
    using s1 ne by (simp add: handle_event_def on_client_def)
  moreover have "fresh_fds (ev_accepts ?e1) s" using free by (simp add: fresh_fds.simps)
  ultimately have r1: "server_reachable ev li s1" using server_reachable.gateway [OF r] by blast
  have inv1: "server_inv s1" by (rule server_reachable_inv [OF r1])
  obtain s2 where s2: "close_conn 7 s1 = Some s2" using close_conn_inv [OF inv1] by metis
  have "handle_event ev li ?e2 s1 = Some s2"
    using s1 s2 ne by (simp add: handle_event_def on_client_def)
  moreover have "fresh_fds (ev_accepts ?e2) s1" by (simp add: fresh_fds.simps)
  ultimately have r2: "server_reachable ev li s2" using server_reachable.gateway [OF r1] by blast
  have "connections s2 = []"
    using s2 s1(2) by (auto simp: close_conn_def Let_def AList.delete_eq split: bind_splits)
  moreover have "commands s1 = commands s" using s1(3) by (simp add: commands_def)
  ultimately show ?thesis using r2 close_conn_commands [OF inv1 _ s2, of c] s1(2) by auto
qed

lemma many_commands:
  assumes ne: "ev \<noteq> li" "ev \<noteq> 7" "li \<noteq> 7"
  shows "n \<le> 4095 \<Longrightarrow> \<exists>s. server_reachable ev li s \<and> connections s = [] \<and> length (commands s) = n"
proof (induction n)
  case 0
  then show ?case using server_reachable.start
    by (intro exI [of _ Server_init]) (simp add: Server_init_def commands_def v3_fifo.init_contents [OF capacities(1)])
next
  case (Suc n)
  then obtain s where "server_reachable ev li s" "connections s = []" "length (commands s) = n" by auto
  then show ?case using connect_disconnect [OF _ ne, of s] Suc.prems by auto
qed

lemma stopping_state:
  assumes "n \<le> 4095"
  obtains x where "system_reachable 5 4 3 x" and "main_at x = Stopping" and "length (commands (server x)) = n"
    and "connections (server x) = []"
proof -
  obtain s where s: "server_reachable 4 3 s" "connections s = []" "length (commands s) = n"
    using many_commands [of 4 3 n] assms by auto
  obtain x where x: "system_reachable 5 4 3 x" "server x = s" "main_at x = Polling"
    using sequential_states [OF s(1)] by metis
  have "main_step 5 4 3 Wait_Failed x = Some (x\<lparr>main_at := Stopping\<rparr>)" "accepts_fresh 4 3 x"
    using x by (simp_all add: main_step_def accepts_fresh_def)
  then have "system_reachable 5 4 3 (x\<lparr>main_at := Stopping\<rparr>)" using reachable_gateway [OF x(1)] by blast
  then show thesis using that [of "x\<lparr>main_at := Stopping\<rparr>"] x(2) s by simp
qed

text \<open>The gateway about to drain the response queue.\<close>

lemma draining_state:
  obtains x sends where "system_reachable 5 4 3 x" and "main_at x = Draining sends 0 default []"
proof -
  let ?e = "\<lparr>ev_fd = 4, ev_in = True, ev_sends = (\<lambda>_. 64), ev_accepts = [], ev_recv = Would_Block\<rparr>"
  let ?x = "System_init\<lparr>main_at := Handling [?e]\<rparr>"
  have "main_step 5 4 3 (Ready [?e]) System_init = Some ?x" "accepts_fresh 4 3 System_init"
    by (simp_all add: main_step_def System_init_def accepts_fresh_def)
  then have x: "system_reachable 5 4 3 ?x" using reachable_gateway [OF system_reachable.start] by blast
  have "main_step 5 4 3 Interrupted ?x = Some (?x\<lparr>counter := 0, main_at := Draining (ev_sends ?e) 0 default []\<rparr>)"
    "accepts_fresh 4 3 ?x" by (simp_all add: main_step_def accepts_fresh_def)
  then have y: "system_reachable 5 4 3 (?x\<lparr>counter := 0, main_at := Draining (ev_sends ?e) 0 default []\<rparr>)"
    using reachable_gateway [OF x] by blast
  show thesis by (rule that [OF y]) simp
qed

text \<open>A client connects and sends an order; then its response waits in the queue.\<close>

lemma client_order:
  obtains e1 s e2 s1 where "server_reachable 4 3 s"
    and "handle_event 4 3 e1 Server_init = Some s" and "fresh_fds (ev_accepts e1) Server_init"
    and "handle_event 4 3 e2 s = Some s1" and "fresh_fds (ev_accepts e2) s"
    and "length (commands s1) = 1" and "length (engine_answers (commands s1)) = 1" and "responses s1 = []"
proof -
  obtain s e1 where r: "server_reachable 4 3 s"
    and c: "map_of (connections s) 7 = Some (Connection_init 7 \<lparr>slot = 0, generation = 1\<rparr>)"
    and q: "v3_contents (cmd_queue s) = []" "v3_contents (rsp_queue s) = []"
    and e1: "handle_event 4 3 e1 Server_init = Some s" "fresh_fds (ev_accepts e1) Server_init"
    using one_client by metis
  let ?c = "Connection_init 7 \<lparr>slot = 0, generation = 1\<rparr>"
  let ?h = "(default :: MessageHeader)\<lparr>sequence_number := 1\<rparr>"
  obtain frame where frame: "encode_new_order ?h default (replicate 64 0) = Some (64, frame)"
    using new_order_codec.encode_defined [of "replicate 64 0"] by simp
  have "header_status ?h = DecodeStatus.Ok" "Side_ok (NewOrder.side default)" by (simp_all add: header_status_def)
  note req = new_order_request [OF length_replicate frame this]
  let ?m = "(default :: DecodedMessage)\<lparr>header := stamp MessageType.NewOrder ?h,
           DecodedMessage.type := MessageType.NewOrder, new_order := default\<rparr>"
  have "spec_client (token ?c) (expected_sequence ?c) frame = ([Forward (command_of (token ?c) ?m)], 2, [])"
    using req
    by (simp add: spec_client.simps [of _ _ frame] spec_client.simps [of _ _ "[]"] spec_parse_def gateway_rule_def
        stamp_def Let_def Connection_init_def)
  then obtain s1 where s1: "on_client 7 True (Received frame) s = Some s1" "rsp_queue s1 = rsp_queue s"
    "v3_contents (cmd_queue s1) = [command_of (token ?c) ?m]"
    using on_client_received [OF server_reachable_inv [OF r] c, of frame] req(1) q(1) by (force simp: Connection_init_def)
  let ?e = "\<lparr>ev_fd = 7, ev_in = True, ev_sends = (\<lambda>_. 64), ev_accepts = [], ev_recv = Received frame\<rparr>"
  have e2: "handle_event 4 3 ?e s = Some s1" "fresh_fds (ev_accepts ?e) s"
    using s1(1) by (simp_all add: handle_event_def fresh_fds.simps)
  show thesis
    by (rule that [OF r e1 e2]) (use s1(2,3) q(2) in \<open>simp_all add: commands_def responses_def matching_response_def command_of_def\<close>)
qed

lemma waiting_state:
  obtains x where "system_reachable 5 4 3 x" and "main_at x = Polling" and "responses (server x) \<noteq> []"
proof -
  obtain s e s1 where r: "server_reachable 4 3 s" and e: "handle_event 4 3 e s = Some s1" "fresh_fds (ev_accepts e) s"
    and q: "length (commands s1) = 1" "length (engine_answers (commands s1)) = 1" "responses s1 = []"
    by (rule client_order)
  have r1: "server_reachable 4 3 s1" using server_reachable.gateway [OF r e(2,1)] .
  then have v: "v3_inv kQueueCapacity (cmd_queue s1)" "v3_inv kQueueCapacity (rsp_queue s1)"
    using server_reachable_inv [OF r1] by (auto simp: server_inv_def)
  obtain run k cq rq where it: "matching_iteration (cmd_queue s1) (rsp_queue s1) = Some (run, k, cq, rq)"
    "v3_contents rq = v3_contents (rsp_queue s1) @ (if length (v3_contents (rsp_queue s1)) < 4095
        then engine_answers (take 1 (v3_contents (cmd_queue s1))) else [])"
    using matching_iteration_cases [OF v] by metis
  have "v3_contents rq \<noteq> []" using it(2) q by (auto simp: commands_def responses_def)
  then show thesis
    using sequential_states [OF server_reachable.engine [OF r1 it(1)], of 5] that by (force simp: responses_def)
qed

section \<open>Properties\<close>

text \<open>
  C3. The two threads never get stuck. In every state they reach, in any interleaving of their queue operations,
  the next step of either thread is defined (no access outside an array, no use of an erased connection)
  and keeps the invariant of the server, whatever the system calls return.
\<close>

theorem interleaving_never_stuck:
  assumes "system_reachable epoll_fd event_fd listen_fd x" and "accepts_fresh event_fd listen_fd x"
  shows "server_inv (server x) \<and>
         (\<exists>x'. main_step epoll_fd event_fd listen_fd w x = Some x' \<and> server_inv (server x')) \<and>
         (\<exists>x'. engine_step x = Some x' \<and> server_inv (server x'))"
  using main_step_inv [OF system_reachable_inv [OF assms(1)] assms(2), of epoll_fd w]
    engine_step_inv [OF system_reachable_inv [OF assms(1)]] system_reachable_inv [OF assms(1)]
  by (auto simp: system_inv_def)

theorem interleaving_never_stuck_witness:
  "\<exists>x'. main_step 5 4 3 Wait_Failed System_init = Some x' \<and> server_inv (server x')"
proof -
  have "accepts_fresh 4 3 System_init" by (simp add: accepts_fresh_def System_init_def)
  from interleaving_never_stuck [OF system_reachable.start [of 5 4 3] this] show ?thesis by blast
qed

text \<open>
  C9. No response is left without a wake-up. Whenever the gateway is about to wait for events and a response is in the
  queue, the counter of the \<^verbatim>\<open>eventfd\<close> is positive, so that \<^verbatim>\<open>epoll_wait\<close> reports it, or the next step of the
  matching thread makes it so. When the event is reported, its handler resets the counter and, however the
  matching thread interferes, leaves the queue empty after at most 8192 of its steps.
\<close>

theorem no_lost_wakeup:
  assumes "system_reachable epoll_fd event_fd listen_fd x" and "main_at x = Polling" and "responses (server x) \<noteq> []"
  shows "(0 < counter x \<or> (\<exists>x'. engine_step x = Some x' \<and> 0 < counter x' \<and> main_at x' = Polling \<and> server x' = server x)) \<and>
         (\<forall>ev evs as. ev_fd ev = event_fd \<and> 8192 \<le> length (filter is_gateway as) \<longrightarrow>
            (\<exists>bs cs x'. as = bs @ cs \<and>
               run_system epoll_fd event_fd listen_fd ([Gateway (Ready (ev # evs)), Gateway Interrupted] @ bs) x = Some x' \<and>
               main_at x' = Handling evs \<and> responses (server x') = []))"
proof (intro conjI allI impI)
  have inv: "system_inv x" by (rule system_reachable_inv [OF assms(1)])
  then have si: "server_inv (server x)" and eo: "engine_ok (engine_at x)"
    and w: "0 < counter x \<or> engine_at x = Notifying"
    using assms(2,3) by (auto simp: system_inv_def wake_inv_def)
  from si eo show "0 < counter x \<or> (\<exists>x'. engine_step x = Some x' \<and> 0 < counter x' \<and> main_at x' = Polling \<and> server x' = server x)"
    by (cases rule: engine_step_cases) (use w assms(2) in auto)
  fix ev :: event and evs as
  assume a: "ev_fd ev = event_fd \<and> 8192 \<le> length (filter is_gateway as)"
  let ?y = "x\<lparr>main_at := Handling (ev # evs)\<rparr>"
  let ?z = "?y\<lparr>counter := 0, main_at := Draining (ev_sends ev) 0 default evs\<rparr>"
  have y: "main_step epoll_fd event_fd listen_fd (Ready (ev # evs)) x = Some ?y" using assms(2) by (simp add: main_step_def)
  have z: "main_step epoll_fd event_fd listen_fd Interrupted ?y = Some ?z" using a by (simp add: main_step_def)
  have inv_z: "system_inv ?z" using inv assms(2) by (simp add: system_inv_def wake_inv_def no_shutdown_def)
  moreover have "rounds_left ?z < length (filter is_gateway as)" using rounds_left_bound [OF inv_z] a by linarith
  ultimately obtain bs cs x' where "as = bs @ cs" "run_system epoll_fd event_fd listen_fd bs ?z = Some x'"
    "main_at x' = Handling evs" "responses (server x') = []"
    using handler_ends_schedule [of ?z evs as epoll_fd event_fd listen_fd] by auto
  then show "\<exists>bs cs x'. as = bs @ cs \<and>
      run_system epoll_fd event_fd listen_fd ([Gateway (Ready (ev # evs)), Gateway Interrupted] @ bs) x = Some x' \<and>
      main_at x' = Handling evs \<and> responses (server x') = []"
    using y z by (intro exI [of _ bs] exI [of _ cs] exI [of _ x']) simp
qed

theorem no_lost_wakeup_witness:
  "\<exists>x. system_reachable 5 4 3 x \<and> main_at x = Polling \<and> responses (server x) \<noteq> [] \<and>
     (0 < counter x \<or> (\<exists>x'. engine_step x = Some x' \<and> 0 < counter x'))"
proof -
  obtain x where x: "system_reachable 5 4 3 x" "main_at x = Polling" "responses (server x) \<noteq> []" by (rule waiting_state)
  from no_lost_wakeup [OF this] show ?thesis using x by blast
qed

text \<open>
  C15. Every handler ends. In any schedule of the two threads that gives the gateway 8192 steps, it leaves the loop
  it is in and goes on with the remaining events: the drain loop cannot be kept busy by the matching
  thread, which only has the commands that were submitted before, and the parse loop consumes a frame per
  round. After a drain loop the response queue is empty.
\<close>

theorem handlers_end:
  assumes "system_reachable epoll_fd event_fd listen_fd x" and "loop_events (main_at x) = Some evs"
    and "8192 \<le> length (filter is_gateway as)"
  shows "\<exists>bs cs x'. as = bs @ cs \<and> run_system epoll_fd event_fd listen_fd bs x = Some x' \<and> main_at x' = Handling evs \<and>
           (draining (main_at x) \<longrightarrow> responses (server x') = [])"
proof -
  have inv: "system_inv x" by (rule system_reachable_inv [OF assms(1)])
  then have "rounds_left x < length (filter is_gateway as)" using rounds_left_bound [OF inv] assms(3) by linarith
  from handler_ends_schedule [OF inv assms(2) this] show ?thesis by blast
qed

theorem handlers_end_witness:
  "\<exists>x bs cs x'. system_reachable 5 4 3 x \<and> loop_events (main_at x) = Some [] \<and>
     replicate 8192 (Gateway Interrupted) = bs @ cs \<and> run_system 5 4 3 bs x = Some x' \<and> main_at x' = Handling []"
proof -
  obtain x sends where x: "system_reachable 5 4 3 x" "main_at x = Draining sends 0 default []" by (rule draining_state)
  have "loop_events (main_at x) = Some []" using x(2) by simp
  moreover have "8192 \<le> length (filter is_gateway (replicate 8192 (Gateway Interrupted)))" by simp
  ultimately show ?thesis using handlers_end [OF x(1), of "[]" "replicate 8192 (Gateway Interrupted)"] x(1) by blast
qed

text \<open>
  The sequential handlers are the undisturbed runs of the interleaved program: from any reachable state, the
  gateway's steps for one event have the result of \<^verbatim>\<open>handle_event\<close>, and at most three steps of the matching
  thread that of one round of its loop; every state of the sequential model is a state of the
  interleaved one.
\<close>

lemma handlers_are_runs:
  assumes "system_reachable epoll_fd event_fd listen_fd x"
  shows "(\<forall>ev evs. main_at x = Handling (ev # evs) \<and> fresh_fds (ev_accepts ev) (server x) \<longrightarrow>
            (\<exists>s m x'. handle_event event_fd listen_fd ev (server x) = Some s \<and>
               run_system epoll_fd event_fd listen_fd (replicate m (Gateway Interrupted)) x = Some x' \<and>
               server x' = s \<and> main_at x' = Handling evs \<and> engine_at x' = engine_at x)) \<and>
         (engine_at x = Popping \<longrightarrow>
            (\<exists>run k cq rq m x'. matching_iteration (cmd_queue (server x)) (rsp_queue (server x)) = Some (run, k, cq, rq) \<and>
               m \<le> 3 \<and> run_system epoll_fd event_fd listen_fd (replicate m Engine) x = Some x' \<and>
               server x' = (server x)\<lparr>cmd_queue := cq, rsp_queue := rq\<rparr> \<and> main_at x' = main_at x \<and>
               engine_at x' = (if run then Popping else Finished))) \<and>
         (\<forall>s. server_reachable event_fd listen_fd s \<longrightarrow>
            (\<exists>y. system_reachable epoll_fd event_fd listen_fd y \<and> server y = s \<and> main_at y = Polling))"
proof (intro conjI allI impI)
  have inv: "server_inv (server x)" using system_reachable_inv [OF assms] by (simp add: system_inv_def)
  fix ev evs
  assume a: "main_at x = Handling (ev # evs) \<and> fresh_fds (ev_accepts ev) (server x)"
  then obtain s where s: "handle_event event_fd listen_fd ev (server x) = Some s"
    using handle_event_inv [OF inv] by blast
  from handler_run [OF s, of evs epoll_fd] a
  show "\<exists>s m x'. handle_event event_fd listen_fd ev (server x) = Some s \<and>
      run_system epoll_fd event_fd listen_fd (replicate m (Gateway Interrupted)) x = Some x' \<and>
      server x' = s \<and> main_at x' = Handling evs \<and> engine_at x' = engine_at x"
    using s by fastforce
next
  assume a: "engine_at x = Popping"
  have inv: "server_inv (server x)" using system_reachable_inv [OF assms] by (simp add: system_inv_def)
  obtain run k cq rq where it: "matching_iteration (cmd_queue (server x)) (rsp_queue (server x)) = Some (run, k, cq, rq)"
    using matching_iteration_inv [OF inv] by blast
  from engine_run [OF it a, of epoll_fd event_fd listen_fd]
  show "\<exists>run k cq rq m x'. matching_iteration (cmd_queue (server x)) (rsp_queue (server x)) = Some (run, k, cq, rq) \<and>
      m \<le> 3 \<and> run_system epoll_fd event_fd listen_fd (replicate m Engine) x = Some x' \<and>
      server x' = (server x)\<lparr>cmd_queue := cq, rsp_queue := rq\<rparr> \<and> main_at x' = main_at x \<and>
      engine_at x' = (if run then Popping else Finished)"
    using it by fastforce
next
  fix s
  assume "server_reachable event_fd listen_fd s"
  from sequential_states [OF this]
  show "\<exists>y. system_reachable epoll_fd event_fd listen_fd y \<and> server y = s \<and> main_at y = Polling" by blast
qed

text \<open>
  C16. The shutdown completes if its command fits. When the event loop has ended and the command queue is not full,
  every schedule that gives the matching thread 12287 steps lets it answer what was queued, meet the
  \<^verbatim>\<open>Shutdown\<close> and end; then \<^verbatim>\<open>main\<close> returns from the join and closes every open connection, the epoll descriptor, the
  event descriptor and the listening socket, in this order and nothing else.
\<close>

theorem shutdown_completes:
  assumes "system_reachable epoll_fd event_fd listen_fd x" and "main_at x = Stopping" and "length (commands (server x)) < 4095"
    and "12287 \<le> length (filter (\<lambda>a. \<not> is_gateway a) as)"
  shows "\<exists>x'. run_system epoll_fd event_fd listen_fd ([Gateway w] @ as @ [Gateway w']) x = Some x' \<and> main_at x' = Exited \<and>
           io (server x') = io (server x) @ map Close (map fst (connections (server x))) @
             [Close epoll_fd, Close event_fd, Close listen_fd]"
proof -
  have inv: "system_inv x" by (rule system_reachable_inv [OF assms(1)])
  obtain q where q: "main_step epoll_fd event_fd listen_fd w x = Some (x\<lparr>server := (server x)\<lparr>cmd_queue := q\<rparr>, main_at := Joining\<rparr>)"
    "system_inv (x\<lparr>server := (server x)\<lparr>cmd_queue := q\<rparr>, main_at := Joining\<rparr>)"
    "commands ((server x)\<lparr>cmd_queue := q\<rparr>) = commands (server x) @ [shutdown_command]"
    using stopping_step [OF inv assms(2), of epoll_fd event_fd listen_fd w] assms(3) by auto
  let ?y = "x\<lparr>server := (server x)\<lparr>cmd_queue := q\<rparr>, main_at := Joining\<rparr>"
  have sh: "is_shutdown shutdown_command" by (simp add: is_shutdown_def shutdown_command_def)
  then have cl: "closing epoll_fd event_fd listen_fd (server x) ?y" using q(2,3) by (simp add: closing_def)
  have ns: "no_shutdown x" using inv assms(2) by (simp add: system_inv_def)
  then have "takeWhile (\<lambda>c. \<not> is_shutdown c) (commands (server ?y)) = commands (server x)"
    using q(3) sh by (simp add: no_shutdown_def takeWhile_append2)
  moreover have "engine_rank (engine_at ?y) \<le> 2" by (cases "engine_at ?y") simp_all
  ultimately have "stop_rank ?y \<le> 12287" using assms(3) by (simp add: stop_rank_def)
  then obtain z where z: "run_system epoll_fd event_fd listen_fd as ?y = Some z" "closing epoll_fd event_fd listen_fd (server x) z"
    "stop_rank z = 0" using closing_run [OF cl, of as] assms(4) by auto
  then have fin: "engine_at z = Finished" by (auto simp: stop_rank_def split: if_splits)
  obtain x' where x': "main_step epoll_fd event_fd listen_fd w' z = Some x'" "closing epoll_fd event_fd listen_fd (server x) x'"
    "main_at x' = Exited" using closing_main [OF z(2), of w'] fin by auto
  have "run_system epoll_fd event_fd listen_fd ([Gateway w] @ as @ [Gateway w']) x = Some x'"
    using q(1) z(1) x'(1) by (simp add: run_system_append)
  then show ?thesis using x'(2,3) by (auto simp: closing_def close_all_def)
qed

theorem shutdown_completes_witness:
  "\<exists>x x'. system_reachable 5 4 3 x \<and> length (commands (server x)) = 100 \<and>
     run_system 5 4 3 ([Gateway Interrupted] @ replicate 12287 Engine @ [Gateway Interrupted]) x = Some x' \<and> main_at x' = Exited"
proof -
  have "100 \<le> (4095 :: nat)" by simp
  then obtain x where x: "system_reachable 5 4 3 x" "main_at x = Stopping" "length (commands (server x)) = 100"
    by (rule stopping_state)
  have n: "12287 \<le> length (filter (\<lambda>a. \<not> is_gateway a) (replicate 12287 Engine))" by simp
  have "length (commands (server x)) < 4095" using x(3) by simp
  from shutdown_completes [OF x(1,2) this n] show ?thesis using x by blast
qed

text \<open>
  C37. The shutdown hangs if its command does not fit. \<^verbatim>\<open>main\<close> does not look at the result of the push: when the command queue
  is full as the event loop ends, the \<^verbatim>\<open>Shutdown\<close> is lost, the matching thread empties the queue and
  then polls for ever, and whatever the schedule \<^verbatim>\<open>main\<close> waits in the join and closes nothing.
\<close>

theorem shutdown_lost_hangs:
  assumes "system_reachable epoll_fd event_fd listen_fd x" and "main_at x = Stopping" and "length (commands (server x)) = 4095"
  shows "\<exists>x'. run_system epoll_fd event_fd listen_fd (Gateway w # as) x = Some x' \<and> main_at x' = Joining \<and>
           engine_at x' \<noteq> Finished"
proof -
  have inv: "system_inv x" by (rule system_reachable_inv [OF assms(1)])
  obtain q where q: "main_step epoll_fd event_fd listen_fd w x = Some (x\<lparr>server := (server x)\<lparr>cmd_queue := q\<rparr>, main_at := Joining\<rparr>)"
    "system_inv (x\<lparr>server := (server x)\<lparr>cmd_queue := q\<rparr>, main_at := Joining\<rparr>)"
    "commands ((server x)\<lparr>cmd_queue := q\<rparr>) = commands (server x)"
    using stopping_step [OF inv assms(2), of epoll_fd event_fd listen_fd w] assms(3) by auto
  have "no_shutdown x" using inv assms(2) by (simp add: system_inv_def)
  then have "no_shutdown (x\<lparr>server := (server x)\<lparr>cmd_queue := q\<rparr>, main_at := Joining\<rparr>)" using q(3) by (simp add: no_shutdown_def)
  from join_hangs_run [OF q(2) _ this, of epoll_fd event_fd listen_fd as] show ?thesis
    using q(1) by (auto simp: no_shutdown_def)
qed

theorem shutdown_lost_hangs_witness:
  "\<exists>x x'. system_reachable 5 4 3 x \<and> main_at x = Stopping \<and>
     run_system 5 4 3 (Gateway Interrupted # replicate 100000 Engine) x = Some x' \<and> main_at x' = Joining"
proof -
  have "4095 \<le> (4095 :: nat)" by simp
  then obtain x where x: "system_reachable 5 4 3 x" "main_at x = Stopping" "length (commands (server x)) = 4095"
    by (rule stopping_state)
  from shutdown_lost_hangs [OF this, of Interrupted "replicate 100000 Engine"] show ?thesis using x(1,2) by blast
qed

end
