(* ===== verification/Server_Main.thy ===== *)
theory Server_Main
  imports Event_Loop
begin

text \<open>
  \<^verbatim>\<open>main\<close> of \<^verbatim>\<open>epoll_server.cpp\<close> outside the event loop: the socket, queue and epoll set-up with its error
  returns, and the life of the descriptors from \<^verbatim>\<open>accept\<close> to \<^verbatim>\<open>close\<close>. The results of the system calls
  are an argument; what the program does with descriptors is a trace.
\<close>

section \<open>Start-up\<close>

definition kPort :: int where
  "kPort = 9000"

definition kBacklog :: int where
  "kBacklog = 128"

text \<open>What the system calls of the start-up return; a negative number is an error.\<close>

record start_results =
  r_socket :: int
  r_bind :: int
  r_listen :: int
  r_eventfd :: int
  r_epoll :: int
  r_getfl :: int
  r_add_listen :: int
  r_add_event :: int

datatype effect =
    Opened int
  | Setsockopt int string int
  | Fcntl_Setfl int int
  | Bind_Loopback int int
  | Listen int int
  | Spawn_Matching
  | Register int int nat
  | Perror string
  | Closed int

text \<open>
  The helper functions; \<open>fl\<close> is the result of \<^verbatim>\<open>fcntl(fd, F_GETFL, 0)\<close>, \<open>result\<close> that of \<^verbatim>\<open>epoll_ctl\<close>, whose
  failure is only printed. The two constants have their values on Linux.
\<close>

definition O_NONBLOCK :: int where
  "O_NONBLOCK = 2048"

definition EPOLLIN :: nat where
  "EPOLLIN = 1"

definition set_reuseaddr :: "int \<Rightarrow> effect list" where
  "set_reuseaddr f = [Setsockopt f ''SO_REUSEADDR'' 1]"

definition set_nonblocking :: "int \<Rightarrow> int \<Rightarrow> effect list" where
  "set_nonblocking fl f = [Fcntl_Setfl f (fl OR O_NONBLOCK)]"

definition epoll_add :: "int \<Rightarrow> int \<Rightarrow> int \<Rightarrow> nat \<Rightarrow> effect list" where
  "epoll_add result epoll_fd f events =
     (if result < 0 then [Perror ''epoll_ctl ADD''] else [Register epoll_fd f events])"

definition create_listen_socket :: "start_results \<Rightarrow> int \<times> effect list" where
  "create_listen_socket r =
     (let fd = r_socket r
      in if fd < 0 then (- 1, [Perror ''socket''])
         else
           let t = [Opened fd] @ set_reuseaddr fd @ set_nonblocking (r_getfl r) fd @ [Bind_Loopback fd kPort]
           in if r_bind r < 0 then (- 1, t @ [Perror ''bind'', Closed fd])
              else if r_listen r < 0 then (- 1, t @ [Listen fd kBacklog, Perror ''listen'', Closed fd])
              else (fd, t @ [Listen fd kBacklog]))"

text \<open>
  How \<^verbatim>\<open>main\<close> leaves its start-up. Leaving \<^verbatim>\<open>main\<close> destroys its local variables: the destructor of a
  \<^verbatim>\<open>std::thread\<close> that is still joinable calls \<^verbatim>\<open>std::terminate\<close>.
\<close>

datatype start_outcome = Returned int | Terminated | Running int int int System

definition leave_main :: "bool \<Rightarrow> int \<Rightarrow> start_outcome" where
  "leave_main joinable code = (if joinable then Terminated else Returned code)"

definition start_server :: "start_results \<Rightarrow> start_outcome \<times> effect list" where
  "start_server r =
     (let (listen_fd, t) = create_listen_socket r
      in if listen_fd < 0 then (leave_main False 1, t)
         else let event_fd = r_eventfd r
           in if event_fd < 0 then (leave_main False 1, t @ [Perror ''eventfd'', Closed listen_fd])
              else let t = t @ [Opened event_fd, Spawn_Matching]; epoll_fd = r_epoll r
                in if epoll_fd < 0 then (leave_main True 1, t @ [Perror ''epoll_create1'', Closed listen_fd])
                   else (Running epoll_fd event_fd listen_fd System_init,
                         t @ [Opened epoll_fd] @
                           epoll_add (r_add_listen r) epoll_fd listen_fd EPOLLIN @
                           epoll_add (r_add_event r) epoll_fd event_fd EPOLLIN))"

text \<open>The descriptors a trace leaves open.\<close>

fun left_open :: "int set \<Rightarrow> effect list \<Rightarrow> int set" where
  "left_open D [] = D"
| "left_open D (Opened f # es) = left_open (insert f D) es"
| "left_open D (Closed f # es) = left_open (D - {f}) es"
| "left_open D (_ # es) = left_open D es"

section \<open>The descriptors of the clients\<close>

text \<open>
  A descriptor may be sent to, deregistered and closed only while it is open, and be opened only while it is not;
  the result is the set of the open ones.
\<close>

fun run_io :: "int set \<Rightarrow> io list \<Rightarrow> int set option" where
  "run_io D [] = Some D"
| "run_io D (Accept f # es) = (if f \<in> D then None else run_io (insert f D) es)"
| "run_io D (Set_Nonblocking f # es) = (if f \<in> D then run_io D es else None)"
| "run_io D (Set_Nodelay f # es) = (if f \<in> D then run_io D es else None)"
| "run_io D (Epoll_Add f # es) = (if f \<in> D then run_io D es else None)"
| "run_io D (Send f _ # es) = (if f \<in> D then run_io D es else None)"
| "run_io D (Epoll_Remove f # es) = (if f \<in> D then run_io D es else None)"
| "run_io D (Close f # es) = (if f \<in> D then run_io (D - {f}) es else None)"

lemma run_io_append: "run_io D (es @ fs) = do { D \<leftarrow> run_io D es; run_io D fs }"
proof (induction es arbitrary: D)
  case (Cons e es)
  then show ?case by (cases e) simp_all
qed simp

definition ledger :: "Server \<Rightarrow> bool" where
  "ledger s \<longleftrightarrow> run_io {} (io s) = Some (dom (map_of (connections s))) \<and> distinct (map fst (connections s))"

lemma ledger_queues [simp]:
  "ledger (s\<lparr>cmd_queue := q\<rparr>) = ledger s" "ledger (s\<lparr>rsp_queue := r\<rparr>) = ledger s"
  by (simp_all add: ledger_def)

lemma ledger_send: "ledger s \<Longrightarrow> map_of (connections s) f \<noteq> None \<Longrightarrow> ledger (perform [Send f frame] s)"
  by (simp add: ledger_def run_io_append domIff)

lemma ledger_put: "ledger s \<Longrightarrow> map_of (connections s) f \<noteq> None \<Longrightarrow> ledger (put_conn f c s)"
  by (auto simp: ledger_def put_conn_def AList.update_conv' distinct_update insert_absorb domIff)

lemma ledger_close:
  assumes "ledger s" and "map_of (connections s) f \<noteq> None" and "close_conn f s = Some s'"
  shows "ledger s'"
proof -
  obtain c where c: "map_of (connections s) f = Some c" using assms(2) by auto
  have "connections s' = AList.delete f (connections s)" "io s' = io s @ [Epoll_Remove f, Close f]"
    using assms(3) c io_prefix_close [OF assms(3)] by (auto simp: close_conn_def Let_def split: bind_splits)
  then show ?thesis using assms(1,2) c
    by (auto simp: ledger_def run_io_append AList.delete_conv' distinct_delete domIff)
qed

lemma ledger_accept:
  assumes "ledger s" and "length (slots s) = 1024" and "map_of (connections s) f = None" and "accept_one f s = Some s'"
  shows "ledger s'"
  using assms accept_one_eq [OF assms(2), of f]
  by (auto simp: ledger_def run_io_append domIff map_of_eq_None_iff)

lemma ledger_accepts:
  "accept_clients fs s = Some s' \<Longrightarrow> ledger s \<Longrightarrow> server_inv s \<Longrightarrow> fresh_fds fs s \<Longrightarrow> ledger s'"
proof (induction fs arbitrary: s)
  case (Cons f fs)
  have f: "map_of (connections s) f = None" using Cons.prems(4) by (simp add: fresh_fds.simps)
  obtain t c where t: "accept_one f s = Some t" "server_inv t" "map_of (connections t) = (map_of (connections s))(f \<mapsto> c)"
    using accept_one_inv [OF Cons.prems(3) f] by metis
  have "ledger t" using ledger_accept [OF Cons.prems(2) _ f t(1)] Cons.prems(3) by (simp add: server_inv_def)
  moreover have "fresh_fds fs t" using Cons.prems(4) t(3) by (auto simp: fresh_fds.simps)
  ultimately show ?case using Cons t by simp
qed simp

lemma ledger_response:
  assumes inv: "server_inv s" and led: "ledger s" and step: "on_response sent rsp s = Some s'"
  shows "ledger s'"
proof -
  let ?i = "unat (slot (EngineResponse.session rsp))"
  let ?sl = "slots s ! ?i"
  have i: "?i < length (slots s)" using step by (auto simp: on_response_def span_get_def split: if_splits)
  show ?thesis
  proof (cases "SessionSlot.generation ?sl \<noteq> SessionToken.generation (EngineResponse.session rsp) \<or> SessionSlot.fd ?sl < 0")
    case True
    then show ?thesis using step led i by (auto simp: on_response_def span_get_def)
  next
    case False
    then have f: "map_of (connections s) (SessionSlot.fd ?sl) \<noteq> None"
      using inv i by (auto simp: server_inv_def routed_def)
    obtain frame where "encode_response rsp (replicate kFrameSize 0) = Some frame"
      using step i False by (auto simp: on_response_def span_get_def split: bind_splits)
    then have st: "(if sent \<noteq> int (length frame) then close_conn (SessionSlot.fd ?sl) (perform [Send (SessionSlot.fd ?sl) frame] s)
        else Some (perform [Send (SessionSlot.fd ?sl) frame] s)) = Some s'"
      using step i False by (simp add: on_response_def span_get_def Let_def)
    have led': "ledger (perform [Send (SessionSlot.fd ?sl) frame] s)" using ledger_send [OF led f] .
    show ?thesis using st led' ledger_close [OF led', of "SessionSlot.fd ?sl" s'] f by (simp split: if_splits)
  qed
qed

lemma ledger_message:
  assumes led: "ledger s" and f: "map_of (connections s) f \<noteq> None" and step: "on_message f False msg s = Some (cont, stop, s')"
  shows "ledger s'"
  using assms by (auto simp: on_message_def Let_def intro!: ledger_send ledger_put split: if_splits bind_splits)

lemma ledger_drain_round:
  assumes inv: "server_inv s" and led: "ledger s" and step: "drain_round sent rsp s = Some (go, rsp', s')"
  shows "ledger s'"
proof -
  have vi: "v3_inv kQueueCapacity (rsp_queue s)" using inv by (simp add: server_inv_def)
  obtain q where q: "v3_inv kQueueCapacity q" "v3_contents q = tl (responses s)"
    "v3_pop kQueueCapacity (rsp_queue s) rsp = Some (responses s \<noteq> [], case responses s of [] \<Rightarrow> rsp | x # _ \<Rightarrow> x, q)"
    using v3_fifo.pop_any [OF vi] unfolding responses_def by blast
  have "\<forall>r \<in> set (v3_contents q). token_ok (EngineResponse.session r)"
    using inv q(2) by (cases "responses s") (auto simp: server_inv_def responses_def)
  then have inv': "server_inv (s\<lparr>rsp_queue := q\<rparr>)" using server_inv_rsp_queue [OF inv q(1)] by blast
  have led': "ledger (s\<lparr>rsp_queue := q\<rparr>)" using led by simp
  show ?thesis using step q(3) led' ledger_response [OF inv' led']
    by (auto simp: drain_round_def Let_def split: if_splits bind_splits)
qed

lemma ledger_client_read:
  assumes led: "ledger s" and step: "client_read f epollin result s = Some (go, s')"
  shows "ledger s'"
proof (cases "map_of (connections s) f")
  case None
  then show ?thesis using led step by (auto simp: client_read_def split: if_splits)
next
  case (Some c)
  have put: "ledger (put_conn f d s)" for d using ledger_put [OF led] Some by simp
  have close: "ledger s'" if "map_option (Pair False) (close_conn f t) = Some (go, s')" "ledger t" "map_of (connections t) f \<noteq> None" for t
    using that ledger_close by auto
  show ?thesis
  proof (cases result)
    case (Received bytes)
    show ?thesis
    proof (cases "epollin \<and> bytes \<noteq> []")
      case True
      then obtain ok p where ap: "append_bytes kParserCapacity (parser c) bytes = Some (ok, p)"
        using step Some Received by (auto simp: client_read_def split: bind_splits)
      have st: "(if \<not> ok then map_option (Pair False) (close_conn f (put_conn f (c\<lparr>parser := p\<rparr>) s))
          else Some (True, put_conn f (c\<lparr>parser := p\<rparr>) s)) = Some (go, s')"
        using step Some Received True ap by (simp add: client_read_def Let_def)
      show ?thesis
      proof (cases ok)
        case True
        then show ?thesis using st put by auto
      next
        case False
        then have "map_option (Pair False) (close_conn f (put_conn f (c\<lparr>parser := p\<rparr>) s)) = Some (go, s')"
          using st by simp
        then show ?thesis by (rule close [OF _ put]) simp
      qed
    next
      case False
      then show ?thesis using step Some Received led close [OF _ led] by (auto simp: client_read_def split: if_splits)
    qed
  qed (use step Some led close [OF _ led] in \<open>auto simp: client_read_def split: if_splits\<close>)
qed

lemma ledger_client_round:
  assumes led: "ledger s" and step: "client_round f False s = Some (go, stop, s')"
  shows "ledger s'"
proof -
  obtain c st m p where c: "map_of (connections s) f = Some c" "try_parse kParserCapacity (parser c) default = Some (st, m, p)"
    using step by (auto simp: client_round_def split: bind_splits)
  have put: "ledger (put_conn f (c\<lparr>parser := p\<rparr>) s)" using ledger_put [OF led] c(1) by simp
  show ?thesis
  proof (cases "st = Status.NeedMoreData \<or> st = Status.ProtocolError")
    case True
    then show ?thesis using step c put by (auto simp: client_round_def Let_def)
  next
    case False
    then have "on_message f False m (put_conn f (c\<lparr>parser := p\<rparr>) s) = Some (go, stop, s')"
      using step c by (simp add: client_round_def Let_def)
    then show ?thesis using ledger_message [OF put, of f m go stop s'] by simp
  qed
qed

definition books :: "int \<Rightarrow> int \<Rightarrow> int \<Rightarrow> System \<Rightarrow> bool" where
  "books ep ev li x \<longleftrightarrow>
     (if main_at x = Exited
      then \<exists>es. io (server x) = es @ [Close ep, Close ev, Close li] \<and> run_io {} es = Some {}
      else ledger (server x))"

lemma run_io_close_all: "distinct fs \<Longrightarrow> run_io (set fs) (map Close fs) = Some {}"
  by (induction fs) (auto simp: Diff_insert_absorb)

lemma books_engine: "books ep ev li x \<Longrightarrow> engine_step x = Some x' \<Longrightarrow> books ep ev li x'"
  by (auto simp: books_def engine_step_def Let_def split: engine_pc.splits bind_splits if_splits option.splits)

lemma books_main:
  assumes inv: "system_inv x" and fresh: "accepts_fresh ev li x" and bk: "books ep ev li x"
    and step: "main_step ep ev li w x = Some x'"
  shows "books ep ev li x'"
proof (cases "main_at x")
  case Polling
  then show ?thesis using bk step by (cases w) (auto simp: main_step_def books_def)
next
  case (Handling evs)
  show ?thesis
  proof (cases evs)
    case Nil
    then show ?thesis using Handling bk step by (auto simp: main_step_def books_def)
  next
    case (Cons e es)
    show ?thesis
    proof (cases "ev_fd e = ev")
      case True
      then show ?thesis using Handling Cons bk step by (auto simp: main_step_def books_def)
    next
      case False
      obtain s go s' where s: "(if ev_fd e = li then accept_clients (ev_accepts e) (server x) else Some (server x)) = Some s"
        "client_read (ev_fd e) (ev_in e) (ev_recv e) s = Some (go, s')"
        "x' = x\<lparr>server := s', main_at := (if go then Parsing (ev_fd e) False es else Handling es)\<rparr>"
        using Handling Cons False step by (auto simp: main_step_def split: bind_splits)
      have "ledger s"
        using s(1) bk Handling Cons False fresh inv ledger_accepts [of "ev_accepts e" "server x" s]
        by (auto simp: books_def accepts_fresh_def system_inv_def split: if_splits)
      then have "ledger s'" using ledger_client_read s(2) by blast
      then show ?thesis using s(3) by (simp add: books_def)
    qed
  qed
next
  case (Draining sends k rsp evs)
  have "server_inv (server x)" "ledger (server x)" using inv bk Draining by (auto simp: system_inv_def books_def)
  then show ?thesis using Draining step
    by (auto simp: main_step_def books_def dest: ledger_drain_round split: bind_splits if_splits)
next
  case (Parsing f stop evs)
  have "stop = False" "ledger (server x)" using inv bk Parsing by (auto simp: system_inv_def books_def)
  then show ?thesis using Parsing step
    by (auto simp: main_step_def books_def dest: ledger_client_round split: bind_splits if_splits)
next
  case Stopping
  then show ?thesis using bk step by (auto simp: main_step_def send_shutdown_def books_def split: bind_splits)
next
  case Joining
  have led: "run_io {} (io (server x)) = Some (dom (map_of (connections (server x))))" "distinct (map fst (connections (server x)))"
    using bk Joining by (auto simp: books_def ledger_def)
  have "run_io {} (io (server x) @ map Close (map fst (connections (server x)))) = Some {}"
    using led run_io_close_all [of "map fst (connections (server x))"] by (simp add: run_io_append dom_map_of_conv_image_fst)
  then show ?thesis using Joining bk step by (auto simp: main_step_def books_def close_all_def split: if_splits)
next
  case Exited
  then show ?thesis using bk step by (auto simp: main_step_def)
qed

lemma reachable_books: "system_reachable ep ev li x \<Longrightarrow> books ep ev li x"
proof (induction rule: system_reachable.induct)
  case start
  then show ?case by (simp add: books_def System_init_def ledger_def Server_init_def)
next
  case (gateway x w x')
  then show ?case using books_main [OF system_reachable_inv] by blast
next
  case (engine x x')
  then show ?case using books_engine by blast
qed

section \<open>Properties\<close>

text \<open>
  C14. No client descriptor is leaked, closed twice or used after it was closed. In every reachable state of the two threads the
  trace of system calls accepts a descriptor only while it is not open, and sets it up, sends to it, deregisters it and closes it
  only while it is; the descriptors that are open are exactly those of the connections, and when \<^verbatim>\<open>main\<close>
  has returned none is, and the three descriptors of the server have been closed last.
\<close>

theorem descriptors_accounted:
  assumes "system_reachable epoll_fd event_fd listen_fd x"
  shows "if main_at x = Exited
         then \<exists>es. io (server x) = es @ [Close epoll_fd, Close event_fd, Close listen_fd] \<and> run_io {} es = Some {}
         else run_io {} (io (server x)) = Some (dom (map_of (connections (server x)))) \<and>
              distinct (map fst (connections (server x)))"
  using reachable_books [OF assms] unfolding books_def ledger_def .

theorem descriptors_accounted_witness:
  "\<exists>x. system_reachable 5 4 3 x \<and> run_io {} (io (server x)) = Some {7}"
proof -
  obtain s where s: "server_reachable 4 3 s" "io s = accept_calls 7" using one_client by metis
  obtain x where x: "system_reachable 5 4 3 x" "server x = s" "main_at x = Polling" using sequential_states [OF s(1)] by metis
  have "run_io {} (io (server x)) = Some {7}" using descriptors_accounted [OF x(1)] x s(2) by auto
  then show ?thesis using x(1) by blast
qed

text \<open>
  C26. A failed start-up, case by case. If the socket, \<^verbatim>\<open>bind\<close>, \<^verbatim>\<open>listen\<close> or the \<^verbatim>\<open>eventfd\<close> fails, \<^verbatim>\<open>main\<close>
  returns 1 and every descriptor it opened is closed. If \<^verbatim>\<open>epoll_create1\<close> fails, the matching thread already runs:
  the event descriptor stays open and returning from \<^verbatim>\<open>main\<close> destroys a joinable thread, which terminates
  the process instead of returning 1. Otherwise the three descriptors are open, and the server starts in its initial state; it
  does so also if \<^verbatim>\<open>epoll_ctl\<close> fails, which is only printed, and then the listening socket or the \<^verbatim>\<open>eventfd\<close> is
  never polled. The listening socket does not block.
\<close>

theorem startup_outcomes:
  assumes "distinct (filter ((\<le>) 0) [r_socket r, r_eventfd r, r_epoll r])"
  shows "case start_server r of (outcome, trace) \<Rightarrow>
     if r_socket r < 0 \<or> r_bind r < 0 \<or> r_listen r < 0 \<or> r_eventfd r < 0
     then outcome = Returned 1 \<and> left_open {} trace = {} \<and> Spawn_Matching \<notin> set trace
     else if r_epoll r < 0
     then outcome = Terminated \<and> left_open {} trace = {r_eventfd r} \<and> Spawn_Matching \<in> set trace
     else outcome = Running (r_epoll r) (r_eventfd r) (r_socket r) System_init \<and>
       left_open {} trace = {r_epoll r, r_eventfd r, r_socket r} \<and>
       (Register (r_epoll r) (r_socket r) EPOLLIN \<in> set trace \<longleftrightarrow> 0 \<le> r_add_listen r) \<and>
       (Register (r_epoll r) (r_eventfd r) EPOLLIN \<in> set trace \<longleftrightarrow> 0 \<le> r_add_event r) \<and>
       Fcntl_Setfl (r_socket r) (r_getfl r OR O_NONBLOCK) \<in> set trace"
  using assms
  by (auto simp: start_server_def create_listen_socket_def leave_main_def set_reuseaddr_def set_nonblocking_def epoll_add_def
      Let_def split: if_splits)

theorem startup_outcomes_witness:
  "\<exists>trace. start_server \<lparr>r_socket = 3, r_bind = 0, r_listen = 0, r_eventfd = 4, r_epoll = - 1, r_getfl = 2,
     r_add_listen = 0, r_add_event = 0\<rparr> = (Terminated, trace) \<and> left_open {} trace = {4}"
proof -
  let ?r = "\<lparr>r_socket = 3, r_bind = 0, r_listen = 0, r_eventfd = 4, r_epoll = - 1, r_getfl = 2, r_add_listen = 0, r_add_event = 0\<rparr>"
  have "distinct (filter ((\<le>) 0) [r_socket ?r, r_eventfd ?r, r_epoll ?r])" by simp
  from startup_outcomes [OF this] show ?thesis by (cases "start_server ?r") simp
qed

end
