(* ===== verification/Pipeline.thy ===== *)
theory Pipeline
  imports Event_Loop
begin

text \<open>
  The two queues and the two threads of \<^verbatim>\<open>epoll_server.cpp\<close> as one pipeline: what happens to a command between
  the push of the gateway and the response that the gateway pops. History variables beside the state of
  \<open>Event_Loop\<close> record what was submitted, what was refused by a full response queue, and what was delivered.
\<close>

section \<open>History\<close>

text \<open>
  What one step adds to the history: the commands that are new at the end of the command queue, the responses that
  left the response queue at its head, and a response that the matching thread could not push.
\<close>

definition submitted :: "System \<Rightarrow> System \<Rightarrow> EngineCommand list" where
  "submitted x x' = drop (length (commands (server x))) (commands (server x'))"

definition popped :: "System \<Rightarrow> System \<Rightarrow> EngineResponse list" where
  "popped x x' = take (length (responses (server x)) - length (responses (server x'))) (responses (server x))"

definition refused :: "System \<Rightarrow> EngineResponse list" where
  "refused x =
     (case engine_at x of
        Responding rsp \<Rightarrow>
          (case v3_push kQueueCapacity (rsp_queue (server x)) rsp of Some (False, _) \<Rightarrow> [rsp] | _ \<Rightarrow> [])
      | _ \<Rightarrow> [])"

inductive flow ::
  "int \<Rightarrow> int \<Rightarrow> int \<Rightarrow> System \<Rightarrow> EngineCommand list \<Rightarrow> EngineResponse list \<Rightarrow> EngineResponse list \<Rightarrow> bool"
  for epoll_fd event_fd listen_fd where
  start: "flow epoll_fd event_fd listen_fd System_init [] [] []"
| gateway: "flow epoll_fd event_fd listen_fd x' (sub @ submitted x x') lost (del @ popped x x')"
    if "flow epoll_fd event_fd listen_fd x sub lost del" and "accepts_fresh event_fd listen_fd x"
    and "main_step epoll_fd event_fd listen_fd w x = Some x'"
| engine: "flow epoll_fd event_fd listen_fd x' sub (lost @ refused x) del"
    if "flow epoll_fd event_fd listen_fd x sub lost del" and "engine_step x = Some x'"

text \<open>The histories are those of the reachable states.\<close>

lemma flow_reachable: "flow ep ev li x sub lost del \<Longrightarrow> system_reachable ep ev li x"
  by (induction rule: flow.induct) (auto intro: system_reachable.intros)

lemma reachable_flow: "system_reachable ep ev li x \<Longrightarrow> \<exists>sub lost del. flow ep ev li x sub lost del"
  by (induction rule: system_reachable.induct) (blast intro: flow.intros)+

lemma flow_system_inv: "flow ep ev li x sub lost del \<Longrightarrow> system_inv x"
  by (rule system_reachable_inv) (rule flow_reachable)

text \<open>The response the matching thread holds.\<close>

fun hand :: "engine_pc \<Rightarrow> EngineResponse list" where
  "hand (Responding rsp) = [rsp]"
| "hand _ = []"

section \<open>What a step of the gateway does to the queues\<close>

text \<open>It appends commands, and a \<^verbatim>\<open>Shutdown\<close> only at its end; it pops at most one response.\<close>

definition appends :: "System \<Rightarrow> EngineCommand list \<Rightarrow> System \<Rightarrow> bool" where
  "appends x cs x' \<longleftrightarrow> commands (server x') = commands (server x) @ cs \<and> engine_at x' = engine_at x \<and>
     (if main_at x = Stopping then cs \<in> {[], [shutdown_command]} else \<forall>c \<in> set cs. \<not> is_shutdown c) \<and>
     (stopped (main_at x) \<longrightarrow> cs = []) \<and>
     (if draining (main_at x) then engine_answers cs = [] \<and> responses (server x') = tl (responses (server x))
      else responses (server x') = responses (server x))"

lemma draining_appends:
  assumes inv: "system_inv x" and at: "main_at x = Draining sends k rsp evs"
  shows "\<exists>cs x'. main_step ep ev li w x = Some x' \<and> appends x cs x'"
proof -
  have si: "server_inv (server x)" using inv by (simp add: system_inv_def)
  from drain_round_inv [OF si, of "sends k" rsp] obtain rsp' s' cs where
    "drain_round (sends k) rsp (server x) = Some (responses (server x) \<noteq> [], rsp', s')"
    "responses s' = tl (responses (server x))" "submits (server x) cs s'" "engine_answers cs = []" by blast
  then show ?thesis using at
    by (intro exI [of _ cs] exI [of _ "x\<lparr>server := s', main_at := (if responses (server x) \<noteq> [] then Draining sends (Suc k) rsp' evs
        else Handling evs)\<rparr>"]) (simp add: main_step_def appends_def submits_def)
qed

lemma parsing_appends:
  assumes inv: "system_inv x" and at: "main_at x = Parsing f stop evs"
  shows "\<exists>cs x'. main_step ep ev li w x = Some x' \<and> appends x cs x'"
proof -
  have si: "server_inv (server x)" and f: "map_of (connections (server x)) f \<noteq> None" and st: "stop = False"
    using inv at by (auto simp: system_inv_def)
  from client_round_inv [OF si f] obtain more stop' s' cs where
    "client_round f False (server x) = Some (more, stop', s')" "rsp_queue s' = rsp_queue (server x)" "submits (server x) cs s'" by blast
  then show ?thesis using at st
    by (intro exI [of _ cs] exI [of _ "x\<lparr>server := s', main_at := (if more then Parsing f stop' evs else Handling evs)\<rparr>"])
      (simp add: main_step_def appends_def submits_def responses_def)
qed

lemma handling_appends:
  assumes inv: "system_inv x" and at: "main_at x = Handling (e # evs)" and fresh: "accepts_fresh ev li x"
  shows "\<exists>cs x'. main_step ep ev li w x = Some x' \<and> appends x cs x'"
proof (cases "ev_fd e = ev")
  case True
  then show ?thesis using at
    by (intro exI [of _ "[]"] exI [of _ "x\<lparr>counter := 0, main_at := Draining (ev_sends e) 0 default evs\<rparr>"])
      (simp add: main_step_def appends_def)
next
  case False
  have si: "server_inv (server x)" using inv by (simp add: system_inv_def)
  obtain s1 where s1: "(if ev_fd e = li then accept_clients (ev_accepts e) (server x) else Some (server x)) = Some s1"
    "server_inv s1" "rsp_queue s1 = rsp_queue (server x)" "cmd_queue s1 = cmd_queue (server x)"
    using accept_stage [OF si at fresh False] by blast
  from client_read_inv [OF s1(2), of "ev_fd e" "ev_in e" "ev_recv e"] obtain loop s2 cs where
    "client_read (ev_fd e) (ev_in e) (ev_recv e) s1 = Some (loop, s2)" "rsp_queue s2 = rsp_queue s1" "submits s1 cs s2" by blast
  then show ?thesis using s1 at False
    by (intro exI [of _ cs] exI [of _ "x\<lparr>server := s2, main_at := (if loop then Parsing (ev_fd e) False evs else Handling evs)\<rparr>"])
      (simp add: main_step_def appends_def submits_def responses_def commands_def)
qed

lemma main_step_appends:
  assumes inv: "system_inv x" and fresh: "accepts_fresh ev li x" and step: "main_step ep ev li w x = Some x'"
  obtains cs where "appends x cs x'"
proof -
  have "\<exists>cs x'. main_step ep ev li w x = Some x' \<and> appends x cs x'"
  proof (cases "main_at x")
    case Stopping
    from stopping_step [OF inv this] obtain q where
      "main_step ep ev li w x = Some (x\<lparr>server := (server x)\<lparr>cmd_queue := q\<rparr>, main_at := Joining\<rparr>)"
      "commands ((server x)\<lparr>cmd_queue := q\<rparr>) =
         commands (server x) @ (if length (commands (server x)) < 4095 then [shutdown_command] else [])" by blast
    then show ?thesis using Stopping
      by (intro exI [of _ "if length (commands (server x)) < 4095 then [shutdown_command] else []"]
          exI [of _ "x\<lparr>server := (server x)\<lparr>cmd_queue := q\<rparr>, main_at := Joining\<rparr>"])
        (simp add: appends_def responses_def)
  next
    case (Handling evs)
    then show ?thesis using handling_appends [OF inv _ fresh]
      by (cases evs) (auto simp: main_step_def appends_def intro: exI [of _ "[]"])
  next
    case Polling
    then show ?thesis
      by (cases w) (auto simp: main_step_def appends_def intro: exI [of _ "[]"])
  next
    case Joining
    then show ?thesis
      by (auto simp: main_step_def appends_def close_all_def responses_def commands_def intro: exI [of _ "[]"])
  next
    case Exited
    then show ?thesis by (auto simp: main_step_def appends_def intro: exI [of _ "[]"])
  qed (use draining_appends [OF inv] parsing_appends [OF inv] in blast)+
  then show thesis using that step by auto
qed

lemma appends_history:
  assumes "appends x cs x'"
  shows "submitted x x' = cs"
    and "popped x x' = (if draining (main_at x) then take 1 (responses (server x)) else [])"
  using assms by (cases "responses (server x)"; auto simp: submitted_def popped_def appends_def)+

section \<open>The invariant of the pipeline\<close>

lemma shuffles_snoc_left: "zs \<in> shuffles xs ys \<Longrightarrow> zs @ [a] \<in> shuffles (xs @ [a]) ys"
proof (induction xs ys arbitrary: zs rule: shuffles.induct)
  case (1 ys)
  have "ys @ [a] \<in> shuffles [a] ys" by (induction ys) auto
  then show ?case using 1 by simp
qed auto

lemma shuffles_snoc_right: "zs \<in> shuffles xs ys \<Longrightarrow> zs @ [a] \<in> shuffles xs (ys @ [a])"
  using shuffles_snoc_left [of zs ys xs a] by (simp add: shuffles_commutes)

lemma push_refused:
  assumes "system_inv x" and "engine_at x = Responding r"
  shows "refused x = (if length (responses (server x)) < 4095 then [] else [r])"
proof -
  have "server_inv (server x)" "token_ok (EngineResponse.session r)" using assms by (auto simp: system_inv_def)
  then obtain q where "v3_push kQueueCapacity (rsp_queue (server x)) r = Some (length (responses (server x)) < 4095, q)"
    using server_inv_push_rsp by metis
  then show ?thesis using assms(2) by (simp add: refused_def)
qed

lemma refused_none [simp]: "hand (engine_at x) = [] \<Longrightarrow> refused x = []"
  by (cases "engine_at x") (simp_all add: refused_def)

text \<open>
  The commands taken so far, \<open>taken\<close>, have been answered but for the one in hand, and every answer is refused,
  delivered or waiting. A \<^verbatim>\<open>Shutdown\<close> is the last command.
\<close>

definition flow_inv :: "System \<Rightarrow> EngineCommand list \<Rightarrow> EngineResponse list \<Rightarrow> EngineResponse list \<Rightarrow> bool" where
  "flow_inv x sub lost del \<longleftrightarrow>
     (\<exists>taken answered. sub = taken @ commands (server x) \<and> engine_answers taken = answered @ hand (engine_at x) \<and>
        answered \<in> shuffles lost (del @ responses (server x)) \<and>
        (engine_at x \<noteq> Finished \<longrightarrow> (\<forall>c \<in> set taken. \<not> is_shutdown c))) \<and>
     (\<forall>c \<in> set (butlast (commands (server x))). \<not> is_shutdown c) \<and>
     (engine_at x = Finished \<longrightarrow> commands (server x) = [] \<and> stopped (main_at x))"

lemma flow_invI:
  "sub = taken @ commands (server x) \<Longrightarrow> engine_answers taken = answered @ hand (engine_at x) \<Longrightarrow>
     answered \<in> shuffles lost (del @ responses (server x)) \<Longrightarrow>
     (engine_at x \<noteq> Finished \<Longrightarrow> \<forall>c \<in> set taken. \<not> is_shutdown c) \<Longrightarrow>
     \<forall>c \<in> set (butlast (commands (server x))). \<not> is_shutdown c \<Longrightarrow>
     (engine_at x = Finished \<Longrightarrow> commands (server x) = [] \<and> stopped (main_at x)) \<Longrightarrow> flow_inv x sub lost del"
  unfolding flow_inv_def by blast

lemma flow_invE:
  assumes "flow_inv x sub lost del"
  obtains taken answered where "sub = taken @ commands (server x)" and "engine_answers taken = answered @ hand (engine_at x)"
    and "answered \<in> shuffles lost (del @ responses (server x))"
    and "engine_at x \<noteq> Finished \<Longrightarrow> \<forall>c \<in> set taken. \<not> is_shutdown c"
    and "\<forall>c \<in> set (butlast (commands (server x))). \<not> is_shutdown c"
    and "engine_at x = Finished \<Longrightarrow> commands (server x) = [] \<and> stopped (main_at x)"
  using assms unfolding flow_inv_def by blast

lemma flow_inv_init: "flow_inv System_init [] [] []"
  by (simp add: flow_inv_def System_init_def Server_init_def commands_def responses_def v3_fifo.init_contents [OF capacities(1)])

lemma flow_inv_gateway:
  assumes inv: "system_inv x" and fl: "flow_inv x sub lost del" and fresh: "accepts_fresh ev li x"
    and step: "main_step ep ev li w x = Some x'"
  shows "flow_inv x' (sub @ submitted x x') lost (del @ popped x x')"
proof -
  obtain cs where ap: "appends x cs x'" by (rule main_step_appends [OF inv fresh step])
  have cmds: "commands (server x') = commands (server x) @ cs" and at: "engine_at x' = engine_at x"
    and none: "stopped (main_at x) \<Longrightarrow> cs = []" and cs: "\<forall>c \<in> set (butlast cs). \<not> is_shutdown c"
    using ap by (auto simp: appends_def split: if_splits dest: in_set_butlastD)
  have st: "stopped (main_at x) \<Longrightarrow> stopped (main_at x')"
    using step by (cases "main_at x") (auto simp: main_step_def split: if_splits)
  have rsps: "popped x x' @ responses (server x') = responses (server x)"
    using ap appends_history(2) [OF ap] by (cases "responses (server x)") (auto simp: appends_def)
  obtain taken answered where t: "sub = taken @ commands (server x)" "engine_answers taken = answered @ hand (engine_at x)"
    "answered \<in> shuffles lost (del @ responses (server x))" "engine_at x \<noteq> Finished \<Longrightarrow> \<forall>c \<in> set taken. \<not> is_shutdown c"
    "\<forall>c \<in> set (butlast (commands (server x))). \<not> is_shutdown c"
    "engine_at x = Finished \<Longrightarrow> commands (server x) = [] \<and> stopped (main_at x)"
    using fl by (rule flow_invE) blast
  show ?thesis
  proof (rule flow_invI [of _ taken _ answered])
    show "sub @ submitted x x' = taken @ commands (server x')"
      unfolding appends_history(1) [OF ap] cmds t(1) by simp
    show "answered \<in> shuffles lost ((del @ popped x x') @ responses (server x'))"
      using t(3) unfolding append_assoc rsps .
    show "\<forall>c \<in> set (butlast (commands (server x'))). \<not> is_shutdown c"
    proof (cases "cs = []")
      case False
      then have "\<not> stopped (main_at x)" using none by blast
      then have "\<forall>c \<in> set (commands (server x)). \<not> is_shutdown c" using inv by (simp add: system_inv_def no_shutdown_def)
      then show ?thesis using False cs unfolding cmds by (auto simp: butlast_append)
    qed (use t(5) cmds in simp)
    show "commands (server x') = [] \<and> stopped (main_at x')" if "engine_at x' = Finished"
      using that t(6) none st at cmds by simp
  qed (use t(2,4) at in simp_all)
qed

lemma flow_inv_engine:
  assumes inv: "system_inv x" and fl: "flow_inv x sub lost del" and step: "engine_step x = Some x'"
  shows "flow_inv x' sub (lost @ refused x) del"
proof -
  have si: "server_inv (server x)" and eo: "engine_ok (engine_at x)" using inv by (auto simp: system_inv_def)
  obtain taken answered where t: "sub = taken @ commands (server x)" "engine_answers taken = answered @ hand (engine_at x)"
    "answered \<in> shuffles lost (del @ responses (server x))" "engine_at x \<noteq> Finished \<Longrightarrow> \<forall>c \<in> set taken. \<not> is_shutdown c"
    "\<forall>c \<in> set (butlast (commands (server x))). \<not> is_shutdown c"
    "engine_at x = Finished \<Longrightarrow> commands (server x) = [] \<and> stopped (main_at x)"
    using fl by (rule flow_invE) blast
  from si eo show ?thesis
  proof (cases rule: engine_step_cases)
    case (idle s)
    then show ?thesis using fl step by (simp add: flow_inv_def responses_def)
  next
    case (pop c cs s)
    let ?e = "if is_shutdown c then Finished else case matching_response c of None \<Rightarrow> Popping | Some r \<Rightarrow> Responding r"
    have x': "x' = x\<lparr>server := s, engine_at := ?e\<rparr>" using step pop(3) by simp
    have rs: "responses s = responses (server x)" using pop(6) by (simp add: responses_def)
    have ns: "\<forall>d \<in> set taken. \<not> is_shutdown d" using t(4) pop(1) by simp
    have "engine_answers [c] = hand ?e" by (auto simp: is_shutdown_def split: option.split)
    then have ans: "engine_answers (taken @ [c]) = answered @ hand ?e"
      using t(2) ns pop(1) by (simp only: engine_answers_append hand.simps append_Nil2) auto
    have sd: "stopped (main_at x) \<and> cs = []" if "is_shutdown c"
      using inv t(5) pop(2) that by (cases cs) (auto simp: system_inv_def no_shutdown_def)
    have bl: "\<forall>d \<in> set (butlast cs). \<not> is_shutdown d" using t(5) pop(2) by (auto split: if_splits)
    show ?thesis
    proof (rule flow_invI [of _ "taken @ [c]" _ answered])
      show "engine_answers (taken @ [c]) = answered @ hand (engine_at x')" using ans x' by simp
      show "commands (server x') = [] \<and> stopped (main_at x')" if "engine_at x' = Finished"
        using that sd pop(5) x' by (auto split: if_splits option.splits)
    qed (use t(1,3) x' rs ns bl pop(1,2,5) in \<open>auto split: if_splits\<close>)
  next
    case (respond r s)
    have x': "x' = x\<lparr>server := s, engine_at := Notifying\<rparr>" using step respond(2) by simp
    have cmds: "commands s = commands (server x)" using respond(4) by (simp add: commands_def)
    have "answered @ [r] \<in> shuffles (lost @ refused x) (del @ responses s)"
    proof (cases "length (responses (server x)) < 4095")
      case True
      then show ?thesis using shuffles_snoc_right [OF t(3), of r] respond(5) push_refused [OF inv respond(1)] by simp
    next
      case False
      then show ?thesis using shuffles_snoc_left [OF t(3), of r] respond(5) push_refused [OF inv respond(1)] by simp
    qed
    then show ?thesis using t(1,2,4,5) x' respond(1) cmds by (intro flow_invI [of _ taken _ "answered @ [r]"]) simp_all
  next
    case (wake n)
    then show ?thesis using step t by (intro flow_invI [of _ taken _ answered]) simp_all
  next
    case finished
    then show ?thesis using step fl by simp
  qed
qed

lemma flow_flow_inv: "flow ep ev li x sub lost del \<Longrightarrow> flow_inv x sub lost del"
proof (induction rule: flow.induct)
  case start
  then show ?case by (rule flow_inv_init)
next
  case (gateway x sub lost del w x')
  then show ?case using flow_inv_gateway [OF flow_system_inv] by blast
next
  case (engine x sub lost del x')
  then show ?case using flow_inv_engine [OF flow_system_inv] by blast
qed

lemma flow_answers:
  assumes "flow ep ev li x sub lost del"
  obtains answered where "engine_answers sub = answered @ hand (engine_at x) @ engine_answers (commands (server x))"
    and "answered \<in> shuffles lost (del @ responses (server x))"
proof -
  obtain taken answered where t: "sub = taken @ commands (server x)" "engine_answers taken = answered @ hand (engine_at x)"
    "answered \<in> shuffles lost (del @ responses (server x))" "engine_at x \<noteq> Finished \<longrightarrow> (\<forall>c \<in> set taken. \<not> is_shutdown c)"
    "engine_at x = Finished \<longrightarrow> commands (server x) = []"
    using flow_flow_inv [OF assms] unfolding flow_inv_def by blast
  have "engine_answers sub = answered @ hand (engine_at x) @ engine_answers (commands (server x))"
    using t(1,2,4,5) by (auto simp: engine_answers_append)
  then show thesis using that t(3) by blast
qed

section \<open>Nothing stays in the pipeline\<close>

text \<open>While the gateway waits, the matching thread takes all commands, at most three steps for each.\<close>

definition engine_work :: "System \<Rightarrow> nat" where
  "engine_work x = 3 * length (commands (server x)) + engine_rank (engine_at x)"

lemma engine_work_bound:
  assumes "system_inv x"
  shows "engine_work x \<le> 12287"
proof -
  have "length (commands (server x)) \<le> 4095" using assms queue_bounds(1) by (simp add: system_inv_def)
  moreover have "engine_rank (engine_at x) \<le> 2" by (cases "engine_at x") simp_all
  ultimately show ?thesis by (simp add: engine_work_def)
qed

lemma engine_flow:
  assumes fl: "flow ep ev li x sub [] del" and room: "response_work x \<le> 4095" and run: "\<not> stopped (main_at x)"
  shows "\<exists>x'. engine_step x = Some x' \<and> flow ep ev li x' sub [] del \<and> main_at x' = main_at x \<and>
           response_work x' \<le> response_work x \<and> engine_work x' \<le> engine_work x - 1 \<and>
           (engine_answers (commands (server x)) = [] \<and> hand (engine_at x) = [] \<longrightarrow>
              engine_answers (commands (server x')) = [] \<and> hand (engine_at x') = [] \<and>
              responses (server x') = responses (server x))"
proof -
  have inv: "system_inv x" by (rule flow_system_inv [OF fl])
  then have ns: "no_shutdown x" using run by (simp add: system_inv_def)
  have si: "server_inv (server x)" and eo: "engine_ok (engine_at x)" using inv by (auto simp: system_inv_def)
  obtain x' where x': "engine_step x = Some x'" "main_at x' = main_at x" using engine_step_inv [OF inv] by blast
  have "refused x = []"
  proof (cases "hand (engine_at x)")
    case (Cons r rs)
    then have r: "engine_at x = Responding r" by (cases "engine_at x") auto
    then have "length (responses (server x)) < 4095" using room by (simp add: response_work_def)
    then show ?thesis using push_refused [OF inv r] by simp
  qed simp
  then have fl': "flow ep ev li x' sub [] del" using flow.engine [OF fl x'(1)] by simp
  from si eo have "response_work x' \<le> response_work x \<and> engine_work x' \<le> engine_work x - 1 \<and>
      (engine_answers (commands (server x)) = [] \<and> hand (engine_at x) = [] \<longrightarrow>
              engine_answers (commands (server x')) = [] \<and> hand (engine_at x') = [] \<and>
         responses (server x') = responses (server x))"
  proof (cases rule: engine_step_cases)
    case (idle s)
    then show ?thesis using x'(1) by (auto simp: response_work_def engine_work_def responses_def)
  next
    case (pop c cs s)
    then have "\<not> is_shutdown c" using ns by (simp add: no_shutdown_def)
    then show ?thesis using x'(1) pop
      by (auto simp: response_work_def engine_work_def responses_def is_shutdown_def split: option.splits)
  next
    case (respond r s)
    then have "commands s = commands (server x)" by (simp add: commands_def)
    then show ?thesis using x'(1) respond by (auto simp: response_work_def engine_work_def)
  next
    case (wake n)
    then show ?thesis using x'(1) by (auto simp: response_work_def engine_work_def)
  next
    case finished
    then show ?thesis using ns by (simp add: no_shutdown_def)
  qed
  then show ?thesis using x' fl' by blast
qed

lemma idle_run:
  "flow ep ev li x sub [] del \<Longrightarrow> main_at x = Polling \<Longrightarrow> response_work x \<le> 4095 \<Longrightarrow> set as \<subseteq> {Engine, Gateway Interrupted} \<Longrightarrow>
     \<exists>y. run_system ep ev li as x = Some y \<and> flow ep ev li y sub [] del \<and> main_at y = Polling \<and> response_work y \<le> 4095 \<and>
       engine_work y \<le> engine_work x - length (filter (\<lambda>a. \<not> is_gateway a) as)"
proof (induction as arbitrary: x)
  case (Cons a as)
  show ?case
  proof (cases a)
    case (Gateway w)
    then have "system_step ep ev li a x = Some x" using Cons.prems by (auto simp: main_step_def)
    then show ?thesis using Cons.IH [OF Cons.prems(1-3)] Cons.prems(4) Gateway by simp
  next
    case Engine
    obtain x' where x': "engine_step x = Some x'" "flow ep ev li x' sub [] del" "main_at x' = Polling"
      "response_work x' \<le> 4095" "engine_work x' \<le> engine_work x - 1"
      using engine_flow [OF Cons.prems(1,3)] Cons.prems(2,3) by force
    obtain y where "run_system ep ev li as x' = Some y" "flow ep ev li y sub [] del" "main_at y = Polling"
      "response_work y \<le> 4095" "engine_work y \<le> engine_work x' - length (filter (\<lambda>a. \<not> is_gateway a) as)"
      using Cons.IH [OF x'(2-4)] Cons.prems(4) by auto
    then show ?thesis using x'(1,5) Engine by (intro exI [of _ y]) simp
  qed
qed simp

lemma idle_end: "engine_work x = 0 \<Longrightarrow> commands (server x) = [] \<and> hand (engine_at x) = []"
  by (cases "engine_at x") (simp_all add: engine_work_def)

text \<open>The drain loop delivers what is queued; what it submits itself needs no answer.\<close>

lemma drain_flow:
  "flow ep ev li x sub [] del \<Longrightarrow> main_at x = Draining sends k rsp evs \<Longrightarrow>
     engine_answers (commands (server x)) = [] \<Longrightarrow> hand (engine_at x) = [] \<Longrightarrow>
     length (responses (server x)) < length (filter is_gateway bs) \<Longrightarrow>
     \<exists>bs1 bs2 x' sub'. bs = bs1 @ bs2 \<and> run_system ep ev li bs1 x = Some x' \<and> main_at x' = Handling evs \<and>
       flow ep ev li x' sub' [] (engine_answers sub)"
proof (induction bs arbitrary: x sub del sends k rsp)
  case (Cons b bs)
  have inv: "system_inv x" by (rule flow_system_inv [OF Cons.prems(1)])
  show ?case
  proof (cases b)
    case (Gateway w)
    have fresh: "accepts_fresh ev li x" using Cons.prems(2) by (simp add: accepts_fresh_def)
    obtain x' where x': "main_step ep ev li w x = Some x'"
      "main_at x' = Handling evs \<and> responses (server x') = [] \<or>
       (\<exists>k' rsp'. main_at x' = Draining sends k' rsp' evs) \<and> response_work x' < response_work x"
      using draining_step [OF inv Cons.prems(2)] by blast
    obtain cs where ap: "appends x cs x'" by (rule main_step_appends [OF inv fresh x'(1)])
    note h = appends_history [OF ap]
    have cmds: "commands (server x') = commands (server x) @ cs" "engine_at x' = engine_at x" "engine_answers cs = []"
      "responses (server x') = tl (responses (server x))" using ap Cons.prems(2) by (auto simp: appends_def)
    have "no_shutdown x" using inv Cons.prems(2) by (simp add: system_inv_def)
    then have quiet: "engine_answers (commands (server x')) = []" using Cons.prems(3) cmds(1,3) by (simp add: engine_answers_append)
    have fl: "flow ep ev li x' (sub @ submitted x x') [] (del @ popped x x')" by (rule flow.gateway [OF Cons.prems(1) fresh x'(1)])
    have same: "engine_answers (sub @ submitted x x') = engine_answers sub"
      unfolding h(1) by (simp add: engine_answers_append cmds(3))
    show ?thesis
    proof (cases "responses (server x)")
      case Nil
      obtain answered where "engine_answers sub = answered @ hand (engine_at x') @ engine_answers (commands (server x'))"
        "answered \<in> shuffles [] ((del @ popped x x') @ responses (server x'))"
        using flow_answers [OF fl] unfolding same by blast
      then have "engine_answers sub = del @ popped x x'" using quiet cmds Cons.prems(4) Nil by simp
      moreover have "main_at x' = Handling evs"
        using x'(1) Cons.prems(2) Nil drain_round_inv [of "server x" "sends k" rsp] inv by (auto simp: main_step_def system_inv_def)
      ultimately show ?thesis using fl x'(1) Gateway
        by (intro exI [of _ "[b]"] exI [of _ bs] exI [of _ x'] exI [of _ "sub @ submitted x x'"]) simp
    next
      case (Cons r rs)
      then obtain k' rsp' where at: "main_at x' = Draining sends k' rsp' evs"
        using x'(1) \<open>main_at x = _\<close> drain_round_inv [of "server x" "sends k" rsp] inv by (auto simp: main_step_def system_inv_def)
      obtain bs1 bs2 y sub' where "bs = bs1 @ bs2" "run_system ep ev li bs1 x' = Some y" "main_at y = Handling evs"
        "flow ep ev li y sub' [] (engine_answers sub)"
        using Cons.IH [OF fl at quiet] Cons.prems(4,5) cmds(2,4) Cons Gateway same by auto
      then show ?thesis using x'(1) Gateway by (intro exI [of _ "b # bs1"] exI [of _ bs2] exI [of _ y] exI [of _ sub']) simp
    qed
  next
    case Engine
    have "length (responses (server x)) \<le> 4095" using inv queue_bounds(2) by (simp add: system_inv_def)
    moreover have "in_hand (engine_at x) = 0" using Cons.prems(4) by (cases "engine_at x") auto
    ultimately have "response_work x \<le> 4095" using Cons.prems(3) by (simp add: response_work_def)
    then obtain x' where x': "engine_step x = Some x'" "flow ep ev li x' sub [] del" "main_at x' = main_at x"
      "engine_answers (commands (server x')) = []" "hand (engine_at x') = []" "responses (server x') = responses (server x)"
      using engine_flow [OF Cons.prems(1)] Cons.prems(2-4) by fastforce
    obtain bs1 bs2 y sub' where "bs = bs1 @ bs2" "run_system ep ev li bs1 x' = Some y" "main_at y = Handling evs"
      "flow ep ev li y sub' [] (engine_answers sub)"
      using Cons.IH [OF x'(2) _ x'(4,5)] x'(3,6) Cons.prems(2,5) Engine by auto
    then show ?thesis using x'(1) Engine by (intro exI [of _ "b # bs1"] exI [of _ bs2] exI [of _ y] exI [of _ sub']) simp
  qed
qed simp

section \<open>A state for the example\<close>

text \<open>The gateway handles its only event without interruption; nothing is refused meanwhile.\<close>

definition last_event :: "int \<Rightarrow> int \<Rightarrow> System \<Rightarrow> bool" where
  "last_event ev li x \<longleftrightarrow> accepts_fresh ev li x \<and>
     (case main_at x of Handling evs \<Rightarrow> length evs \<le> 1 | m \<Rightarrow> loop_events m \<in> {None, Some []})"

lemma last_event_step: "last_event ev li x \<Longrightarrow> main_step ep ev li Interrupted x = Some x' \<Longrightarrow> last_event ev li x'"
  by (auto simp: last_event_def main_step_def accepts_fresh_def split: main_pc.splits list.splits if_splits bind_splits)

lemma flow_gateway_runs:
  "flow ep ev li x sub lost del \<Longrightarrow> last_event ev li x \<Longrightarrow> gateway_runs ep ev li m x = Some x' \<Longrightarrow>
     \<exists>sub' del'. flow ep ev li x' sub' lost del'"
proof (induction m arbitrary: x sub del)
  case (Suc m)
  obtain y where y: "main_step ep ev li Interrupted x = Some y" "gateway_runs ep ev li m y = Some x'"
    using Suc.prems(3) by (auto split: bind_splits)
  have "accepts_fresh ev li x" using Suc.prems(2) by (simp add: last_event_def)
  then show ?case
    using Suc.IH [OF flow.gateway [OF Suc.prems(1) _ y(1)] last_event_step [OF Suc.prems(2) y(1)] y(2)] by blast
qed auto

lemma flow_event:
  assumes fl: "flow ep ev li x sub lost del" and at: "main_at x = Polling"
    and he: "handle_event ev li e (server x) = Some s" and fresh: "fresh_fds (ev_accepts e) (server x)"
  shows "\<exists>x' sub' del'. flow ep ev li x' sub' lost del' \<and> server x' = s \<and> main_at x' = Polling \<and> engine_at x' = engine_at x"
proof -
  let ?y = "x\<lparr>main_at := Handling [e]\<rparr>"
  have step: "main_step ep ev li (Ready [e]) x = Some ?y" "accepts_fresh ev li x"
    using at by (simp_all add: main_step_def accepts_fresh_def)
  have y: "flow ep ev li ?y sub lost del"
    using flow.gateway [OF fl step(2,1)] by (simp add: submitted_def popped_def)
  let ?z = "?y\<lparr>server := s, main_at := Handling [], counter := (if ev_fd e = ev then 0 else counter ?y)\<rparr>"
  have "handle_event ev li e (server ?y) = Some s" "main_at ?y = Handling [e]" using he by simp_all
  from handler_run [OF this, of ep] obtain m where m: "gateway_runs ep ev li m ?y = Some ?z" by blast
  have "last_event ev li ?y" using fresh by (simp add: last_event_def accepts_fresh_def)
  then obtain sub' del' where z: "flow ep ev li ?z sub' lost del'" using flow_gateway_runs [OF y _ m] by blast
  have "main_step ep ev li Interrupted ?z = Some (?z\<lparr>main_at := Polling\<rparr>)" "accepts_fresh ev li ?z"
    by (simp_all add: main_step_def accepts_fresh_def)
  then have "\<exists>sub' del'. flow ep ev li (?z\<lparr>main_at := Polling\<rparr>) sub' lost del'" using flow.gateway [OF z] by blast
  then show ?thesis by (intro exI [of _ "?z\<lparr>main_at := Polling\<rparr>"]) simp
qed

lemma order_waits:
  obtains x sub del where "flow 5 4 3 x sub [] del" and "main_at x = Polling" and "response_work x = 1"
    and "engine_answers sub \<noteq> []"
proof -
  obtain s e1 e2 s1 where e1: "handle_event 4 3 e1 Server_init = Some s" "fresh_fds (ev_accepts e1) Server_init"
    and e2: "handle_event 4 3 e2 s = Some s1" "fresh_fds (ev_accepts e2) s"
    and q: "length (engine_answers (commands s1)) = 1" "responses s1 = []"
    by (rule client_order)
  have init: "main_at System_init = Polling" "server System_init = Server_init" "engine_at System_init = Popping"
    by (simp_all add: System_init_def)
  obtain x1 sub1 del1 where x1: "flow 5 4 3 x1 sub1 [] del1" "server x1 = s" "main_at x1 = Polling" "engine_at x1 = Popping"
    using flow_event [OF flow.start [of 5 4 3] init(1), of e1] e1 init by auto
  obtain x2 sub2 del2 where x2: "flow 5 4 3 x2 sub2 [] del2" "server x2 = s1" "main_at x2 = Polling" "engine_at x2 = Popping"
    using flow_event [OF x1(1,3), of e2] e2 x1 by auto
  have "response_work x2 = 1" using q x2 by (simp add: response_work_def)
  moreover have "engine_answers sub2 \<noteq> []" using flow_answers [OF x2(1)] q(1) x2(2) by fastforce
  ultimately show thesis using that x2 by blast
qed

section \<open>Properties\<close>

text \<open>
  C8. Commands are answered in order, once, and only they. In every interleaving of the two threads, the responses of the
  matching thread to the commands submitted so far are those it has put on the response queue or dropped because that was full,
  then the one in its hand, then those to the commands that wait; and the ones put on the queue are, in
  order, those the gateway has popped followed by those that wait. So as long as no push was refused the gateway pops exactly a
  prefix of the answers to what it submitted.
\<close>

theorem answers_in_order:
  assumes "flow epoll_fd event_fd listen_fd x sub lost del"
  shows "\<exists>answered. engine_answers sub = answered @ hand (engine_at x) @ engine_answers (commands (server x)) \<and>
           answered \<in> shuffles lost (del @ responses (server x)) \<and>
           (lost = [] \<longrightarrow> engine_answers sub = del @ responses (server x) @ hand (engine_at x) @ engine_answers (commands (server x)))"
proof -
  obtain answered where "engine_answers sub = answered @ hand (engine_at x) @ engine_answers (commands (server x))"
    "answered \<in> shuffles lost (del @ responses (server x))" by (rule flow_answers [OF assms])
  then show ?thesis by (intro exI [of _ answered]) auto
qed

theorem answers_in_order_witness:
  "\<exists>x sub lost del answered. system_reachable 5 4 3 x \<and> responses (server x) \<noteq> [] \<and>
     engine_answers sub = answered @ hand (engine_at x) @ engine_answers (commands (server x)) \<and>
     answered \<in> shuffles lost (del @ responses (server x))"
proof -
  obtain x where x: "system_reachable 5 4 3 x" "responses (server x) \<noteq> []" by (rule waiting_state)
  obtain sub lost del where "flow 5 4 3 x sub lost del" using reachable_flow [OF x(1)] by blast
  from answers_in_order [OF this] show ?thesis using x by blast
qed

text \<open>
  C10. Every order is answered. Let no response have been refused, and at most 4095 be under way, when the gateway waits for events. Then
  any schedule that gives the matching thread 12287 steps makes it take all commands; if there is anything to deliver
  the \<^verbatim>\<open>eventfd\<close> is then readable, and once its event is reported, any schedule that gives the gateway
  8192 steps makes it pop the answers to everything that was submitted, in order, and none is lost.
\<close>

theorem every_order_answered:
  assumes "flow epoll_fd event_fd listen_fd x sub [] del" and "main_at x = Polling" and "response_work x \<le> 4095"
    and "set as \<subseteq> {Engine, Gateway Interrupted}" and "12287 \<le> length (filter (\<lambda>a. \<not> is_gateway a) as)"
    and "ev_fd e = event_fd" and "8192 \<le> length (filter is_gateway bs)"
  shows "\<exists>y bs1 bs2 x' sub'. run_system epoll_fd event_fd listen_fd as x = Some y \<and> (responses (server y) \<noteq> [] \<longrightarrow> 0 < counter y) \<and>
           bs = bs1 @ bs2 \<and>
           run_system epoll_fd event_fd listen_fd ([Gateway (Ready (e # evs)), Gateway Interrupted] @ bs1) y = Some x' \<and>
           main_at x' = Handling evs \<and> flow epoll_fd event_fd listen_fd x' sub' [] (engine_answers sub)"
proof -
  obtain y where y: "run_system epoll_fd event_fd listen_fd as x = Some y" "flow epoll_fd event_fd listen_fd y sub [] del"
    "main_at y = Polling" "engine_work y \<le> engine_work x - length (filter (\<lambda>a. \<not> is_gateway a) as)"
    using idle_run [OF assms(1-4)] by blast
  have inv: "system_inv y" by (rule flow_system_inv [OF y(2)])
  have "engine_work y = 0" using y(4) engine_work_bound [OF flow_system_inv [OF assms(1)]] assms(5) by linarith
  then have quiet: "commands (server y) = []" "hand (engine_at y) = []" and rank: "engine_rank (engine_at y) = 0"
    using idle_end [of y] by (auto simp: engine_work_def)
  have wake: "responses (server y) \<noteq> [] \<longrightarrow> 0 < counter y"
    using inv rank y(3) by (auto simp: system_inv_def wake_inv_def)
  let ?z = "y\<lparr>main_at := Handling (e # evs)\<rparr>"
  let ?d = "?z\<lparr>counter := 0, main_at := Draining (ev_sends e) 0 default evs\<rparr>"
  have steps: "main_step epoll_fd event_fd listen_fd (Ready (e # evs)) y = Some ?z"
    "main_step epoll_fd event_fd listen_fd Interrupted ?z = Some ?d" using y(3) assms(6) by (simp_all add: main_step_def)
  have fresh: "accepts_fresh event_fd listen_fd y" "accepts_fresh event_fd listen_fd ?z"
    using y(3) assms(6) by (simp_all add: accepts_fresh_def)
  have fd: "flow epoll_fd event_fd listen_fd ?d sub [] del"
    using flow.gateway [OF flow.gateway [OF y(2) fresh(1) steps(1)] fresh(2) steps(2)] by (simp add: submitted_def popped_def)
  have "length (responses (server ?d)) < length (filter is_gateway bs)"
    using queue_bounds(2) [of "server y"] inv assms(7) by (simp add: system_inv_def)
  from drain_flow [OF fd _ _ _ this, of "ev_sends e" 0 default evs] quiet obtain bs1 bs2 x' sub' where
    "bs = bs1 @ bs2" "run_system epoll_fd event_fd listen_fd bs1 ?d = Some x'" "main_at x' = Handling evs"
    "flow epoll_fd event_fd listen_fd x' sub' [] (engine_answers sub)" by auto
  then show ?thesis using y(1) wake steps
    by (intro exI [of _ y] exI [of _ bs1] exI [of _ bs2] exI [of _ x'] exI [of _ sub']) simp
qed

theorem every_order_answered_witness:
  "\<exists>x sub del x' sub'. flow 5 4 3 x sub [] del \<and> engine_answers sub \<noteq> [] \<and> flow 5 4 3 x' sub' [] (engine_answers sub)"
proof -
  obtain x sub del where x: "flow 5 4 3 x sub [] del" "main_at x = Polling" "response_work x = 1" "engine_answers sub \<noteq> []"
    by (rule order_waits)
  let ?e = "\<lparr>ev_fd = 4, ev_in = True, ev_sends = (\<lambda>_. 64), ev_accepts = [], ev_recv = Would_Block\<rparr>"
  have "set (replicate 12287 Engine) \<subseteq> {Engine, Gateway Interrupted}"
    "12287 \<le> length (filter (\<lambda>a. \<not> is_gateway a) (replicate 12287 Engine))" "ev_fd ?e = 4"
    "8192 \<le> length (filter is_gateway (replicate 8192 (Gateway Interrupted)))" by simp_all
  from every_order_answered [OF x(1,2) _ this, of "[]"] show ?thesis using x flow.start by fastforce
qed

end
