(* ===== verification/Isolation.thy ===== *)
theory Isolation
  imports Event_Loop
begin

text \<open>
  What one client can do to another through \<^verbatim>\<open>epoll_server.cpp\<close>: a step of the gateway that serves a descriptor, or delivers a
  response to it, leaves every other connection as it is, makes no system call on another descriptor, and submits
  commands in the name of that client only. The one place it shares with others is the entry of the slot table that its token names: slots are
  handed out modulo 1024, so a newer client can own that entry (\<open>slot_reuse_cuts_live_session\<close>).
\<close>

section \<open>The footprint of a step\<close>

fun io_fd :: "io \<Rightarrow> int" where
  "io_fd (Accept f) = f"
| "io_fd (Set_Nonblocking f) = f"
| "io_fd (Set_Nodelay f) = f"
| "io_fd (Epoll_Add f) = f"
| "io_fd (Send f _) = f"
| "io_fd (Epoll_Remove f) = f"
| "io_fd (Close f) = f"

definition touches_only :: "int \<Rightarrow> SessionToken \<Rightarrow> Server \<Rightarrow> Server \<Rightarrow> bool" where
  "touches_only f tok s s' \<longleftrightarrow>
     (\<forall>g. g \<noteq> f \<longrightarrow> map_of (connections s') g = map_of (connections s) g) \<and>
     (\<forall>j. j \<noteq> unat (slot tok) \<longrightarrow> slots s' ! j = slots s ! j) \<and>
     (\<exists>es. io s' = io s @ es \<and> (\<forall>e \<in> set es. io_fd e = f)) \<and>
     (\<exists>cs. commands s' = commands s @ cs \<and> (\<forall>c \<in> set cs. EngineCommand.session c = tok))"

lemma touches_refl [simp]: "touches_only f tok s s"
  by (simp add: touches_only_def)

lemma touches_trans [trans]:
  assumes "touches_only f tok s t" and "touches_only f tok t u"
  shows "touches_only f tok s u"
proof -
  obtain es es' cs cs' where a: "io t = io s @ es" "\<forall>e \<in> set es. io_fd e = f" "io u = io t @ es'" "\<forall>e \<in> set es'. io_fd e = f"
    "commands t = commands s @ cs" "\<forall>c \<in> set cs. EngineCommand.session c = tok"
    "commands u = commands t @ cs'" "\<forall>c \<in> set cs'. EngineCommand.session c = tok"
    using assms unfolding touches_only_def by blast
  have "io u = io s @ (es @ es') \<and> (\<forall>e \<in> set (es @ es'). io_fd e = f)" using a(1-4) by auto
  moreover have "commands u = commands s @ (cs @ cs') \<and> (\<forall>c \<in> set (cs @ cs'). EngineCommand.session c = tok)" using a(5-8) by auto
  moreover have "(\<forall>g. g \<noteq> f \<longrightarrow> map_of (connections u) g = map_of (connections s) g) \<and>
      (\<forall>j. j \<noteq> unat (slot tok) \<longrightarrow> slots u ! j = slots s ! j)"
    using assms by (simp add: touches_only_def)
  ultimately show ?thesis unfolding touches_only_def by blast
qed

lemma touches_put: "touches_only f tok s (put_conn f c s)"
  by (simp add: touches_only_def commands_def)

lemma touches_send: "touches_only f tok s (perform [Send f frame] s)"
  by (simp add: touches_only_def commands_def)

lemma touches_rsp: "touches_only f tok s (s\<lparr>rsp_queue := q\<rparr>)"
  by (simp add: touches_only_def commands_def)

lemma touches_close:
  assumes inv: "server_inv s" and tok: "\<And>c. map_of (connections s) f = Some c \<Longrightarrow> token c = tok" and step: "close_conn f s = Some s'"
  shows "touches_only f tok s s'"
proof (cases "map_of (connections s) f")
  case None
  then have "s' = perform [Epoll_Remove f, Close f] s" using step by (simp add: close_conn_def)
  then show ?thesis by (simp add: touches_only_def commands_def)
next
  case (Some c)
  have "\<forall>g. g \<noteq> f \<longrightarrow> map_of (connections s') g = map_of (connections s) g" "\<forall>j. j \<noteq> unat (slot tok) \<longrightarrow> slots s' ! j = slots s ! j"
    using step Some tok
    by (auto simp: close_conn_def Let_def AList.delete_conv' span_get_def span_set_def split: bind_splits if_splits)
  moreover have "\<exists>es. io s' = io s @ es \<and> (\<forall>e \<in> set es. io_fd e = f)"
    using io_prefix_close [OF step] by (intro exI [of _ "[Epoll_Remove f, Close f]"]) simp
  moreover have "\<exists>cs. commands s' = commands s @ cs \<and> (\<forall>c \<in> set cs. EngineCommand.session c = tok)"
    unfolding close_conn_commands [OF inv Some step] using tok [OF Some]
    by (intro exI [of _ "if length (commands s) < 4095 then [(default :: EngineCommand)\<lparr>EngineCommand.type :=
        EngineCommandType.SessionClosed, EngineCommand.session := token c\<rparr>] else []"]) simp
  ultimately show ?thesis by (simp add: touches_only_def)
qed

lemma touches_push:
  assumes inv: "server_inv s" and ok: "token_ok (EngineCommand.session c)"
    and step: "v3_push kQueueCapacity (cmd_queue s) c = Some (b, q)" and tok: "EngineCommand.session c = tok"
  shows "touches_only f tok s (s\<lparr>cmd_queue := q\<rparr>)"
proof -
  obtain q' where "v3_push kQueueCapacity (cmd_queue s) c = Some (length (commands s) < 4095, q')"
    "commands (s\<lparr>cmd_queue := q'\<rparr>) = commands s @ (if length (commands s) < 4095 then [c] else [])"
    using server_inv_push_cmd [OF inv ok] by metis
  then show ?thesis using step tok by (auto simp: touches_only_def)
qed

section \<open>The handlers\<close>

lemma command_session: "EngineCommand.session (command_of tok msg) = tok"
  by (simp add: command_of_def Let_def split: MessageType.split)

lemma on_message_touches:
  assumes inv: "server_inv s" and conn: "map_of (connections s) f = Some c"
    and step: "on_message f False msg s = Some (go, stop, s')"
  shows "touches_only f (token c) s s'"
proof -
  let ?c = "c\<lparr>expected_sequence := expected_sequence c + 1\<rparr>"
  let ?s = "put_conn f ?c s"
  have put: "touches_only f (token c) s ?s" by (rule touches_put)
  have sent: "touches_only f (token c) s (perform [Send f frame] ?s)" for frame
    using touches_trans [OF put touches_send] .
  have ok: "token_ok (token c)" and inv': "server_inv ?s"
    using server_inv_conn [OF inv conn] server_inv_put [OF inv conn, of ?c] by (simp_all add: conn_ok_def)
  show ?thesis
  proof (cases "sequence_number (header msg) = expected_sequence c")
    case False
    then obtain frame where "s' = perform [Send f frame] s"
      using step conn by (auto simp: on_message_def Let_def split: bind_splits)
    then show ?thesis using touches_send by simp
  next
    case True
    show ?thesis
    proof (cases "DecodedMessage.type msg \<in> {MessageType.Logout, MessageType.Heartbeat}")
      case True
      then obtain frame where "s' = perform [Send f frame] ?s"
        using step conn \<open>sequence_number (header msg) = _\<close> by (auto simp: on_message_def Let_def split: bind_splits if_splits)
      then show ?thesis using sent by simp
    next
      case False
      then obtain b q where q: "v3_push kQueueCapacity (cmd_queue ?s) (command_of (token c) msg) = Some (b, q)"
        and s': "s' = ?s\<lparr>cmd_queue := q\<rparr>"
        using step conn True by (auto simp: on_message_def Let_def split: bind_splits if_splits)
      have "token_ok (EngineCommand.session (command_of (token c) msg))" using ok by (simp add: command_session)
      then show ?thesis using touches_trans [OF put touches_push [OF inv' _ q command_session]] s' by blast
    qed
  qed
qed

lemma client_round_touches:
  assumes inv: "server_inv s" and conn: "map_of (connections s) f = Some c"
    and step: "client_round f False s = Some (go, stop, s')"
  shows "touches_only f (token c) s s'"
proof -
  have ok: "conn_ok f c" by (rule server_inv_conn [OF inv conn])
  then have pi: "parser_inv kParserCapacity (parser c)" by (simp add: conn_ok_def)
  obtain st m p where tp: "try_parse kParserCapacity (parser c) default = Some (st, m, p)" "parser_inv kParserCapacity p"
    using fp.parse_queued [OF pi] by metis
  let ?s = "put_conn f (c\<lparr>parser := p\<rparr>) s"
  have inv': "server_inv ?s" using server_inv_put [OF inv conn, of "c\<lparr>parser := p\<rparr>"] ok tp(2) by (simp add: conn_ok_def)
  have put: "touches_only f (token c) s ?s" by (rule touches_put)
  consider "s' = ?s" | "on_message f False m ?s = Some (go, stop, s')"
    using step conn tp(1) by (auto simp: client_round_def Let_def split: if_splits)
  then show ?thesis
  proof cases
    case 2
    have "touches_only f (token (c\<lparr>parser := p\<rparr>)) ?s s'" by (rule on_message_touches [OF inv' _ 2]) simp
    then show ?thesis using touches_trans [OF put] by simp
  qed (use put in simp)
qed

lemma client_read_touches:
  assumes inv: "server_inv s" and conn: "map_of (connections s) f = Some c"
    and step: "client_read f epollin result s = Some (loop, s')"
  shows "touches_only f (token c) s s'"
proof -
  have ok: "conn_ok f c" by (rule server_inv_conn [OF inv conn])
  have closed: "touches_only f (token c) s s'" if "close_conn f s = Some s'"
    using touches_close [OF inv _ that] conn by simp
  show ?thesis
  proof (cases "epollin \<and> (\<exists>bytes. result = Received bytes \<and> bytes \<noteq> [])")
    case False
    then show ?thesis using step conn closed
      by (auto simp: client_read_def split: if_splits recv_result.splits)
  next
    case True
    then obtain bytes where bytes: "result = Received bytes" "bytes \<noteq> []" by blast
    have "parser_inv kParserCapacity (parser c)" using ok by (simp add: conn_ok_def)
    then obtain b p where p: "append_bytes kParserCapacity (parser c) bytes = Some (b, p)" "parser_inv kParserCapacity p"
      using fp.append_total [of kParserCapacity "parser c" bytes] by metis
    let ?s = "put_conn f (c\<lparr>parser := p\<rparr>) s"
    have inv': "server_inv ?s" using server_inv_put [OF inv conn, of "c\<lparr>parser := p\<rparr>"] ok p(2) by (simp add: conn_ok_def)
    have put: "touches_only f (token c) s ?s" by (rule touches_put)
    have "if b then s' = ?s else close_conn f ?s = Some s'"
      using step conn True bytes p(1) by (auto simp: client_read_def Let_def split: if_splits)
    then show ?thesis using touches_trans [OF put touches_close [OF inv', of f "token c" s']] put by (auto split: if_splits)
  qed
qed

lemma on_response_touches:
  assumes inv: "server_inv s" and ok: "token_ok (EngineResponse.session rsp)" and step: "on_response sent rsp s = Some s'"
  shows "touches_only (SessionSlot.fd (slots s ! unat (slot (EngineResponse.session rsp)))) (EngineResponse.session rsp) s s'"
proof -
  let ?tok = "EngineResponse.session rsp"
  let ?sl = "slots s ! unat (slot ?tok)"
  let ?f = "SessionSlot.fd ?sl"
  have i: "unat (slot ?tok) < length (slots s)" using inv ok by (simp add: server_inv_def token_ok_def)
  then have get: "span_get (slots s) (unat (slot ?tok)) = Some ?sl" by (simp add: span_get_def)
  show ?thesis
  proof (cases "SessionSlot.generation ?sl \<noteq> SessionToken.generation ?tok \<or> ?f < 0")
    case True
    then have "s' = s" using step get by (simp add: on_response_def)
    then show ?thesis by simp
  next
    case False
    then obtain frame where fr: "s' = perform [Send ?f frame] s \<or> close_conn ?f (perform [Send ?f frame] s) = Some s'"
      using step get by (auto simp: on_response_def Let_def split: bind_splits if_splits)
    have "token c = ?tok" if "map_of (connections s) ?f = Some c" for c
    proof -
      obtain c' where "map_of (connections s) ?f = Some c'"
        "token c' = \<lparr>slot = of_nat (unat (slot ?tok)), SessionToken.generation = SessionSlot.generation ?sl\<rparr>"
        using inv i False unfolding server_inv_def routed_def not_less de_Morgan_disj by blast
      then show ?thesis using that False by simp
    qed
    moreover have "server_inv (perform [Send ?f frame] s)" using inv by simp
    ultimately show ?thesis
      using fr touches_send touches_trans [OF touches_send touches_close [of "perform [Send ?f frame] s" ?f ?tok s']] by auto
  qed
qed

section \<open>Properties\<close>

text \<open>The descriptor a step of the gateway serves.\<close>

definition serves :: "int \<Rightarrow> int \<Rightarrow> System \<Rightarrow> int option" where
  "serves event_fd listen_fd x =
     (case main_at x of
        Handling (e # _) \<Rightarrow> if ev_fd e = event_fd \<or> ev_fd e = listen_fd then None else Some (ev_fd e)
      | Parsing f _ _ \<Rightarrow> Some f
      | _ \<Rightarrow> None)"

text \<open>
  C7. The footprint of a client. In every reachable state, a step of the gateway that serves the descriptor of a client leaves all other
  connections (their parser, sequence number and token) and all slots but the one its token names (which may belong to a newer client by now) unchanged, makes system calls on that
  descriptor only, and submits commands under that client's token only; a step that delivers a response does the same for the client whose
  token the response carries; and a step of the matching thread touches no connection, slot or descriptor.
\<close>

theorem clients_isolated:
  assumes "system_reachable epoll_fd event_fd listen_fd x"
  shows "(\<forall>f c w x'. serves event_fd listen_fd x = Some f \<and> map_of (connections (server x)) f = Some c \<and>
            main_step epoll_fd event_fd listen_fd w x = Some x' \<longrightarrow> touches_only f (token c) (server x) (server x')) \<and>
         (\<forall>rsp w x'. draining (main_at x) \<and> responses (server x) \<noteq> [] \<and> rsp = hd (responses (server x)) \<and>
            main_step epoll_fd event_fd listen_fd w x = Some x' \<longrightarrow>
            touches_only (SessionSlot.fd (slots (server x) ! unat (slot (EngineResponse.session rsp)))) (EngineResponse.session rsp)
              (server x) (server x')) \<and>
         (\<forall>x'. engine_step x = Some x' \<longrightarrow> connections (server x') = connections (server x) \<and>
            slots (server x') = slots (server x) \<and> io (server x') = io (server x))"
proof (intro conjI allI impI)
  have sys: "system_inv x" by (rule system_reachable_inv [OF assms])
  then have inv: "server_inv (server x)" by (simp add: system_inv_def)
  {
    fix f c w x'
    assume a: "serves event_fd listen_fd x = Some f \<and> map_of (connections (server x)) f = Some c \<and>
      main_step epoll_fd event_fd listen_fd w x = Some x'"
    show "touches_only f (token c) (server x) (server x')"
    proof (cases "main_at x")
      case (Handling evs)
      then obtain e es where e: "evs = e # es" "ev_fd e = f" "f \<noteq> event_fd" "f \<noteq> listen_fd"
        using a by (auto simp: serves_def split: list.splits if_splits)
      then obtain loop s where "client_read f (ev_in e) (ev_recv e) (server x) = Some (loop, s)" "server x' = s"
        using a Handling by (auto simp: main_step_def split: bind_splits)
      then show ?thesis using client_read_touches [OF inv] a by blast
    next
      case (Parsing g stop evs)
      then have "g = f" "stop = False" using a sys by (auto simp: serves_def system_inv_def)
      then obtain go stop' s where "client_round f False (server x) = Some (go, stop', s)" "server x' = s"
        using a Parsing by (auto simp: main_step_def split: bind_splits)
      then show ?thesis using client_round_touches [OF inv] a by blast
    qed (use a in \<open>simp_all add: serves_def\<close>)
  next
    fix rsp w x'
    assume a: "draining (main_at x) \<and> responses (server x) \<noteq> [] \<and> rsp = hd (responses (server x)) \<and>
      main_step epoll_fd event_fd listen_fd w x = Some x'"
    then obtain sends k r evs where at: "main_at x = Draining sends k r evs" by (cases "main_at x") auto
    obtain rs where rs: "responses (server x) = rsp # rs" using a by (cases "responses (server x)") auto
    have vi: "v3_inv kQueueCapacity (rsp_queue (server x))" and ok: "token_ok (EngineResponse.session rsp)"
      using inv rs by (auto simp: server_inv_def responses_def)
    obtain q where q: "v3_pop kQueueCapacity (rsp_queue (server x)) r = Some (True, rsp, q)" "v3_inv kQueueCapacity q"
      "v3_contents q = rs"
      using v3_fifo.pop_some [OF vi] rs unfolding responses_def by blast
    let ?s = "(server x)\<lparr>rsp_queue := q\<rparr>"
    have "\<forall>r \<in> set (v3_contents q). token_ok (EngineResponse.session r)"
      using inv rs q(3) by (simp add: server_inv_def responses_def)
    then have inv': "server_inv ?s" using server_inv_rsp_queue [OF inv q(2)] by blast
    have "on_response (sends k) rsp ?s = Some (server x')"
      using a at q(1) by (auto simp: main_step_def drain_round_def Let_def split: bind_splits)
    from on_response_touches [OF inv' ok this]
    show "touches_only (SessionSlot.fd (slots (server x) ! unat (slot (EngineResponse.session rsp)))) (EngineResponse.session rsp)
        (server x) (server x')"
      using touches_trans [OF touches_rsp] by simp
  next
    fix x'
    assume "engine_step x = Some x'"
    then show "connections (server x') = connections (server x)" "slots (server x') = slots (server x)" "io (server x') = io (server x)"
      by (auto simp: engine_step_def Let_def split: engine_pc.splits bind_splits if_splits option.splits)
  }
qed

theorem clients_isolated_witness:
  "\<exists>x x' tok. system_reachable 5 4 3 x \<and> main_step 5 4 3 Interrupted x = Some x' \<and> map_of (connections (server x)) 7 \<noteq> None \<and>
     touches_only 7 tok (server x) (server x')"
proof -
  obtain s where r: "server_reachable 4 3 s"
    and c: "map_of (connections s) 7 = Some (Connection_init 7 \<lparr>slot = 0, generation = 1\<rparr>)"
    using one_client by metis
  obtain x where x: "system_reachable 5 4 3 x" "server x = s" "main_at x = Polling" using sequential_states [OF r] by metis
  let ?e = "\<lparr>ev_fd = 7, ev_in = True, ev_sends = (\<lambda>_. 64), ev_accepts = [], ev_recv = Received []\<rparr>"
  let ?y = "x\<lparr>main_at := Handling [?e]\<rparr>"
  have "main_step 5 4 3 (Ready [?e]) x = Some ?y" "accepts_fresh 4 3 x"
    using x(3) by (simp_all add: main_step_def accepts_fresh_def)
  then have y: "system_reachable 5 4 3 ?y" using reachable_gateway [OF x(1)] by blast
  then obtain z where z: "main_step 5 4 3 Interrupted ?y = Some z"
    using main_step_inv [OF system_reachable_inv [OF y], of 4 3 5 Interrupted] by (auto simp: accepts_fresh_def)
  have "serves 4 3 ?y = Some 7" by (simp add: serves_def)
  then have "touches_only 7 (token (Connection_init 7 \<lparr>slot = 0, generation = 1\<rparr>)) (server ?y) (server z)"
    using clients_isolated [OF y] z c x(2) by simp
  then show ?thesis using y z c x(2) by (intro exI [of _ ?y] exI [of _ z]) auto
qed

end
