(* ===== verification/Memory_Model.thy ===== *)
theory Memory_Model
  imports Spsc
begin

text \<open>
  The concurrent setting of the lock-free queues: one producer and one consumer thread, two
  atomic variables with one writer each (\<^verbatim>\<open>head_\<close> is stored by the producer only, \<^verbatim>\<open>tail_\<close> by
  the consumer only) and an array of ordinary objects.

  The C++ memory model is rendered operationally. An atomic variable is its modification
  order, the list of all its stores; a load may return any store that is not older than one the
  thread already knows (coherence), so a stale value can be read; a release store carries the
  vector clock of the storing thread and an acquire load joins it into the clock of the reader
  (synchronises-with). A \<^verbatim>\<open>seq_cst\<close> load of a variable that is only accessed so reads
  the newest store. An access to an ordinary object that is not ordered by
  happens-before with a conflicting access of the other thread is a data race, which is undefined
  behaviour and the value \<^term>\<open>None\<close> here, as is an access outside the array. Between the threads
  values flow from release stores to acquire loads only (a relaxed load is only
  used by a thread on its own variable), so program order and reads-from form no cycle and the
  interleavings of this machine are all the executions.

  The last part is the invariant of the protocol that the four lock-free variants follow, and the
  locale that carries it from the thread programs to the reachable states.
\<close>

section \<open>Memory\<close>

datatype thread = Producer | Consumer

datatype loc = Head | Tail

datatype memory_order =
  memory_order_relaxed | memory_order_acquire | memory_order_release | memory_order_seq_cst

type_synonym vclock = "thread \<Rightarrow> nat"

fun other :: "thread \<Rightarrow> thread" where
  "other Producer = Consumer"
| "other Consumer = Producer"

record 'a memory =
  stores :: "loc \<Rightarrow> (size_t \<times> vclock) list"
  clock :: "thread \<Rightarrow> vclock"
  seen :: "thread \<Rightarrow> loc \<Rightarrow> nat"
  cells :: "'a list"
  writes :: "nat \<Rightarrow> vclock"
  reads :: "nat \<Rightarrow> vclock"

text \<open>
  A freshly constructed object: both variables hold their initial value, every cell is value
  initialised, and the construction happens before both threads.
\<close>

definition memory_init :: "size_t \<Rightarrow> 'a::default memory" where
  "memory_init Capacity =
     \<lparr>stores = (\<lambda>_. [(0, \<lambda>_. 0)]), clock = (\<lambda>t u. if u = t then 1 else 0), seen = (\<lambda>_ _. 0),
      cells = replicate (unat Capacity) default, writes = (\<lambda>_ _. 0), reads = (\<lambda>_ _. 0)\<rparr>"

definition acquires :: "memory_order \<Rightarrow> bool" where
  "acquires ord \<longleftrightarrow> ord = memory_order_acquire \<or> ord = memory_order_seq_cst"

definition releases :: "memory_order \<Rightarrow> bool" where
  "releases ord \<longleftrightarrow> ord = memory_order_release \<or> ord = memory_order_seq_cst"

text \<open>The number \<open>k\<close> chooses among the stores that coherence allows: the oldest one, the next, and so on.\<close>

definition load_index :: "memory_order \<Rightarrow> thread \<Rightarrow> loc \<Rightarrow> nat \<Rightarrow> 'a memory \<Rightarrow> nat" where
  "load_index ord t l k M =
     (let newest = length (stores M l) - 1
      in if ord = memory_order_seq_cst then newest else min (seen M t l + k) newest)"

definition load :: "memory_order \<Rightarrow> thread \<Rightarrow> loc \<Rightarrow> nat \<Rightarrow> 'a memory \<Rightarrow> size_t \<times> 'a memory" where
  "load ord t l k M =
     (let i = load_index ord t l k M; (v, c) = stores M l ! i
      in (v, M\<lparr>seen := (seen M)(t := (seen M t)(l := i)),
              clock := (clock M)(t := (if acquires ord then (\<lambda>u. max (clock M t u) (c u)) else clock M t))\<rparr>))"

definition store :: "memory_order \<Rightarrow> thread \<Rightarrow> loc \<Rightarrow> size_t \<Rightarrow> 'a memory \<Rightarrow> 'a memory" where
  "store ord t l v M =
     M\<lparr>stores := (stores M)(l := stores M l @ [(v, if releases ord then clock M t else (\<lambda>_. 0))]),
       seen := (seen M)(t := (seen M t)(l := length (stores M l))),
       clock := (clock M)(t := (clock M t)(t := Suc (clock M t t)))\<rparr>"

definition cell_write :: "thread \<Rightarrow> nat \<Rightarrow> 'a \<Rightarrow> 'a memory \<Rightarrow> 'a memory option" where
  "cell_write t i x M =
     (let u = other t
      in if i < length (cells M) \<and> writes M i u \<le> clock M t u \<and> reads M i u \<le> clock M t u
         then Some (M\<lparr>cells := (cells M)[i := x], writes := (writes M)(i := (writes M i)(t := clock M t t))\<rparr>)
         else None)"

definition cell_read :: "thread \<Rightarrow> nat \<Rightarrow> 'a memory \<Rightarrow> ('a \<times> 'a memory) option" where
  "cell_read t i M =
     (let u = other t
      in if i < length (cells M) \<and> writes M i u \<le> clock M t u
         then Some (cells M ! i, M\<lparr>reads := (reads M)(i := (reads M i)(t := clock M t t))\<rparr>)
         else None)"

section \<open>Two threads on one queue\<close>

text \<open>
  A thread program makes one memory access per step. Between two calls it is idle, and its next
  step begins a call with the given argument; a step that ends a call gives its result: the
  element with the returned truth value.
\<close>

type_synonym ('a, 'l) program = "nat \<Rightarrow> 'a \<Rightarrow> 'l \<Rightarrow> 'a memory \<Rightarrow> ('l \<times> 'a memory \<times> ('a \<times> bool) option) option"

record ('a, 'p, 'c) system =
  mem :: "'a memory"
  producer :: 'p
  consumer :: 'c
  pushes :: "('a \<times> bool) list"
  pops :: "('a \<times> bool) list"

definition record_result :: "'b option \<Rightarrow> 'b list \<Rightarrow> 'b list" where
  "record_result r xs = xs @ (case r of None \<Rightarrow> [] | Some x \<Rightarrow> [x])"

definition system_init :: "'a memory \<Rightarrow> 'p \<Rightarrow> 'c \<Rightarrow> ('a, 'p, 'c) system" where
  "system_init M p c = \<lparr>mem = M, producer = p, consumer = c, pushes = [], pops = []\<rparr>"

inductive reachable ::
  "('a, 'p) program \<Rightarrow> ('a, 'c) program \<Rightarrow> ('a, 'p, 'c) system \<Rightarrow> ('a, 'p, 'c) system \<Rightarrow> bool"
  for P C s0 where
  initial: "reachable P C s0 s0"
| produce: "reachable P C s0 (s\<lparr>mem := M, producer := p, pushes := record_result r (pushes s)\<rparr>)"
    if "reachable P C s0 s" and "P k v (producer s) (mem s) = Some (p, M, r)"
| consume: "reachable P C s0 (s\<lparr>mem := M, consumer := c, pops := record_result r (pops s)\<rparr>)"
    if "reachable P C s0 s" and "C k out (consumer s) (mem s) = Some (c, M, r)"

text \<open>An executable schedule: which thread moves, which store its load picks, and its argument.\<close>

fun run_schedule ::
  "('a, 'p) program \<Rightarrow> ('a, 'c) program \<Rightarrow> ('a, 'p, 'c) system \<Rightarrow> (thread \<times> nat \<times> 'a) list \<Rightarrow>
   ('a, 'p, 'c) system option" where
  "run_schedule P C s [] = Some s"
| "run_schedule P C s ((Producer, k, v) # xs) = do {
     (p, M, r) \<leftarrow> P k v (producer s) (mem s);
     run_schedule P C (s\<lparr>mem := M, producer := p, pushes := record_result r (pushes s)\<rparr>) xs
   }"
| "run_schedule P C s ((Consumer, k, out) # xs) = do {
     (c, M, r) \<leftarrow> C k out (consumer s) (mem s);
     run_schedule P C (s\<lparr>mem := M, consumer := c, pops := record_result r (pops s)\<rparr>) xs
   }"

definition steps_of :: "thread \<Rightarrow> (thread \<times> nat \<times> 'a) list \<Rightarrow> nat" where
  "steps_of t xs = length (filter (\<lambda>x. fst x = t) xs)"

lemma run_schedule_reachable:
  "reachable P C s0 s \<Longrightarrow> run_schedule P C s xs = Some s' \<Longrightarrow> reachable P C s0 s'"
proof (induction xs arbitrary: s)
  case (Cons x xs)
  obtain t k v where x: "x = (t, k, v)" by (cases x)
  show ?case
  proof (cases t)
    case Producer
    then obtain p M r where "P k v (producer s) (mem s) = Some (p, M, r)"
      and "run_schedule P C (s\<lparr>mem := M, producer := p, pushes := record_result r (pushes s)\<rparr>) xs = Some s'"
      using Cons.prems(2) x by (auto split: bind_splits)
    then show ?thesis using Cons.IH reachable.produce [OF Cons.prems(1)] by blast
  next
    case Consumer
    then obtain c M r where "C k v (consumer s) (mem s) = Some (c, M, r)"
      and "run_schedule P C (s\<lparr>mem := M, consumer := c, pops := record_result r (pops s)\<rparr>) xs = Some s'"
      using Cons.prems(2) x by (auto split: bind_splits)
    then show ?thesis using Cons.IH reachable.consume [OF Cons.prems(1)] by blast
  qed
qed auto

text \<open>The elements that were accepted by \<^verbatim>\<open>push\<close> and those that were delivered by \<^verbatim>\<open>pop\<close>, in order.\<close>

definition accepted :: "('a, 'p, 'c) system \<Rightarrow> 'a list" where
  "accepted s = map fst (filter snd (pushes s))"

definition delivered :: "('a, 'p, 'c) system \<Rightarrow> 'a list" where
  "delivered s = map fst (filter snd (pops s))"

section \<open>The invariant of the protocol\<close>

text \<open>
  \<open>acc\<close> is the list of the elements whose \<^verbatim>\<open>head_\<close> store has been made and \<open>m\<close> the number of
  \<^verbatim>\<open>tail_\<close> stores; \<open>ts\<close> is the newest \<^verbatim>\<open>tail_\<close> store the producer knows, \<open>hs\<close> the newest \<^verbatim>\<open>head_\<close>
  store the consumer knows. \<open>w\<close> is an element that has been written to its cell and not
  published yet, \<open>r\<close> one that has been read and not released yet. The counters are represented
  in the variables by \<open>enc\<close>, and \<open>bound\<close> is the number of elements the variant admits.
\<close>

abbreviation in_flight :: "'a option \<Rightarrow> nat" where
  "in_flight x \<equiv> (case x of None \<Rightarrow> 0 | Some _ \<Rightarrow> 1)"

definition order_inv :: "nat \<Rightarrow> nat \<Rightarrow> nat \<Rightarrow> nat \<Rightarrow> nat \<Rightarrow> 'a option \<Rightarrow> 'a option \<Rightarrow> bool" where
  "order_inv bound n m ts hs w r \<longleftrightarrow>
     ts \<le> m \<and> m + in_flight r \<le> hs \<and> hs \<le> n \<and> n + in_flight w \<le> ts + bound"

text \<open>The stores of one variable: number \<open>k\<close> holds the counter \<open>k\<close> and carries epoch \<open>k\<close> of its thread.\<close>

definition stores_inv :: "(nat \<Rightarrow> size_t) \<Rightarrow> (size_t \<times> vclock) list \<Rightarrow> thread \<Rightarrow> nat \<Rightarrow> nat \<Rightarrow> bool" where
  "stores_inv enc st t n known \<longleftrightarrow>
     length st = Suc n \<and> (\<forall>k\<le>n. fst (st ! k) = enc k \<and> snd (st ! k) t = k \<and> snd (st ! k) (other t) \<le> known)"

definition thread_inv :: "'a memory \<Rightarrow> thread \<Rightarrow> loc \<Rightarrow> loc \<Rightarrow> nat \<Rightarrow> nat \<Rightarrow> bool" where
  "thread_inv M t own their n known \<longleftrightarrow>
     clock M t t = Suc n \<and> clock M t (other t) = known \<and> seen M t own = n \<and> seen M t their = known"

definition cells_inv :: "nat \<Rightarrow> 'a list \<Rightarrow> nat \<Rightarrow> 'a option \<Rightarrow> 'a option \<Rightarrow> 'a list \<Rightarrow> bool" where
  "cells_inv cap acc m w r cs \<longleftrightarrow>
     length cs = cap \<and> (\<forall>j. m \<le> j \<and> j < length acc \<longrightarrow> cs ! (j mod cap) = acc ! j) \<and>
     (\<forall>x. w = Some x \<longrightarrow> cs ! (length acc mod cap) = x) \<and> (\<forall>x. r = Some x \<longrightarrow> acc ! m = x)"

definition race_inv :: "nat \<Rightarrow> nat \<Rightarrow> 'a option \<Rightarrow> 'a memory \<Rightarrow> bool" where
  "race_inv cap m r M \<longleftrightarrow>
     (\<forall>i. writes M i Consumer = 0) \<and>
     (\<forall>j. m \<le> j \<and> j < m + cap \<longrightarrow> writes M (j mod cap) Producer \<le> Suc j) \<and>
     (\<forall>j. m + in_flight r \<le> j \<and> j < m + in_flight r + cap \<longrightarrow> reads M (j mod cap) Consumer \<le> Suc j - cap)"

definition mem_inv ::
  "nat \<Rightarrow> nat \<Rightarrow> (nat \<Rightarrow> size_t) \<Rightarrow> 'a list \<Rightarrow> nat \<Rightarrow> nat \<Rightarrow> nat \<Rightarrow> 'a option \<Rightarrow> 'a option \<Rightarrow> 'a memory \<Rightarrow> bool" where
  "mem_inv cap bound enc acc m ts hs w r M \<longleftrightarrow>
     0 < cap \<and> bound \<le> cap \<and> order_inv bound (length acc) m ts hs w r \<and>
     stores_inv enc (stores M Head) Producer (length acc) ts \<and> stores_inv enc (stores M Tail) Consumer m hs \<and>
     thread_inv M Producer Head Tail (length acc) ts \<and> thread_inv M Consumer Tail Head m hs \<and>
     cells_inv cap acc m w r (cells M) \<and> race_inv cap m r M"

lemma mem_inv_init:
  assumes "0 < unat Capacity" and "bound \<le> unat Capacity" and "enc 0 = 0"
  shows "mem_inv (unat Capacity) bound enc [] 0 0 0 None None (memory_init Capacity)"
  using assms
  by (auto simp: mem_inv_def memory_init_def order_inv_def stores_inv_def thread_inv_def cells_inv_def race_inv_def)

text \<open>The order of the counters that the threads rely on.\<close>

lemma mem_inv_order:
  assumes "mem_inv cap bound enc acc m ts hs w r M"
  shows "ts \<le> m" and "m + in_flight r \<le> hs" and "hs \<le> length acc" and "length acc + in_flight w \<le> ts + bound"
    and "0 < cap" and "bound \<le> cap"
  using assms by (auto simp: mem_inv_def order_inv_def)

text \<open>A thread that loads its own variable gets its own last store, whatever the memory order.\<close>

lemma load_own_producer:
  assumes inv: "mem_inv cap bound enc acc m ts hs w r M"
  obtains M' where "load ord Producer Head k M = (enc (length acc), M')"
    and "mem_inv cap bound enc acc m ts hs w r M'"
proof -
  have st: "stores_inv enc (stores M Head) Producer (length acc) ts"
    and th: "thread_inv M Producer Head Tail (length acc) ts"
    using inv by (auto simp: mem_inv_def)
  have i: "load_index ord Producer Head k M = length acc"
    using st th by (auto simp: load_index_def stores_inv_def thread_inv_def Let_def)
  obtain v c where vc: "stores M Head ! length acc = (v, c)" by fastforce
  then have v: "v = enc (length acc)" and c: "c Producer = length acc" "c Consumer \<le> ts"
    using st by (auto simp: stores_inv_def)
  have "(\<lambda>u. max (clock M Producer u) (c u)) = clock M Producer"
  proof
    fix u show "max (clock M Producer u) (c u) = clock M Producer u"
      using c th by (cases u) (auto simp: thread_inv_def)
  qed
  moreover have "(seen M Producer)(Head := length acc) = seen M Producer" using th by (auto simp: thread_inv_def)
  ultimately have "load ord Producer Head k M = (v, M)"
    by (simp add: load_def i vc Let_def)
  with v inv that show thesis by simp
qed

lemma load_own_consumer:
  assumes inv: "mem_inv cap bound enc acc m ts hs w r M"
  obtains M' where "load ord Consumer Tail k M = (enc m, M')"
    and "mem_inv cap bound enc acc m ts hs w r M'"
proof -
  have st: "stores_inv enc (stores M Tail) Consumer m hs"
    and th: "thread_inv M Consumer Tail Head m hs"
    using inv by (auto simp: mem_inv_def)
  have i: "load_index ord Consumer Tail k M = m"
    using st th by (auto simp: load_index_def stores_inv_def thread_inv_def Let_def)
  obtain v c where vc: "stores M Tail ! m = (v, c)" by fastforce
  then have v: "v = enc m" and c: "c Consumer = m" "c Producer \<le> hs"
    using st by (auto simp: stores_inv_def)
  have "(\<lambda>u. max (clock M Consumer u) (c u)) = clock M Consumer"
  proof
    fix u show "max (clock M Consumer u) (c u) = clock M Consumer u"
      using c th by (cases u) (auto simp: thread_inv_def)
  qed
  moreover have "(seen M Consumer)(Tail := m) = seen M Consumer" using th by (auto simp: thread_inv_def)
  ultimately have "load ord Consumer Tail k M = (v, M)"
    by (simp add: load_def i vc Let_def)
  with v inv that show thesis by simp
qed

text \<open>
  An acquire load of the other thread's variable yields some counter between the newest one known
  so far and the true one, and everything before that store is known from then on; a \<^verbatim>\<open>seq_cst\<close> load
  yields the true counter.
\<close>

lemma load_tail_producer:
  assumes inv: "mem_inv cap bound enc acc m ts hs w r M" and acq: "acquires ord"
  obtains i M' where "load ord Producer Tail k M = (enc i, M')" and "ts \<le> i" and "i \<le> m"
    and "ord = memory_order_seq_cst \<or> m \<le> k \<Longrightarrow> i = m"
    and "mem_inv cap bound enc acc m i hs w r M'"
proof -
  let ?i = "load_index ord Producer Tail k M"
  have st: "stores_inv enc (stores M Tail) Consumer m hs" and th: "thread_inv M Producer Head Tail (length acc) ts"
    and hs: "hs \<le> length acc" and ts: "ts \<le> m"
    using inv by (auto simp: mem_inv_def order_inv_def)
  have i: "ts \<le> ?i" "?i \<le> m" "ord = memory_order_seq_cst \<or> m \<le> k \<Longrightarrow> ?i = m"
    using st th ts by (auto simp: load_index_def stores_inv_def thread_inv_def Let_def)
  obtain v c where vc: "stores M Tail ! ?i = (v, c)" by fastforce
  then have v: "v = enc ?i" and c: "c Consumer = ?i" "c Producer \<le> hs"
    using st i(2) by (force simp: stores_inv_def)+
  obtain M' where M': "load ord Producer Tail k M = (enc ?i, M')" by (simp add: load_def vc v Let_def)
  have "mem_inv cap bound enc acc m ?i hs w r M'"
    using M' inv i(1,2) c hs acq
    by (auto simp: load_def vc mem_inv_def order_inv_def stores_inv_def thread_inv_def race_inv_def Let_def
        intro: order_trans)
  then show thesis using that M' i by blast
qed

lemma load_head_consumer:
  assumes inv: "mem_inv cap bound enc acc m ts hs w r M" and acq: "acquires ord"
  obtains i M' where "load ord Consumer Head k M = (enc i, M')" and "hs \<le> i" and "i \<le> length acc"
    and "ord = memory_order_seq_cst \<or> length acc \<le> k \<Longrightarrow> i = length acc"
    and "mem_inv cap bound enc acc m ts i w r M'"
proof -
  let ?i = "load_index ord Consumer Head k M"
  have st: "stores_inv enc (stores M Head) Producer (length acc) ts" and th: "thread_inv M Consumer Tail Head m hs"
    and hs: "hs \<le> length acc" and ts: "ts \<le> m"
    using inv by (auto simp: mem_inv_def order_inv_def)
  have i: "hs \<le> ?i" "?i \<le> length acc" "ord = memory_order_seq_cst \<or> length acc \<le> k \<Longrightarrow> ?i = length acc"
    using st th hs by (auto simp: load_index_def stores_inv_def thread_inv_def Let_def)
  obtain v c where vc: "stores M Head ! ?i = (v, c)" by fastforce
  then have v: "v = enc ?i" and c: "c Producer = ?i" "c Consumer \<le> ts"
    using st i(2) by (force simp: stores_inv_def)+
  obtain M' where M': "load ord Consumer Head k M = (enc ?i, M')" by (simp add: load_def vc v Let_def)
  have "mem_inv cap bound enc acc m ts ?i w r M'"
    using M' inv i(1,2) c ts acq
    by (auto simp: load_def vc mem_inv_def order_inv_def stores_inv_def thread_inv_def race_inv_def Let_def
        intro: order_trans)
  then show thesis using that M' i by blast
qed

text \<open>Within one lap the cell of a counter determines the counter.\<close>

lemma cell_of_counter:
  fixes a b m cap :: nat
  assumes "a mod cap = b mod cap" and "m \<le> a" "a < m + cap" and "m \<le> b" "b < m + cap"
  shows "a = b"
  using assms mod_distinct_lap [of a b cap] mod_distinct_lap [of b a cap] by (cases a b rule: linorder_cases) auto

text \<open>
  The producer may write the cell of the next element once it knows that the element of the
  previous lap has been consumed: there is no race, and no unread element is overwritten.
\<close>

lemma write_cell_producer:
  assumes inv: "mem_inv cap bound enc acc m ts hs None r M" and room: "length acc < ts + bound"
  obtains M' where "cell_write Producer (length acc mod cap) x M = Some M'"
    and "mem_inv cap bound enc acc m ts hs (Some x) r M'"
proof -
  let ?n = "length acc"
  have o: "ts \<le> m" "m + in_flight r \<le> hs" "hs \<le> ?n" "0 < cap" "bound \<le> cap"
    using mem_inv_order [OF inv] by auto
  have len: "length (cells M) = cap" and rc: "race_inv cap m r M" and th: "thread_inv M Producer Head Tail ?n ts"
    using inv by (auto simp: mem_inv_def cells_inv_def)
  have "reads M (?n mod cap) Consumer \<le> Suc ?n - cap" using rc o room by (simp add: race_inv_def)
  also have "\<dots> \<le> ts" using room o by linarith
  finally have rd: "reads M (?n mod cap) Consumer \<le> ts" .
  let ?M = "M\<lparr>cells := (cells M)[?n mod cap := x],
    writes := (writes M)(?n mod cap := (writes M (?n mod cap))(Producer := clock M Producer Producer))\<rparr>"
  have "cell_write Producer (?n mod cap) x M = Some ?M"
    using rd len o rc th by (simp add: cell_write_def race_inv_def thread_inv_def)
  moreover have "cells_inv cap acc m (Some x) r (cells ?M)"
  proof -
    have "(cells M)[?n mod cap := x] ! (j mod cap) = acc ! j" if "m \<le> j" "j < ?n" for j
      using that inv o room cell_of_counter [of j cap ?n m]
      by (auto simp: mem_inv_def cells_inv_def nth_list_update)
    then show ?thesis using inv o len by (auto simp: mem_inv_def cells_inv_def)
  qed
  moreover have "race_inv cap m r ?M"
    using rc th o room cell_of_counter [of _ cap ?n m] by (auto simp: race_inv_def thread_inv_def)
  moreover have "order_inv bound ?n m ts hs (Some x) r" using o room by (auto simp: order_inv_def)
  moreover have "thread_inv ?M Producer Head Tail ?n ts" "thread_inv ?M Consumer Tail Head m hs"
    using inv by (auto simp: mem_inv_def thread_inv_def)
  ultimately show thesis using inv that by (simp add: mem_inv_def)
qed

text \<open>The release store of the head publishes the element.\<close>

lemma store_head_producer:
  assumes inv: "mem_inv cap bound enc acc m ts hs (Some x) r M" and rel: "releases ord"
  shows "mem_inv cap bound enc (acc @ [x]) m ts hs None r (store ord Producer Head (enc (Suc (length acc))) M)"
proof -
  let ?n = "length acc" and ?M = "store ord Producer Head (enc (Suc (length acc))) M"
  have "order_inv bound (Suc ?n) m ts hs (None :: 'a option) r" using inv by (auto simp: mem_inv_def order_inv_def)
  moreover have "stores_inv enc (stores ?M Head) Producer (Suc ?n) ts"
    using inv rel by (auto simp: mem_inv_def store_def stores_inv_def thread_inv_def nth_append le_Suc_eq)
  moreover have "stores ?M Tail = stores M Tail" by (simp add: store_def)
  moreover have "thread_inv ?M Producer Head Tail (Suc ?n) ts" "thread_inv ?M Consumer Tail Head m hs"
    using inv by (auto simp: mem_inv_def store_def stores_inv_def thread_inv_def)
  moreover have "cells_inv cap (acc @ [x]) m None r (cells ?M)"
    using inv by (auto simp: mem_inv_def store_def cells_inv_def order_inv_def nth_append less_Suc_eq split: option.splits)
  moreover have "race_inv cap m r ?M" using inv by (auto simp: mem_inv_def store_def race_inv_def)
  ultimately show ?thesis using inv by (simp add: mem_inv_def)
qed

text \<open>
  The consumer may read the cell of its next element once it knows the store that published it,
  and gets the element the producer put there.
\<close>

lemma read_cell_consumer:
  assumes inv: "mem_inv cap bound enc acc m ts hs w None M" and some: "m < hs"
  obtains M' where "cell_read Consumer (m mod cap) M = Some (acc ! m, M')"
    and "mem_inv cap bound enc acc m ts hs w (Some (acc ! m)) M'"
proof -
  have o: "ts \<le> m" "hs \<le> length acc" "0 < cap" using mem_inv_order [OF inv] by auto
  have len: "length (cells M) = cap" and rc: "race_inv cap m None M" and th: "thread_inv M Consumer Tail Head m hs"
    and cell: "cells M ! (m mod cap) = acc ! m"
    using inv some o by (auto simp: mem_inv_def cells_inv_def)
  have "writes M (m mod cap) Producer \<le> Suc m" using rc o by (simp add: race_inv_def)
  then have wr: "writes M (m mod cap) Producer \<le> hs" using some by linarith
  let ?M = "M\<lparr>reads := (reads M)(m mod cap := (reads M (m mod cap))(Consumer := clock M Consumer Consumer))\<rparr>"
  have "cell_read Consumer (m mod cap) M = Some (acc ! m, ?M)"
    using wr len o th cell by (simp add: cell_read_def thread_inv_def)
  moreover have "race_inv cap m (Some (acc ! m)) ?M"
  proof -
    have "reads ?M (j mod cap) Consumer \<le> Suc j - cap" if j: "Suc m \<le> j" "j < Suc m + cap" for j
    proof (cases "j = m + cap")
      case True
      then show ?thesis using th by (simp add: thread_inv_def)
    next
      case False
      then have "j mod cap \<noteq> m mod cap" using j mod_distinct_lap [of m j cap] by simp
      then show ?thesis using rc j False by (simp add: race_inv_def)
    qed
    then show ?thesis using rc by (simp add: race_inv_def)
  qed
  moreover have "order_inv bound (length acc) m ts hs w (Some (acc ! m))"
    using inv some by (simp add: mem_inv_def order_inv_def)
  moreover have "thread_inv ?M Producer Head Tail (length acc) ts" "thread_inv ?M Consumer Tail Head m hs"
    using inv by (auto simp: mem_inv_def thread_inv_def)
  ultimately show thesis using inv that by (simp add: mem_inv_def cells_inv_def)
qed

text \<open>The release store of the tail hands the cell back.\<close>

lemma store_tail_consumer:
  assumes inv: "mem_inv cap bound enc acc m ts hs w (Some x) M" and rel: "releases ord"
  shows "mem_inv cap bound enc acc (Suc m) ts hs w None (store ord Consumer Tail (enc (Suc m)) M)" and "x = acc ! m"
proof -
  let ?M = "store ord Consumer Tail (enc (Suc m)) M"
  have o: "ts \<le> m" "m < hs" "hs \<le> length acc" "0 < cap" using mem_inv_order [OF inv] by auto
  have rc: "race_inv cap m (Some x) M" using inv by (simp add: mem_inv_def)
  have "order_inv bound (length acc) (Suc m) ts hs w (None :: 'a option)"
    using inv by (auto simp: mem_inv_def order_inv_def)
  moreover have "stores_inv enc (stores ?M Tail) Consumer (Suc m) hs"
    using inv rel by (auto simp: mem_inv_def store_def stores_inv_def thread_inv_def nth_append le_Suc_eq)
  moreover have "stores ?M Head = stores M Head" by (simp add: store_def)
  moreover have "thread_inv ?M Producer Head Tail (length acc) ts" "thread_inv ?M Consumer Tail Head (Suc m) hs"
    using inv by (auto simp: mem_inv_def store_def stores_inv_def thread_inv_def)
  moreover have "cells_inv cap acc (Suc m) w None (cells ?M)"
    using inv by (auto simp: mem_inv_def store_def cells_inv_def)
  moreover have "race_inv cap (Suc m) (None :: 'a option) ?M"
  proof -
    have "writes M (j mod cap) Producer \<le> Suc j" if "Suc m \<le> j" "j < Suc m + cap" for j
    proof (cases "j = m + cap")
      case True
      then have "writes M (j mod cap) Producer \<le> Suc m" using rc o by (simp add: race_inv_def)
      then show ?thesis using True by simp
    next
      case False
      then show ?thesis using rc that by (simp add: race_inv_def)
    qed
    then show ?thesis using rc by (simp add: race_inv_def store_def)
  qed
  ultimately show "mem_inv cap bound enc acc (Suc m) ts hs w None ?M" using inv by (simp add: mem_inv_def)
  show "x = acc ! m" using inv by (simp add: mem_inv_def cells_inv_def)
qed

section \<open>From thread programs to reachable states\<close>

text \<open>
  What a producer and a consumer program promise: each step keeps the invariant, with the local
  state in step with the counters, and a call that returns \<^verbatim>\<open>true\<close> has made its store.
\<close>

locale spsc_protocol =
  fixes cap bound :: nat and enc :: "nat \<Rightarrow> size_t"
    and P :: "('a, 'p) program" and C :: "('a, 'c) program"
    and M0 :: "'a memory" and p0 :: 'p and c0 :: 'c
    and p_ok :: "'p \<Rightarrow> nat \<Rightarrow> nat \<Rightarrow> 'a option \<Rightarrow> bool"
    and c_ok :: "'c \<Rightarrow> nat \<Rightarrow> nat \<Rightarrow> 'a option \<Rightarrow> bool"
    and valid :: bool
  assumes init: "valid \<Longrightarrow> mem_inv cap bound enc [] 0 0 0 None None M0 \<and> p_ok p0 0 0 None \<and> c_ok c0 0 0 None"
    and P_step: "valid \<Longrightarrow> mem_inv cap bound enc acc m ts hs w r M \<Longrightarrow> p_ok p (length acc) ts w \<Longrightarrow>
      \<exists>p' M' res ts' w'. P k v p M = Some (p', M', res) \<and>
        (let acc' = acc @ (case res of Some (x, True) \<Rightarrow> [x] | _ \<Rightarrow> [])
         in mem_inv cap bound enc acc' m ts' hs w' r M' \<and> p_ok p' (length acc') ts' w')"
    and C_step: "valid \<Longrightarrow> mem_inv cap bound enc acc m ts hs w r M \<Longrightarrow> c_ok c m hs r \<Longrightarrow>
      \<exists>c' M' res hs' r' m'. C k out c M = Some (c', M', res) \<and>
        mem_inv cap bound enc acc m' ts hs' w r' M' \<and> c_ok c' m' hs' r' \<and>
        (if \<exists>x. res = Some (x, True) then m' = Suc m \<and> res = Some (acc ! m, True) else m' = m)"
begin

definition sys_inv :: "('a, 'p, 'c) system \<Rightarrow> bool" where
  "sys_inv s \<longleftrightarrow> (\<exists>ts hs w r.
     mem_inv cap bound enc (accepted s) (length (delivered s)) ts hs w r (mem s) \<and>
     p_ok (producer s) (length (accepted s)) ts w \<and> c_ok (consumer s) (length (delivered s)) hs r) \<and>
     delivered s = take (length (delivered s)) (accepted s)"

lemma sys_inv_init: "valid \<Longrightarrow> sys_inv (system_init M0 p0 c0)"
  using init by (auto simp: sys_inv_def system_init_def accepted_def delivered_def)

lemma sys_inv_bound:
  assumes "sys_inv s"
  shows "length (delivered s) \<le> length (accepted s)" and "length (accepted s) \<le> length (delivered s) + bound"
proof -
  obtain ts hs w r where mi: "mem_inv cap bound enc (accepted s) (length (delivered s)) ts hs w r (mem s)"
    using assms by (auto simp: sys_inv_def)
  show "length (delivered s) \<le> length (accepted s)" and "length (accepted s) \<le> length (delivered s) + bound"
    using mem_inv_order(1-4) [OF mi] by linarith+
qed

lemma sys_inv_produce:
  assumes valid and inv: "sys_inv s"
  shows "\<exists>p M res. P k v (producer s) (mem s) = Some (p, M, res) \<and>
           sys_inv (s\<lparr>mem := M, producer := p, pushes := record_result res (pushes s)\<rparr>)"
proof -
  obtain ts hs w r where mi: "mem_inv cap bound enc (accepted s) (length (delivered s)) ts hs w r (mem s)"
    and pok: "p_ok (producer s) (length (accepted s)) ts w" and cok: "c_ok (consumer s) (length (delivered s)) hs r"
    and del: "delivered s = take (length (delivered s)) (accepted s)"
    using inv by (auto simp: sys_inv_def)
  obtain p M res ts' w' where step: "P k v (producer s) (mem s) = Some (p, M, res)"
    and post: "let acc' = accepted s @ (case res of Some (x, True) \<Rightarrow> [x] | _ \<Rightarrow> [])
         in mem_inv cap bound enc acc' (length (delivered s)) ts' hs w' r M \<and> p_ok p (length acc') ts' w'"
    using P_step [OF assms(1) mi pok, of k v] by blast
  let ?s = "s\<lparr>mem := M, producer := p, pushes := record_result res (pushes s)\<rparr>"
  have acc: "accepted ?s = accepted s @ (case res of Some (x, True) \<Rightarrow> [x] | _ \<Rightarrow> [])"
    by (auto simp: accepted_def record_result_def split: option.splits bool.splits)
  have dl: "delivered ?s = delivered s" by (simp add: delivered_def)
  have "length (delivered s) \<le> length (accepted s)" using sys_inv_bound(1) [OF inv] .
  then have "delivered ?s = take (length (delivered ?s)) (accepted ?s)" using del by (simp add: acc dl)
  then show ?thesis using step post cok by (auto simp: sys_inv_def acc dl Let_def)
qed

lemma sys_inv_consume:
  assumes valid and inv: "sys_inv s"
  shows "\<exists>c M res. C k out (consumer s) (mem s) = Some (c, M, res) \<and>
           sys_inv (s\<lparr>mem := M, consumer := c, pops := record_result res (pops s)\<rparr>)"
proof -
  obtain ts hs w r where mi: "mem_inv cap bound enc (accepted s) (length (delivered s)) ts hs w r (mem s)"
    and pok: "p_ok (producer s) (length (accepted s)) ts w" and cok: "c_ok (consumer s) (length (delivered s)) hs r"
    and del: "delivered s = take (length (delivered s)) (accepted s)"
    using inv by (auto simp: sys_inv_def)
  obtain c M res hs' r' m' where step: "C k out (consumer s) (mem s) = Some (c, M, res)"
    and mi': "mem_inv cap bound enc (accepted s) m' ts hs' w r' M" and cok': "c_ok c m' hs' r'"
    and m': "if \<exists>x. res = Some (x, True) then m' = Suc (length (delivered s)) \<and>
      res = Some (accepted s ! length (delivered s), True) else m' = length (delivered s)"
    using C_step [OF assms(1) mi cok, of k out] by blast
  let ?s = "s\<lparr>mem := M, consumer := c, pops := record_result res (pops s)\<rparr>"
  have acc: "accepted ?s = accepted s" by (simp add: accepted_def)
  have dl: "delivered ?s = delivered s @ (case res of Some (x, True) \<Rightarrow> [x] | _ \<Rightarrow> [])"
    by (auto simp: delivered_def record_result_def split: option.splits bool.splits)
  have "length (delivered ?s) = m' \<and> delivered ?s = take m' (accepted s)"
  proof (cases "\<exists>x. res = Some (x, True)")
    case True
    then have "m' \<le> length (accepted s)" using mem_inv_order(2,3) [OF mi'] by simp
    then have "take m' (accepted s) = delivered s @ [accepted s ! length (delivered s)]"
      using True m' del by (simp add: take_Suc_conv_app_nth)
    moreover have "delivered ?s = delivered s @ [accepted s ! length (delivered s)]" using True m' dl by auto
    ultimately show ?thesis using True m' by simp
  next
    case False
    then have "delivered ?s = delivered s" by (auto simp: dl split: option.splits bool.splits)
    then show ?thesis using False m' del by simp
  qed
  then have "length (delivered ?s) = m'" and del': "delivered ?s = take (length (delivered ?s)) (accepted ?s)"
    using acc by metis+
  then have "mem_inv cap bound enc (accepted ?s) (length (delivered ?s)) ts hs' w r' (mem ?s) \<and>
      p_ok (producer ?s) (length (accepted ?s)) ts w \<and> c_ok (consumer ?s) (length (delivered ?s)) hs' r'"
    using mi' pok cok' acc by simp
  then have "sys_inv ?s" unfolding sys_inv_def using del' by blast
  then show ?thesis using step by blast
qed

theorem reachable_inv:
  assumes valid and "reachable P C (system_init M0 p0 c0) s"
  shows "sys_inv s"
  using assms(2)
proof (induction rule: reachable.induct)
  case initial
  then show ?case using sys_inv_init [OF assms(1)] .
next
  case (produce s k v p M r)
  then show ?case using sys_inv_produce [OF assms(1) produce.IH, of k v] by auto
next
  case (consume s k out c M r)
  then show ?case using sys_inv_consume [OF assms(1) consume.IH, of k out] by auto
qed

lemma reachable_safe:
  assumes valid and "reachable P C (system_init M0 p0 c0) s"
  shows "P k v (producer s) (mem s) \<noteq> None \<and> C k v (consumer s) (mem s) \<noteq> None \<and>
         (\<exists>rest. accepted s = delivered s @ rest \<and> length rest \<le> bound)"
proof -
  have inv: "sys_inv s" using assms by (rule reachable_inv)
  have "delivered s = take (length (delivered s)) (accepted s)" using inv by (simp add: sys_inv_def)
  then have "accepted s = delivered s @ drop (length (delivered s)) (accepted s)" by (metis append_take_drop_id)
  moreover have "length (drop (length (delivered s)) (accepted s)) \<le> bound" using sys_inv_bound [OF inv] by simp
  ultimately show ?thesis
    using sys_inv_produce [OF assms(1) inv, of k v] sys_inv_consume [OF assms(1) inv, of k v] by auto
qed

text \<open>Every schedule can be executed, to a reachable state.\<close>

lemma schedule_safe:
  assumes valid
  shows "\<exists>s. run_schedule P C (system_init M0 p0 c0) xs = Some s \<and> reachable P C (system_init M0 p0 c0) s"
proof -
  have "sys_inv s \<Longrightarrow> run_schedule P C s xs \<noteq> None" for s
  proof (induction xs arbitrary: s)
    case (Cons x xs)
    obtain t k v where "x = (t, k, v)" by (cases x)
    then show ?case
      using sys_inv_produce [OF assms Cons.prems, of k v] sys_inv_consume [OF assms Cons.prems, of k v] Cons.IH
      by (cases t) fastforce+
  qed simp
  then show ?thesis using run_schedule_reachable [OF reachable.initial] sys_inv_init [OF assms] by blast
qed

end

text \<open>
  A program is wait-free if its own steps bring every call to its end: the rank of the local
  state falls with each step that does not return, from at most \<open>L\<close>.
\<close>

locale wait_free_spsc = spsc_protocol +
  fixes L :: nat and p_rank :: "'b \<Rightarrow> nat" and c_rank :: "'c \<Rightarrow> nat"
  assumes rank_init: "p_rank p0 = L" "c_rank c0 = L"
    and p_rank_pos: "0 < p_rank p" and c_rank_pos: "0 < c_rank c"
    and P_rank: "P k v p M = Some (p', M', res) \<Longrightarrow> if res = None then p_rank p' < p_rank p else p_rank p' = L"
    and C_rank: "C k v c M = Some (c', M', res) \<Longrightarrow> if res = None then c_rank c' < c_rank c else c_rank c' = L"
begin

text \<open>The steps of a thread are paid for by its finished calls and the progress of the current one.\<close>

lemma rank_potential:
  "run_schedule P C s xs = Some s' \<Longrightarrow>
     steps_of Producer xs + L * length (pushes s) + p_rank (producer s') \<le> L * length (pushes s') + p_rank (producer s) \<and>
     steps_of Consumer xs + L * length (pops s) + c_rank (consumer s') \<le> L * length (pops s') + c_rank (consumer s)"
proof (induction xs arbitrary: s)
  case Nil
  then show ?case by (simp add: steps_of_def)
next
  case (Cons x xs)
  obtain t k v where x: "x = (t, k, v)" by (cases x)
  show ?case
  proof (cases t)
    case Producer
    then obtain p M res where step: "P k v (producer s) (mem s) = Some (p, M, res)"
      and run: "run_schedule P C (s\<lparr>mem := M, producer := p, pushes := record_result res (pushes s)\<rparr>) xs = Some s'"
      using Cons.prems x by (auto split: bind_splits)
    have "Suc (L * length (pushes s) + p_rank p) \<le> L * length (record_result res (pushes s)) + p_rank (producer s)"
      using P_rank [OF step] p_rank_pos [of "producer s"] by (auto simp: record_result_def split: option.splits if_splits)
    then show ?thesis using Cons.IH [OF run] x Producer by (simp add: steps_of_def)
  next
    case Consumer
    then obtain c M res where step: "C k v (consumer s) (mem s) = Some (c, M, res)"
      and run: "run_schedule P C (s\<lparr>mem := M, consumer := c, pops := record_result res (pops s)\<rparr>) xs = Some s'"
      using Cons.prems x by (auto split: bind_splits)
    have "Suc (L * length (pops s) + c_rank c) \<le> L * length (record_result res (pops s)) + c_rank (consumer s)"
      using C_rank [OF step] c_rank_pos [of "consumer s"] by (auto simp: record_result_def split: option.splits if_splits)
    then show ?thesis using Cons.IH [OF run] x Consumer by (simp add: steps_of_def)
  qed
qed

lemma wait_free:
  assumes valid
  shows "\<exists>s. run_schedule P C (system_init M0 p0 c0) xs = Some s \<and>
     steps_of Producer xs div L \<le> length (pushes s) \<and> steps_of Consumer xs div L \<le> length (pops s)"
proof -
  obtain s where run: "run_schedule P C (system_init M0 p0 c0) xs = Some s" using schedule_safe [OF assms] by blast
  have "steps_of Producer xs < Suc (length (pushes s)) * L" "steps_of Consumer xs < Suc (length (pops s)) * L"
    using rank_potential [OF run] p_rank_pos [of "producer s"] c_rank_pos [of "consumer s"] rank_init
    by (auto simp: system_init_def mult.commute)
  then have "steps_of Producer xs div L \<le> length (pushes s)" "steps_of Consumer xs div L \<le> length (pops s)"
    by (meson less_Suc_eq_le less_mult_imp_div_less)+
  then show ?thesis using run by blast
qed

end

end
