(* ===== verification/Spsc_Concurrent.thy ===== *)
theory Spsc_Concurrent
  imports Memory_Model
begin

text \<open>
  The lock-free variants of \<^verbatim>\<open>spsc_ring_buffer.hpp\<close> as thread programs on the shared memory, with
  the memory orders of the source, one memory access per step. The producer program is
  \<^verbatim>\<open>push\<close>, the consumer program \<^verbatim>\<open>pop\<close>; members that only one thread touches (the caches of the
  third variant, the local counters of the fourth) are part of its local state. For each
  variant: no execution has a data race or leaves the array, and what is popped is what was pushed, in order.
\<close>

section \<open>The thread programs\<close>

text \<open>The point a call has reached, with its local variables.\<close>

datatype 'a push_pc = PushIdle | PushLoadTail 'a size_t size_t | PushWrite 'a size_t size_t | PushStore 'a size_t

datatype 'a pop_pc = PopIdle | PopLoadHead 'a size_t | PopRead size_t | PopStore 'a size_t

text \<open>
  The first two variants differ in the memory orders of the load of the own index, of the load of
  the other side's index and of the store only.
\<close>

fun index_producer :: "memory_order \<Rightarrow> memory_order \<Rightarrow> memory_order \<Rightarrow> size_t \<Rightarrow> ('a, 'a push_pc) program" where
  "index_producer own their st Capacity k value PushIdle M =
     (let (h, M) = load own Producer Head k M; next = increment Capacity h
      in Some (PushLoadTail value h next, M, None))"
| "index_producer own their st Capacity k _ (PushLoadTail value h next) M =
     (let (t, M) = load their Producer Tail k M
      in if next = t then Some (PushIdle, M, Some (value, False))
         else Some (PushWrite value h next, M, None))"
| "index_producer own their st Capacity k _ (PushWrite value h next) M = do {
     M \<leftarrow> cell_write Producer (unat h) value M;
     Some (PushStore value next, M, None)
   }"
| "index_producer own their st Capacity k _ (PushStore value next) M =
     Some (PushIdle, store st Producer Head next M, Some (value, True))"

fun index_consumer :: "memory_order \<Rightarrow> memory_order \<Rightarrow> memory_order \<Rightarrow> size_t \<Rightarrow> ('a, 'a pop_pc) program" where
  "index_consumer own their st Capacity k out PopIdle M =
     (let (t, M) = load own Consumer Tail k M
      in Some (PopLoadHead out t, M, None))"
| "index_consumer own their st Capacity k _ (PopLoadHead out t) M =
     (let (h, M) = load their Consumer Head k M
      in if t = h then Some (PopIdle, M, Some (out, False))
         else Some (PopRead t, M, None))"
| "index_consumer own their st Capacity k _ (PopRead t) M = do {
     (out, M) \<leftarrow> cell_read Consumer (unat t) M;
     Some (PopStore out t, M, None)
   }"
| "index_consumer own their st Capacity k _ (PopStore out t) M =
     Some (PopIdle, store st Consumer Tail (increment Capacity t) M, Some (out, True))"

definition v1_producer :: "size_t \<Rightarrow> ('a, 'a push_pc) program" where
  "v1_producer = index_producer memory_order_seq_cst memory_order_seq_cst memory_order_seq_cst"

definition v1_consumer :: "size_t \<Rightarrow> ('a, 'a pop_pc) program" where
  "v1_consumer = index_consumer memory_order_seq_cst memory_order_seq_cst memory_order_seq_cst"

definition v2_producer :: "size_t \<Rightarrow> ('a, 'a push_pc) program" where
  "v2_producer = index_producer memory_order_relaxed memory_order_acquire memory_order_release"

definition v2_consumer :: "size_t \<Rightarrow> ('a, 'a pop_pc) program" where
  "v2_consumer = index_consumer memory_order_relaxed memory_order_acquire memory_order_release"

text \<open>The third variant, with \<^verbatim>\<open>producer_tail_cache_\<close> and \<^verbatim>\<open>consumer_head_cache_\<close>.\<close>

fun v3_producer :: "size_t \<Rightarrow> ('a, 'a push_pc \<times> size_t) program" where
  "v3_producer Capacity k value (PushIdle, cache) M =
     (let (h, M) = load memory_order_relaxed Producer Head k M; next = increment Capacity h
      in if next = cache then Some ((PushLoadTail value h next, cache), M, None)
         else Some ((PushWrite value h next, cache), M, None))"
| "v3_producer Capacity k _ (PushLoadTail value h next, _) M =
     (let (cache, M) = load memory_order_acquire Producer Tail k M
      in if next = cache then Some ((PushIdle, cache), M, Some (value, False))
         else Some ((PushWrite value h next, cache), M, None))"
| "v3_producer Capacity k _ (PushWrite value h next, cache) M = do {
     M \<leftarrow> cell_write Producer (unat h) value M;
     Some ((PushStore value next, cache), M, None)
   }"
| "v3_producer Capacity k _ (PushStore value next, cache) M =
     Some ((PushIdle, cache), store memory_order_release Producer Head next M, Some (value, True))"

fun v3_consumer :: "size_t \<Rightarrow> ('a, 'a pop_pc \<times> size_t) program" where
  "v3_consumer Capacity k out (PopIdle, cache) M =
     (let (t, M) = load memory_order_relaxed Consumer Tail k M
      in if t = cache then Some ((PopLoadHead out t, cache), M, None)
         else Some ((PopRead t, cache), M, None))"
| "v3_consumer Capacity k _ (PopLoadHead out t, _) M =
     (let (cache, M) = load memory_order_acquire Consumer Head k M
      in if t = cache then Some ((PopIdle, cache), M, Some (out, False))
         else Some ((PopRead t, cache), M, None))"
| "v3_consumer Capacity k _ (PopRead t, cache) M = do {
     (out, M) \<leftarrow> cell_read Consumer (unat t) M;
     Some ((PopStore out t, cache), M, None)
   }"
| "v3_consumer Capacity k _ (PopStore out t, cache) M =
     Some ((PopIdle, cache), store memory_order_release Consumer Tail (increment Capacity t) M, Some (out, True))"

text \<open>
  The fourth variant, with \<^verbatim>\<open>producer_head_\<close>, \<^verbatim>\<open>producer_tail_\<close>, \<^verbatim>\<open>consumer_head_\<close> and
  \<^verbatim>\<open>consumer_tail_\<close>. Without a reload its first access is the one to the cell.
\<close>

datatype 'a v4_push_pc = V4PushIdle | V4PushWrite 'a | V4PushStore 'a

datatype 'a v4_pop_pc = V4PopIdle | V4PopRead | V4PopStore 'a

definition v4_write ::
  "size_t \<Rightarrow> 'a \<Rightarrow> size_t \<Rightarrow> size_t \<Rightarrow> 'a memory \<Rightarrow> (('a v4_push_pc \<times> size_t \<times> size_t) \<times> 'a memory \<times> ('a \<times> bool) option) option" where
  "v4_write Capacity value phead ptail M = do {
     M \<leftarrow> cell_write Producer (unat (idx_of Capacity phead)) value M;
     Some ((V4PushStore value, phead + 1, ptail), M, None)
   }"

fun v4_producer :: "size_t \<Rightarrow> ('a, 'a v4_push_pc \<times> size_t \<times> size_t) program" where
  "v4_producer Capacity k value (V4PushIdle, phead, ptail) M =
     (if phead - ptail = Capacity
      then (let (ptail, M) = load memory_order_acquire Producer Tail k M
            in if phead - ptail = Capacity then Some ((V4PushIdle, phead, ptail), M, Some (value, False))
               else Some ((V4PushWrite value, phead, ptail), M, None))
      else v4_write Capacity value phead ptail M)"
| "v4_producer Capacity k _ (V4PushWrite value, phead, ptail) M = v4_write Capacity value phead ptail M"
| "v4_producer Capacity k _ (V4PushStore value, phead, ptail) M =
     Some ((V4PushIdle, phead, ptail), store memory_order_release Producer Head phead M, Some (value, True))"

definition v4_read ::
  "size_t \<Rightarrow> size_t \<Rightarrow> size_t \<Rightarrow> 'a memory \<Rightarrow> (('a v4_pop_pc \<times> size_t \<times> size_t) \<times> 'a memory \<times> ('a \<times> bool) option) option" where
  "v4_read Capacity chead ctail M = do {
     (out, M) \<leftarrow> cell_read Consumer (unat (idx_of Capacity ctail)) M;
     Some ((V4PopStore out, chead, ctail + 1), M, None)
   }"

fun v4_consumer :: "size_t \<Rightarrow> ('a, 'a v4_pop_pc \<times> size_t \<times> size_t) program" where
  "v4_consumer Capacity k out (V4PopIdle, chead, ctail) M =
     (if chead = ctail
      then (let (chead, M) = load memory_order_acquire Consumer Head k M
            in if chead = ctail then Some ((V4PopIdle, chead, ctail), M, Some (out, False))
               else Some ((V4PopRead, chead, ctail), M, None))
      else v4_read Capacity chead ctail M)"
| "v4_consumer Capacity k _ (V4PopRead, chead, ctail) M = v4_read Capacity chead ctail M"
| "v4_consumer Capacity k _ (V4PopStore out, chead, ctail) M =
     Some ((V4PopIdle, chead, ctail), store memory_order_release Consumer Tail ctail M, Some (out, True))"

section \<open>Counters and their representation\<close>

text \<open>The first three variants store a counter modulo the capacity, the fourth at 64 bits.\<close>

definition slot_index :: "size_t \<Rightarrow> nat \<Rightarrow> size_t" where
  "slot_index Capacity k = of_nat (k mod unat Capacity)"

lemma unat_slot_index:
  assumes "ring_static_assert Capacity"
  shows "unat (slot_index Capacity k) = k mod unat Capacity"
proof -
  have "2 \<le> unat Capacity" using assms by (elim ring_static_assertE)
  then have "k mod unat Capacity < unat Capacity" by (intro mod_less_divisor) linarith
  also have "unat Capacity < 2 ^ 64" using unsigned_less [of Capacity, where ?'a = nat] by simp
  finally have "k mod unat Capacity mod 2 ^ 64 = k mod unat Capacity" by simp
  then show ?thesis by (simp add: slot_index_def unat_of_nat)
qed

lemma increment_slot_index:
  "ring_static_assert Capacity \<Longrightarrow> increment Capacity (slot_index Capacity k) = slot_index Capacity (Suc k)"
  by (simp add: word_unat_eq_iff unat_increment unat_slot_index mod_Suc_eq)

lemma slot_index_0 [simp]: "slot_index Capacity 0 = 0"
  by (simp add: slot_index_def)

text \<open>Full and empty are told apart by one free cell.\<close>

lemma slot_index_full:
  assumes sa: "ring_static_assert Capacity" and "i \<le> n" and "n \<le> i + (unat Capacity - 1)"
  shows "slot_index Capacity (Suc n) = slot_index Capacity i \<longleftrightarrow> n = i + (unat Capacity - 1)"
proof -
  have c: "2 \<le> unat Capacity" using sa by (elim ring_static_assertE)
  have "Suc n mod unat Capacity = i mod unat Capacity \<longleftrightarrow> n = i + (unat Capacity - 1)"
  proof
    assume eq: "Suc n mod unat Capacity = i mod unat Capacity"
    show "n = i + (unat Capacity - 1)"
    proof (rule ccontr)
      assume "n \<noteq> i + (unat Capacity - 1)"
      then have "Suc n < i + unat Capacity" using assms c by linarith
      then show False using assms eq mod_distinct_lap [of i "Suc n" "unat Capacity"] by simp
    qed
  next
    assume "n = i + (unat Capacity - 1)"
    then have "Suc n = i + unat Capacity" using c by simp
    then show "Suc n mod unat Capacity = i mod unat Capacity" by simp
  qed
  then show ?thesis using sa by (simp add: word_unat_eq_iff unat_slot_index)
qed

lemma slot_index_empty:
  assumes sa: "ring_static_assert Capacity" and "m \<le> i" and "i \<le> m + (unat Capacity - 1)"
  shows "slot_index Capacity m = slot_index Capacity i \<longleftrightarrow> m = i"
proof -
  have "2 \<le> unat Capacity" using sa by (elim ring_static_assertE)
  then have "m mod unat Capacity = i mod unat Capacity \<longleftrightarrow> m = i"
    using assms mod_distinct_lap [of m i "unat Capacity"] by (cases "m = i") auto
  then show ?thesis using sa by (simp add: word_unat_eq_iff unat_slot_index)
qed

section \<open>The index variants follow the protocol\<close>

text \<open>What the local state of a call says about the counters.\<close>

fun push_ok :: "size_t \<Rightarrow> 'a push_pc \<Rightarrow> nat \<Rightarrow> nat \<Rightarrow> 'a option \<Rightarrow> bool" where
  "push_ok Capacity PushIdle n ts w \<longleftrightarrow> w = None"
| "push_ok Capacity (PushLoadTail v h next) n ts w \<longleftrightarrow>
     w = None \<and> h = slot_index Capacity n \<and> next = slot_index Capacity (Suc n)"
| "push_ok Capacity (PushWrite v h next) n ts w \<longleftrightarrow>
     w = None \<and> h = slot_index Capacity n \<and> next = slot_index Capacity (Suc n) \<and> n < ts + (unat Capacity - 1)"
| "push_ok Capacity (PushStore v next) n ts w \<longleftrightarrow> w = Some v \<and> next = slot_index Capacity (Suc n)"

fun pop_ok :: "size_t \<Rightarrow> 'a pop_pc \<Rightarrow> nat \<Rightarrow> nat \<Rightarrow> 'a option \<Rightarrow> bool" where
  "pop_ok Capacity PopIdle m hs r \<longleftrightarrow> r = None"
| "pop_ok Capacity (PopLoadHead out t) m hs r \<longleftrightarrow> r = None \<and> t = slot_index Capacity m"
| "pop_ok Capacity (PopRead t) m hs r \<longleftrightarrow> r = None \<and> t = slot_index Capacity m \<and> m < hs"
| "pop_ok Capacity (PopStore out t) m hs r \<longleftrightarrow> r = Some out \<and> t = slot_index Capacity m"

text \<open>The accesses of the index variants, in terms of the invariant.\<close>

abbreviation index_mem_inv ::
  "size_t \<Rightarrow> 'a list \<Rightarrow> nat \<Rightarrow> nat \<Rightarrow> nat \<Rightarrow> 'a option \<Rightarrow> 'a option \<Rightarrow> 'a memory \<Rightarrow> bool" where
  "index_mem_inv Capacity \<equiv> mem_inv (unat Capacity) (unat Capacity - 1) (slot_index Capacity)"

lemma index_check_tail:
  assumes sa: "ring_static_assert Capacity" and inv: "index_mem_inv Capacity acc m ts hs None r M"
    and acq: "acquires ord"
  obtains i M' where "load ord Producer Tail k M = (slot_index Capacity i, M')"
    and "ord = memory_order_seq_cst \<or> m \<le> k \<Longrightarrow> i = m"
    and "index_mem_inv Capacity acc m i hs None r M'"
    and "slot_index Capacity (Suc (length acc)) \<noteq> slot_index Capacity i \<Longrightarrow> length acc < i + (unat Capacity - 1)"
    and "slot_index Capacity (Suc (length acc)) = slot_index Capacity i \<Longrightarrow> length acc = i + (unat Capacity - 1)"
proof -
  obtain i M' where ld: "load ord Producer Tail k M = (slot_index Capacity i, M')"
    and le: "ts \<le> i" "i \<le> m" and sc: "ord = memory_order_seq_cst \<or> m \<le> k \<Longrightarrow> i = m"
    and mi: "index_mem_inv Capacity acc m i hs None r M'"
    using load_tail_producer [OF inv acq, of k] by blast
  have o: "i \<le> length acc" "length acc \<le> i + (unat Capacity - 1)" using mem_inv_order(1-4) [OF mi] by auto
  show thesis by (rule that [OF ld sc mi]) (use slot_index_full [OF sa o] o in auto)
qed

lemma index_check_head:
  assumes sa: "ring_static_assert Capacity" and inv: "index_mem_inv Capacity acc m ts hs w None M"
    and acq: "acquires ord"
  obtains i M' where "load ord Consumer Head k M = (slot_index Capacity i, M')"
    and "ord = memory_order_seq_cst \<or> length acc \<le> k \<Longrightarrow> i = length acc"
    and "index_mem_inv Capacity acc m ts i w None M'"
    and "slot_index Capacity m \<noteq> slot_index Capacity i \<Longrightarrow> m < i"
    and "slot_index Capacity m = slot_index Capacity i \<Longrightarrow> m = i"
proof -
  obtain i M' where ld: "load ord Consumer Head k M = (slot_index Capacity i, M')"
    and sc: "ord = memory_order_seq_cst \<or> length acc \<le> k \<Longrightarrow> i = length acc"
    and mi: "index_mem_inv Capacity acc m ts i w None M'"
    using load_head_consumer [OF inv acq, of k] by blast
  have o: "m \<le> i" "i \<le> m + (unat Capacity - 1)" using mem_inv_order(1-4) [OF mi] by auto
  show thesis by (rule that [OF ld sc mi]) (use slot_index_empty [OF sa o] o in auto)
qed

lemma index_write:
  assumes sa: "ring_static_assert Capacity" and inv: "index_mem_inv Capacity acc m ts hs None r M"
    and room: "length acc < ts + (unat Capacity - 1)"
  obtains M' where "cell_write Producer (unat (slot_index Capacity (length acc))) x M = Some M'"
    and "index_mem_inv Capacity acc m ts hs (Some x) r M'"
  using write_cell_producer [OF inv room, of x] by (auto simp: unat_slot_index [OF sa])

lemma index_read:
  assumes sa: "ring_static_assert Capacity" and inv: "index_mem_inv Capacity acc m ts hs w None M" and some: "m < hs"
  obtains M' where "cell_read Consumer (unat (slot_index Capacity m)) M = Some (acc ! m, M')"
    and "index_mem_inv Capacity acc m ts hs w (Some (acc ! m)) M'"
  using read_cell_consumer [OF inv some] by (auto simp: unat_slot_index [OF sa])

lemma index_producer_step:
  assumes sa: "ring_static_assert Capacity" and acq: "acquires their" and rel: "releases st"
    and inv: "index_mem_inv Capacity acc m ts hs w r M" and pok: "push_ok Capacity p (length acc) ts w"
  shows "\<exists>p' M' res ts' w'. index_producer own their st Capacity k v p M = Some (p', M', res) \<and>
           (let acc' = acc @ (case res of Some (x, True) \<Rightarrow> [x] | _ \<Rightarrow> [])
            in index_mem_inv Capacity acc' m ts' hs w' r M' \<and> push_ok Capacity p' (length acc') ts' w')"
proof (cases p)
  case PushIdle
  obtain M' where "load own Producer Head k M = (slot_index Capacity (length acc), M')"
    and "index_mem_inv Capacity acc m ts hs w r M'" using inv by (rule load_own_producer)
  then show ?thesis using PushIdle pok by (auto simp: increment_slot_index [OF sa])
next
  case (PushLoadTail x h nx)
  then have "w = None" using pok by simp
  from index_check_tail [OF sa inv [unfolded this] acq, of k] obtain i M'
    where "load their Producer Tail k M = (slot_index Capacity i, M')" "index_mem_inv Capacity acc m i hs None r M'"
      "slot_index Capacity (Suc (length acc)) \<noteq> slot_index Capacity i \<Longrightarrow> length acc < i + (unat Capacity - 1)"
    by blast
  then show ?thesis using PushLoadTail pok by (cases "nx = slot_index Capacity i") auto
next
  case (PushWrite x h nx)
  then have w: "w = None" and room: "length acc < ts + (unat Capacity - 1)" using pok by auto
  obtain M' where "cell_write Producer (unat (slot_index Capacity (length acc))) x M = Some M'"
    and "index_mem_inv Capacity acc m ts hs (Some x) r M'" using index_write [OF sa inv [unfolded w] room] by blast
  then show ?thesis using PushWrite pok by auto
next
  case (PushStore x nx)
  then have w: "w = Some x" using pok by simp
  show ?thesis using store_head_producer [OF inv [unfolded w] rel] PushStore pok by auto
qed

lemma index_consumer_step:
  assumes sa: "ring_static_assert Capacity" and acq: "acquires their" and rel: "releases st"
    and inv: "index_mem_inv Capacity acc m ts hs w r M" and cok: "pop_ok Capacity c m hs r"
  shows "\<exists>c' M' res hs' r' m'. index_consumer own their st Capacity k out c M = Some (c', M', res) \<and>
           index_mem_inv Capacity acc m' ts hs' w r' M' \<and> pop_ok Capacity c' m' hs' r' \<and>
           (if \<exists>x. res = Some (x, True) then m' = Suc m \<and> res = Some (acc ! m, True) else m' = m)"
proof (cases c)
  case PopIdle
  obtain M' where "load own Consumer Tail k M = (slot_index Capacity m, M')"
    and "index_mem_inv Capacity acc m ts hs w r M'" using inv by (rule load_own_consumer)
  then show ?thesis using PopIdle cok by auto
next
  case (PopLoadHead x t)
  then have "r = None" using cok by simp
  from index_check_head [OF sa inv [unfolded this] acq, of k] obtain i M'
    where "load their Consumer Head k M = (slot_index Capacity i, M')" "index_mem_inv Capacity acc m ts i w None M'"
      "slot_index Capacity m \<noteq> slot_index Capacity i \<Longrightarrow> m < i"
    by blast
  then show ?thesis using PopLoadHead cok by (cases "t = slot_index Capacity i") auto
next
  case (PopRead t)
  then have r: "r = None" and some: "m < hs" using cok by auto
  obtain M' where "cell_read Consumer (unat (slot_index Capacity m)) M = Some (acc ! m, M')"
    and "index_mem_inv Capacity acc m ts hs w (Some (acc ! m)) M'" using index_read [OF sa inv [unfolded r] some] by blast
  then show ?thesis using PopRead cok by auto
next
  case (PopStore x t)
  then have r: "r = Some x" and t: "t = slot_index Capacity m" using cok by auto
  show ?thesis
    using store_tail_consumer [OF inv [unfolded r] rel] PopStore t increment_slot_index [OF sa, of m] by auto
qed

fun push_rank :: "'a push_pc \<Rightarrow> nat" where
  "push_rank PushIdle = 4"
| "push_rank (PushLoadTail _ _ _) = 3"
| "push_rank (PushWrite _ _ _) = 2"
| "push_rank (PushStore _ _) = 1"

fun pop_rank :: "'a pop_pc \<Rightarrow> nat" where
  "pop_rank PopIdle = 4"
| "pop_rank (PopLoadHead _ _) = 3"
| "pop_rank (PopRead _) = 2"
| "pop_rank (PopStore _ _) = 1"

lemma index_ranks:
  "0 < push_rank p" "0 < pop_rank c"
  "index_producer own their st Capacity k v p M = Some (p', M', res) \<Longrightarrow>
     if res = None then push_rank p' < push_rank p else push_rank p' = 4"
  "index_consumer own their st Capacity k out c M = Some (c', M', res) \<Longrightarrow>
     if res = None then pop_rank c' < pop_rank c else pop_rank c' = 4"
  by (cases p; cases c; auto simp: Let_def split: prod.splits if_splits bind_splits)+

lemma index_mem_inv_init: "ring_static_assert Capacity \<Longrightarrow> index_mem_inv Capacity [] 0 0 0 None None (memory_init Capacity)"
  by (rule mem_inv_init) (auto elim: ring_static_assertE)

lemma orders_sync [simp]:
  "acquires memory_order_acquire" "acquires memory_order_seq_cst"
  "releases memory_order_release" "releases memory_order_seq_cst"
  by (simp_all add: acquires_def releases_def)

interpretation v1_protocol: wait_free_spsc "unat Capacity" "unat Capacity - 1" "slot_index Capacity"
    "v1_producer Capacity" "v1_consumer Capacity" "memory_init Capacity" PushIdle PopIdle
    "push_ok Capacity" "pop_ok Capacity" "ring_static_assert Capacity" 4 push_rank pop_rank for Capacity
proof (unfold_locales, goal_cases)
  case 1
  then show ?case using index_mem_inv_init by auto
next
  case 2
  then show ?case unfolding v1_producer_def by (intro index_producer_step) auto
next
  case 3
  then show ?case unfolding v1_consumer_def by (intro index_consumer_step) auto
next
  case 8
  then show ?case unfolding v1_producer_def by (rule index_ranks)
next
  case 9
  then show ?case unfolding v1_consumer_def by (rule index_ranks)
qed (simp_all add: index_ranks)

interpretation v2_protocol: wait_free_spsc "unat Capacity" "unat Capacity - 1" "slot_index Capacity"
    "v2_producer Capacity" "v2_consumer Capacity" "memory_init Capacity" PushIdle PopIdle
    "push_ok Capacity" "pop_ok Capacity" "ring_static_assert Capacity" 4 push_rank pop_rank for Capacity
proof (unfold_locales, goal_cases)
  case 1
  then show ?case using index_mem_inv_init by auto
next
  case 2
  then show ?case unfolding v2_producer_def by (intro index_producer_step) auto
next
  case 3
  then show ?case unfolding v2_consumer_def by (intro index_consumer_step) auto
next
  case 8
  then show ?case unfolding v2_producer_def by (rule index_ranks)
next
  case 9
  then show ?case unfolding v2_consumer_def by (rule index_ranks)
qed (simp_all add: index_ranks)

text \<open>
  A refused call has seen the true index of the other side, if its load reads the newest store: because it is
  sequentially consistent, or because \<open>k\<close> is large enough.
\<close>

lemma index_push_refused:
  assumes sa: "ring_static_assert Capacity" and acq: "acquires their" and newest: "their = memory_order_seq_cst \<or> m \<le> k"
    and inv: "index_mem_inv Capacity acc m ts hs w r M" and pok: "push_ok Capacity p (length acc) ts w"
    and res: "index_producer own their st Capacity k v p M = Some (p', M', Some (x, False))"
  shows "length acc = m + (unat Capacity - 1)"
proof -
  obtain y h nx where p: "p = PushLoadTail y h nx"
    using res by (cases p) (auto simp: Let_def split: prod.splits bind_splits)
  then have w: "w = None" and nx: "nx = slot_index Capacity (Suc (length acc))" using pok by auto
  obtain i M2 where "load their Producer Tail k M = (slot_index Capacity i, M2)" and "i = m"
    and "slot_index Capacity (Suc (length acc)) = slot_index Capacity i \<Longrightarrow> length acc = i + (unat Capacity - 1)"
    using index_check_tail [OF sa inv [unfolded w] acq, of k] newest by metis
  then show ?thesis using res p nx by (auto split: if_splits)
qed

lemma index_pop_refused:
  assumes sa: "ring_static_assert Capacity" and acq: "acquires their"
    and newest: "their = memory_order_seq_cst \<or> length acc \<le> k"
    and inv: "index_mem_inv Capacity acc m ts hs w r M" and cok: "pop_ok Capacity c m hs r"
    and res: "index_consumer own their st Capacity k out c M = Some (c', M', Some (x, False))"
  shows "m = length acc"
proof -
  obtain y t where c: "c = PopLoadHead y t"
    using res by (cases c) (auto simp: Let_def split: prod.splits bind_splits)
  then have r: "r = None" and t: "t = slot_index Capacity m" using cok by auto
  obtain i M2 where "load their Consumer Head k M = (slot_index Capacity i, M2)" and "i = length acc"
    and "slot_index Capacity m = slot_index Capacity i \<Longrightarrow> m = i"
    using index_check_head [OF sa inv [unfolded r] acq, of k] newest by metis
  then show ?thesis using res c t by (auto split: if_splits)
qed

lemmas v1_push_refused = index_push_refused [where own = memory_order_seq_cst and their = memory_order_seq_cst
    and st = memory_order_seq_cst, folded v1_producer_def, OF _ orders_sync(2) disjI1 [OF refl]]

lemmas v1_pop_refused = index_pop_refused [where own = memory_order_seq_cst and their = memory_order_seq_cst
    and st = memory_order_seq_cst, folded v1_consumer_def, OF _ orders_sync(2) disjI1 [OF refl]]

section \<open>The cached indices\<close>

text \<open>A cache holds the last index that was loaded, so it is the newest one the thread knows.\<close>

definition v3_push_ok :: "size_t \<Rightarrow> 'a push_pc \<times> size_t \<Rightarrow> nat \<Rightarrow> nat \<Rightarrow> 'a option \<Rightarrow> bool" where
  "v3_push_ok Capacity p n ts w \<longleftrightarrow> snd p = slot_index Capacity ts \<and> push_ok Capacity (fst p) n ts w"

definition v3_pop_ok :: "size_t \<Rightarrow> 'a pop_pc \<times> size_t \<Rightarrow> nat \<Rightarrow> nat \<Rightarrow> 'a option \<Rightarrow> bool" where
  "v3_pop_ok Capacity c m hs r \<longleftrightarrow> snd c = slot_index Capacity hs \<and> pop_ok Capacity (fst c) m hs r"

lemma v3_producer_step:
  assumes sa: "ring_static_assert Capacity"
    and inv: "index_mem_inv Capacity acc m ts hs w r M" and pok: "v3_push_ok Capacity p (length acc) ts w"
  shows "\<exists>p' M' res ts' w'. v3_producer Capacity k v p M = Some (p', M', res) \<and>
           (let acc' = acc @ (case res of Some (x, True) \<Rightarrow> [x] | _ \<Rightarrow> [])
            in index_mem_inv Capacity acc' m ts' hs w' r M' \<and> v3_push_ok Capacity p' (length acc') ts' w')"
proof -
  obtain pc where p: "p = (pc, slot_index Capacity ts)" and ok: "push_ok Capacity pc (length acc) ts w"
    using pok by (cases p) (auto simp: v3_push_ok_def)
  have o: "ts \<le> length acc" "length acc \<le> ts + (unat Capacity - 1)" using mem_inv_order(1-4) [OF inv] by auto
  show ?thesis
  proof (cases pc)
    case PushIdle
    obtain M' where "load memory_order_relaxed Producer Head k M = (slot_index Capacity (length acc), M')"
      and "index_mem_inv Capacity acc m ts hs w r M'" using inv by (rule load_own_producer)
    moreover have "length acc < ts + (unat Capacity - 1)"
      if "slot_index Capacity (Suc (length acc)) \<noteq> slot_index Capacity ts"
      using that o slot_index_full [OF sa o] by linarith
    ultimately show ?thesis
      using PushIdle ok by (cases "slot_index Capacity (Suc (length acc)) = slot_index Capacity ts")
        (auto simp: p v3_push_ok_def increment_slot_index [OF sa] Let_def)
  next
    case (PushLoadTail x h nx)
    then have "w = None" using ok by simp
    from index_check_tail [OF sa inv [unfolded this] orders_sync(1), of k] obtain i M'
      where "load memory_order_acquire Producer Tail k M = (slot_index Capacity i, M')"
        "index_mem_inv Capacity acc m i hs None r M'"
        "slot_index Capacity (Suc (length acc)) \<noteq> slot_index Capacity i \<Longrightarrow> length acc < i + (unat Capacity - 1)"
      by blast
    then show ?thesis using PushLoadTail ok by (cases "nx = slot_index Capacity i") (auto simp: p v3_push_ok_def)
  next
    case (PushWrite x h nx)
    then have w: "w = None" and room: "length acc < ts + (unat Capacity - 1)" using ok by auto
    obtain M' where "cell_write Producer (unat (slot_index Capacity (length acc))) x M = Some M'"
      and "index_mem_inv Capacity acc m ts hs (Some x) r M'" using index_write [OF sa inv [unfolded w] room] by blast
    then show ?thesis using PushWrite ok by (auto simp: p v3_push_ok_def)
  next
    case (PushStore x nx)
    then have w: "w = Some x" using ok by simp
    show ?thesis
      using store_head_producer [OF inv [unfolded w], of memory_order_release] PushStore ok by (auto simp: p v3_push_ok_def)
  qed
qed

lemma v3_consumer_step:
  assumes sa: "ring_static_assert Capacity"
    and inv: "index_mem_inv Capacity acc m ts hs w r M" and cok: "v3_pop_ok Capacity c m hs r"
  shows "\<exists>c' M' res hs' r' m'. v3_consumer Capacity k out c M = Some (c', M', res) \<and>
           index_mem_inv Capacity acc m' ts hs' w r' M' \<and> v3_pop_ok Capacity c' m' hs' r' \<and>
           (if \<exists>x. res = Some (x, True) then m' = Suc m \<and> res = Some (acc ! m, True) else m' = m)"
proof -
  obtain pc where c: "c = (pc, slot_index Capacity hs)" and ok: "pop_ok Capacity pc m hs r"
    using cok by (cases c) (auto simp: v3_pop_ok_def)
  have o: "m \<le> hs" "hs \<le> m + (unat Capacity - 1)" using mem_inv_order(1-4) [OF inv] by auto
  show ?thesis
  proof (cases pc)
    case PopIdle
    obtain M' where "load memory_order_relaxed Consumer Tail k M = (slot_index Capacity m, M')"
      and "index_mem_inv Capacity acc m ts hs w r M'" using inv by (rule load_own_consumer)
    then show ?thesis using PopIdle ok o slot_index_empty [OF sa o] by (auto simp: c v3_pop_ok_def)
  next
    case (PopLoadHead x t)
    then have "r = None" using ok by simp
    from index_check_head [OF sa inv [unfolded this] orders_sync(1), of k] obtain i M'
      where "load memory_order_acquire Consumer Head k M = (slot_index Capacity i, M')"
        "index_mem_inv Capacity acc m ts i w None M'" "slot_index Capacity m \<noteq> slot_index Capacity i \<Longrightarrow> m < i"
      by blast
    then show ?thesis using PopLoadHead ok by (cases "t = slot_index Capacity i") (auto simp: c v3_pop_ok_def)
  next
    case (PopRead t)
    then have r: "r = None" and some: "m < hs" using ok by auto
    obtain M' where "cell_read Consumer (unat (slot_index Capacity m)) M = Some (acc ! m, M')"
      and "index_mem_inv Capacity acc m ts hs w (Some (acc ! m)) M'" using index_read [OF sa inv [unfolded r] some] by blast
    then show ?thesis using PopRead ok by (auto simp: c v3_pop_ok_def)
  next
    case (PopStore x t)
    then have r: "r = Some x" and t: "t = slot_index Capacity m" using ok by auto
    show ?thesis
      using store_tail_consumer [OF inv [unfolded r], of memory_order_release] PopStore t increment_slot_index [OF sa, of m]
      by (auto simp: c v3_pop_ok_def)
  qed
qed

lemma v3_ranks:
  "v3_producer Capacity k v p M = Some (p', M', res) \<Longrightarrow>
     if res = None then push_rank (fst p') < push_rank (fst p) else push_rank (fst p') = 4"
  "v3_consumer Capacity k out c M = Some (c', M', res) \<Longrightarrow>
     if res = None then pop_rank (fst c') < pop_rank (fst c) else pop_rank (fst c') = 4"
  by (cases p; cases "fst p"; auto simp: Let_def split: prod.splits if_splits bind_splits)
    (cases c; cases "fst c"; auto simp: Let_def split: prod.splits if_splits bind_splits)

interpretation v3_protocol: wait_free_spsc "unat Capacity" "unat Capacity - 1" "slot_index Capacity"
    "v3_producer Capacity" "v3_consumer Capacity" "memory_init Capacity" "(PushIdle, 0)" "(PopIdle, 0)"
    "v3_push_ok Capacity" "v3_pop_ok Capacity" "ring_static_assert Capacity" 4
    "\<lambda>p. push_rank (fst p)" "\<lambda>c. pop_rank (fst c)" for Capacity
proof (unfold_locales, goal_cases)
  case 1
  then show ?case using index_mem_inv_init by (auto simp: v3_push_ok_def v3_pop_ok_def)
next
  case 2
  then show ?case by (intro v3_producer_step)
next
  case 3
  then show ?case by (intro v3_consumer_step)
qed (simp_all add: index_ranks v3_ranks)

section \<open>The free-running counters\<close>

abbreviation counter :: "nat \<Rightarrow> size_t" where
  "counter \<equiv> of_nat"

abbreviation counter_mem_inv ::
  "size_t \<Rightarrow> 'a list \<Rightarrow> nat \<Rightarrow> nat \<Rightarrow> nat \<Rightarrow> 'a option \<Rightarrow> 'a option \<Rightarrow> 'a memory \<Rightarrow> bool" where
  "counter_mem_inv Capacity \<equiv> mem_inv (unat Capacity) (unat Capacity) counter"

lemma unat_counter_diff:
  assumes "i \<le> n" and "n \<le> i + unat (Capacity :: size_t)"
  shows "unat (counter n - counter i) = n - i"
proof -
  have "n - i < 2 ^ 64" using assms unsigned_less [of Capacity, where ?'a = nat] by simp
  then have "unat (counter (n - i)) = n - i" by (simp add: unat_of_nat)
  then show ?thesis using assms(1) by (simp add: of_nat_diff)
qed

lemma counter_full:
  assumes "i \<le> n" and "n \<le> i + unat Capacity"
  shows "counter n - counter i = Capacity \<longleftrightarrow> n = i + unat Capacity"
  using unat_counter_diff [OF assms] assms by (auto simp: word_unat_eq_iff)

lemma counter_empty:
  assumes "m \<le> i" and "i \<le> m + unat (Capacity :: size_t)"
  shows "counter i = counter m \<longleftrightarrow> i = m"
  using unat_counter_diff [OF assms] assms by auto

lemma unat_idx_of_counter:
  assumes "ring_static_assert Capacity"
  shows "unat (idx_of Capacity (counter n)) = n mod unat Capacity"
proof -
  obtain j where j: "j < 64" "Capacity = 2 ^ j" using assms by (elim ring_static_assertE)
  then show ?thesis
    using exp_dvd_size [OF j(1)] unfolding unat_idx_of [OF assms] by (simp add: unat_of_nat mod_mod_cancel)
qed

fun v4_push_ok :: "size_t \<Rightarrow> 'a v4_push_pc \<times> size_t \<times> size_t \<Rightarrow> nat \<Rightarrow> nat \<Rightarrow> 'a option \<Rightarrow> bool" where
  "v4_push_ok Capacity (V4PushIdle, ph, pt) n ts w \<longleftrightarrow> w = None \<and> ph = counter n \<and> pt = counter ts"
| "v4_push_ok Capacity (V4PushWrite v, ph, pt) n ts w \<longleftrightarrow>
     w = None \<and> ph = counter n \<and> pt = counter ts \<and> n < ts + unat Capacity"
| "v4_push_ok Capacity (V4PushStore v, ph, pt) n ts w \<longleftrightarrow> w = Some v \<and> ph = counter (Suc n) \<and> pt = counter ts"

fun v4_pop_ok :: "size_t \<Rightarrow> 'a v4_pop_pc \<times> size_t \<times> size_t \<Rightarrow> nat \<Rightarrow> nat \<Rightarrow> 'a option \<Rightarrow> bool" where
  "v4_pop_ok Capacity (V4PopIdle, ch, ct) m hs r \<longleftrightarrow> r = None \<and> ch = counter hs \<and> ct = counter m"
| "v4_pop_ok Capacity (V4PopRead, ch, ct) m hs r \<longleftrightarrow> r = None \<and> ch = counter hs \<and> ct = counter m \<and> m < hs"
| "v4_pop_ok Capacity (V4PopStore x, ch, ct) m hs r \<longleftrightarrow> r = Some x \<and> ch = counter hs \<and> ct = counter (Suc m)"

lemma v4_write_step:
  assumes sa: "ring_static_assert Capacity"
    and inv: "counter_mem_inv Capacity acc m ts hs None r M" and room: "length acc < ts + unat Capacity"
  shows "\<exists>M'. v4_write Capacity x (counter (length acc)) (counter ts) M
             = Some ((V4PushStore x, counter (Suc (length acc)), counter ts), M', None) \<and>
           counter_mem_inv Capacity acc m ts hs (Some x) r M'"
proof -
  obtain M' where "cell_write Producer (length acc mod unat Capacity) x M = Some M'"
    and "counter_mem_inv Capacity acc m ts hs (Some x) r M'" using inv room by (rule write_cell_producer)
  then show ?thesis unfolding v4_write_def unat_idx_of_counter [OF sa] by simp
qed

lemma v4_read_step:
  assumes sa: "ring_static_assert Capacity"
    and inv: "counter_mem_inv Capacity acc m ts hs w None M" and some: "m < hs"
  shows "\<exists>M'. v4_read Capacity (counter hs) (counter m) M
             = Some ((V4PopStore (acc ! m), counter hs, counter (Suc m)), M', None) \<and>
           counter_mem_inv Capacity acc m ts hs w (Some (acc ! m)) M'"
proof -
  obtain M' where "cell_read Consumer (m mod unat Capacity) M = Some (acc ! m, M')"
    and "counter_mem_inv Capacity acc m ts hs w (Some (acc ! m)) M'" using inv some by (rule read_cell_consumer)
  then show ?thesis unfolding v4_read_def unat_idx_of_counter [OF sa] by simp
qed

lemma v4_producer_step:
  assumes sa: "ring_static_assert Capacity"
    and inv: "counter_mem_inv Capacity acc m ts hs w r M" and pok: "v4_push_ok Capacity p (length acc) ts w"
  shows "\<exists>p' M' res ts' w'. v4_producer Capacity k v p M = Some (p', M', res) \<and>
           (let acc' = acc @ (case res of Some (x, True) \<Rightarrow> [x] | _ \<Rightarrow> [])
            in counter_mem_inv Capacity acc' m ts' hs w' r M' \<and> v4_push_ok Capacity p' (length acc') ts' w')"
proof -
  let ?n = "length acc"
  obtain pc ph pt where p: "p = (pc, ph, pt)" by (cases p)
  have o: "ts \<le> ?n" "?n \<le> ts + unat Capacity" using mem_inv_order(1-4) [OF inv] by auto
  show ?thesis
  proof (cases pc)
    case V4PushIdle
    then have ok: "w = None" "ph = counter ?n" "pt = counter ts" using pok p by auto
    show ?thesis
    proof (cases "?n = ts + unat Capacity")
      case False
      then have ne: "counter ?n - counter ts \<noteq> Capacity" using counter_full [OF o] by simp
      have "?n < ts + unat Capacity" using False o by simp
      from v4_write_step [OF sa inv [unfolded ok(1)] this, of v] show ?thesis
        using V4PushIdle ok ne by (auto simp: p)
    next
      case True
      then have eq: "counter ?n - counter ts = Capacity" using counter_full [OF o] by simp
      obtain i M' where ld: "load memory_order_acquire Producer Tail k M = (counter i, M')"
        and mi: "counter_mem_inv Capacity acc m i hs w r M'"
        using load_tail_producer [OF inv orders_sync(1), of k] by blast
      have oi: "i \<le> ?n" "?n \<le> i + unat Capacity" using mem_inv_order(1-4) [OF mi] by auto
      show ?thesis
        using V4PushIdle ok eq ld mi oi counter_full [OF oi]
        by (cases "counter ?n - counter i = Capacity") (auto simp: p)
    qed
  next
    case (V4PushWrite x)
    then have ok: "w = None" "ph = counter ?n" "pt = counter ts" "?n < ts + unat Capacity" using pok p by auto
    from v4_write_step [OF sa inv [unfolded ok(1)] ok(4), of x] show ?thesis
      using V4PushWrite ok by (auto simp: p)
  next
    case (V4PushStore x)
    then have ok: "w = Some x" "ph = counter (Suc ?n)" "pt = counter ts" using pok p by auto
    show ?thesis
      using store_head_producer [OF inv [unfolded ok(1)], of memory_order_release] V4PushStore ok by (auto simp: p)
  qed
qed

lemma v4_consumer_step:
  assumes sa: "ring_static_assert Capacity"
    and inv: "counter_mem_inv Capacity acc m ts hs w r M" and cok: "v4_pop_ok Capacity c m hs r"
  shows "\<exists>c' M' res hs' r' m'. v4_consumer Capacity k out c M = Some (c', M', res) \<and>
           counter_mem_inv Capacity acc m' ts hs' w r' M' \<and> v4_pop_ok Capacity c' m' hs' r' \<and>
           (if \<exists>x. res = Some (x, True) then m' = Suc m \<and> res = Some (acc ! m, True) else m' = m)"
proof -
  obtain pc ch ct where c: "c = (pc, ch, ct)" by (cases c)
  have o: "m \<le> hs" "hs \<le> m + unat Capacity" using mem_inv_order(1-4) [OF inv] by auto
  show ?thesis
  proof (cases pc)
    case V4PopIdle
    then have ok: "r = None" "ch = counter hs" "ct = counter m" using cok c by auto
    show ?thesis
    proof (cases "hs = m")
      case False
      then have ne: "counter hs \<noteq> counter m" using counter_empty [OF o] by simp
      have "m < hs" using False o by simp
      from v4_read_step [OF sa inv [unfolded ok(1)] this] show ?thesis using V4PopIdle ok ne by (auto simp: c)
    next
      case True
      obtain i M' where ld: "load memory_order_acquire Consumer Head k M = (counter i, M')"
        and mi: "counter_mem_inv Capacity acc m ts i w r M'"
        using load_head_consumer [OF inv orders_sync(1), of k] by blast
      have oi: "m \<le> i" "i \<le> m + unat Capacity" using mem_inv_order(1-4) [OF mi] by auto
      show ?thesis
        using V4PopIdle ok True ld mi oi counter_empty [OF oi] by (cases "counter i = counter m") (auto simp: c)
    qed
  next
    case V4PopRead
    then have ok: "r = None" "ch = counter hs" "ct = counter m" "m < hs" using cok c by auto
    from v4_read_step [OF sa inv [unfolded ok(1)] ok(4)] show ?thesis using V4PopRead ok by (auto simp: c)
  next
    case (V4PopStore x)
    then have ok: "r = Some x" "ch = counter hs" "ct = counter (Suc m)" using cok c by auto
    show ?thesis
      using store_tail_consumer [OF inv [unfolded ok(1)], of memory_order_release] V4PopStore ok by (auto simp: c)
  qed
qed

fun v4_push_rank :: "'a v4_push_pc \<Rightarrow> nat" where
  "v4_push_rank V4PushIdle = 3"
| "v4_push_rank (V4PushWrite _) = 2"
| "v4_push_rank (V4PushStore _) = 1"

fun v4_pop_rank :: "'a v4_pop_pc \<Rightarrow> nat" where
  "v4_pop_rank V4PopIdle = 3"
| "v4_pop_rank V4PopRead = 2"
| "v4_pop_rank (V4PopStore _) = 1"

lemma v4_ranks:
  "0 < v4_push_rank p" "0 < v4_pop_rank c"
  "v4_producer Capacity k v q M = Some (q', M', res) \<Longrightarrow>
     if res = None then v4_push_rank (fst q') < v4_push_rank (fst q) else v4_push_rank (fst q') = 3"
  "v4_consumer Capacity k out d M = Some (d', M', res) \<Longrightarrow>
     if res = None then v4_pop_rank (fst d') < v4_pop_rank (fst d) else v4_pop_rank (fst d') = 3"
proof -
  show "0 < v4_push_rank p" "0 < v4_pop_rank c" by (cases p; simp) (cases c; simp)
  show "v4_producer Capacity k v q M = Some (q', M', res) \<Longrightarrow>
     if res = None then v4_push_rank (fst q') < v4_push_rank (fst q) else v4_push_rank (fst q') = 3"
    by (cases q; cases "fst q") (auto simp: Let_def v4_write_def split: prod.splits if_splits bind_splits)
  show "v4_consumer Capacity k out d M = Some (d', M', res) \<Longrightarrow>
     if res = None then v4_pop_rank (fst d') < v4_pop_rank (fst d) else v4_pop_rank (fst d') = 3"
    by (cases d; cases "fst d") (auto simp: Let_def v4_read_def split: prod.splits if_splits bind_splits)
qed

interpretation v4_protocol: wait_free_spsc "unat Capacity" "unat Capacity" counter
    "v4_producer Capacity" "v4_consumer Capacity" "memory_init Capacity" "(V4PushIdle, 0, 0)" "(V4PopIdle, 0, 0)"
    "v4_push_ok Capacity" "v4_pop_ok Capacity" "ring_static_assert Capacity" 3
    "\<lambda>p. v4_push_rank (fst p)" "\<lambda>c. v4_pop_rank (fst c)" for Capacity
proof (unfold_locales, goal_cases)
  case 1
  then have "counter_mem_inv Capacity [] 0 0 0 None None (memory_init Capacity)"
    by (intro mem_inv_init) (auto elim: ring_static_assertE)
  then show ?case by simp
next
  case 2
  then show ?case by (intro v4_producer_step)
next
  case 3
  then show ?case by (intro v4_consumer_step)
qed (simp_all add: v4_ranks)

section \<open>Properties\<close>

text \<open>
  C18. The second variant, with relaxed, acquire and release orders: although a load may return
  a stale index, in every reachable state the next step of either thread is free of data
  races and stays inside the array, and the delivered elements are a prefix of the accepted ones with at most
  \<open>Capacity - 1\<close> in transit.
\<close>

theorem v2_race_free_fifo:
  fixes s :: "('a::default, _, _) system"
  assumes "ring_static_assert Capacity"
    and "reachable (v2_producer Capacity) (v2_consumer Capacity) (system_init (memory_init Capacity) PushIdle PopIdle) s"
  shows "v2_producer Capacity k v (producer s) (mem s) \<noteq> None \<and> v2_consumer Capacity k v (consumer s) (mem s) \<noteq> None \<and>
         (\<exists>rest. accepted s = delivered s @ rest \<and> length rest \<le> unat Capacity - 1)"
  using assms by (rule v2_protocol.reachable_safe)

theorem v2_race_free_fifo_witness:
  "\<exists>s. reachable (v2_producer 2) (v2_consumer 2) (system_init (memory_init 2) PushIdle PopIdle) s \<and>
     accepted s = [7 :: u32] \<and> delivered s = [7] \<and>
     v2_producer 2 0 9 (producer s) (mem s) \<noteq> None"
proof -
  have a: "ring_static_assert 2" by (simp add: ring_static_assert_def is_power_of_two_def)
  let ?run = "run_schedule (v2_producer 2) (v2_consumer 2) (system_init (memory_init 2) PushIdle PopIdle)
    [(Producer, 0, 7 :: u32), (Producer, 0, 7), (Producer, 0, 7), (Producer, 0, 7), (Producer, 0, 8), (Consumer, 0, 0), (Consumer, 1, 0), (Consumer, 0, 0), (Consumer, 0, 0)]"
  obtain s where s: "?run = Some s" and r: "reachable (v2_producer 2) (v2_consumer 2) (system_init (memory_init 2) PushIdle PopIdle) s"
    using v2_protocol.schedule_safe [OF a] by blast
  have "map_option (\<lambda>s. (accepted s, delivered s)) ?run = Some ([7], [7])" by code_simp
  then show ?thesis using s r v2_race_free_fifo [OF a r, of 0 9] by auto
qed

text \<open>
  C4. The third variant: with the opponent's index cached and reloaded only when the cache shows a full
  or an empty queue, no reachable state has a data race or an access outside the array at its next step, and the
  delivered elements are a prefix of the accepted ones with at most \<open>Capacity - 1\<close> in transit.
\<close>

theorem v3_race_free_fifo:
  fixes s :: "('a::default, _, _) system"
  assumes "ring_static_assert Capacity"
    and "reachable (v3_producer Capacity) (v3_consumer Capacity) (system_init (memory_init Capacity) (PushIdle, 0) (PopIdle, 0)) s"
  shows "v3_producer Capacity k v (producer s) (mem s) \<noteq> None \<and> v3_consumer Capacity k v (consumer s) (mem s) \<noteq> None \<and>
         (\<exists>rest. accepted s = delivered s @ rest \<and> length rest \<le> unat Capacity - 1)"
  using assms by (rule v3_protocol.reachable_safe)

theorem v3_race_free_fifo_witness:
  "\<exists>s. reachable (v3_producer 2) (v3_consumer 2) (system_init (memory_init 2) (PushIdle, 0) (PopIdle, 0)) s \<and>
     accepted s = [7 :: u32] \<and> delivered s = [7] \<and>
     v3_producer 2 0 9 (producer s) (mem s) \<noteq> None"
proof -
  have a: "ring_static_assert 2" by (simp add: ring_static_assert_def is_power_of_two_def)
  let ?run = "run_schedule (v3_producer 2) (v3_consumer 2) (system_init (memory_init 2) (PushIdle, 0) (PopIdle, 0))
    [(Producer, 0, 7 :: u32), (Producer, 0, 7), (Producer, 0, 7), (Producer, 0, 7), (Producer, 0, 8), (Consumer, 0, 0), (Consumer, 1, 0), (Consumer, 0, 0), (Consumer, 0, 0)]"
  obtain s where s: "?run = Some s" and r: "reachable (v3_producer 2) (v3_consumer 2) (system_init (memory_init 2) (PushIdle, 0) (PopIdle, 0)) s"
    using v3_protocol.schedule_safe [OF a] by blast
  have "map_option (\<lambda>s. (accepted s, delivered s)) ?run = Some ([7], [7])" by code_simp
  then show ?thesis using s r v3_race_free_fifo [OF a r, of 0 9] by auto
qed

text \<open>
  C19. The fourth variant: with free-running 64-bit counters that may overflow, no reachable state has a
  data race or an access outside the array at its next step, and the delivered elements are a prefix of the
  accepted ones; all \<open>Capacity\<close> cells can be in transit.
\<close>

theorem v4_race_free_fifo:
  fixes s :: "('a::default, _, _) system"
  assumes "ring_static_assert Capacity"
    and "reachable (v4_producer Capacity) (v4_consumer Capacity) (system_init (memory_init Capacity) (V4PushIdle, 0, 0) (V4PopIdle, 0, 0)) s"
  shows "v4_producer Capacity k v (producer s) (mem s) \<noteq> None \<and> v4_consumer Capacity k v (consumer s) (mem s) \<noteq> None \<and>
         (\<exists>rest. accepted s = delivered s @ rest \<and> length rest \<le> unat Capacity)"
  using assms by (rule v4_protocol.reachable_safe)

theorem v4_race_free_fifo_witness:
  "\<exists>s. reachable (v4_producer 2) (v4_consumer 2) (system_init (memory_init 2) (V4PushIdle, 0, 0) (V4PopIdle, 0, 0)) s \<and>
     accepted s = [7 :: u32, 8] \<and> delivered s = [7] \<and>
     v4_producer 2 0 9 (producer s) (mem s) \<noteq> None"
proof -
  have a: "ring_static_assert 2" by (simp add: ring_static_assert_def is_power_of_two_def)
  let ?run = "run_schedule (v4_producer 2) (v4_consumer 2) (system_init (memory_init 2) (V4PushIdle, 0, 0) (V4PopIdle, 0, 0))
    [(Producer, 0, 7 :: u32), (Producer, 0, 7), (Producer, 0, 8), (Producer, 0, 8), (Consumer, 1, 0), (Consumer, 0, 0), (Consumer, 0, 0)]"
  obtain s where s: "?run = Some s" and r: "reachable (v4_producer 2) (v4_consumer 2) (system_init (memory_init 2) (V4PushIdle, 0, 0) (V4PopIdle, 0, 0)) s"
    using v4_protocol.schedule_safe [OF a] by blast
  have "map_option (\<lambda>s. (accepted s, delivered s)) ?run = Some ([7, 8], [7])" by code_simp
  then show ?thesis using s r v4_race_free_fifo [OF a r, of 0 9] by auto
qed

text \<open>
  C20. The first lock-free variant, with sequentially consistent atomics: in every state that any
  interleaving of one pushing and one popping thread can reach, neither thread can run into a data race or
  an access outside the array at its next step, the delivered elements are the accepted ones in order
  without loss or duplication, and at most \<open>Capacity - 1\<close> are in transit.
\<close>

theorem v1_race_free_fifo:
  fixes s :: "('a::default, _, _) system"
  assumes "ring_static_assert Capacity"
    and "reachable (v1_producer Capacity) (v1_consumer Capacity) (system_init (memory_init Capacity) PushIdle PopIdle) s"
  shows "v1_producer Capacity k v (producer s) (mem s) \<noteq> None \<and> v1_consumer Capacity k v (consumer s) (mem s) \<noteq> None \<and>
         (\<exists>rest. accepted s = delivered s @ rest \<and> length rest \<le> unat Capacity - 1)"
  using assms by (rule v1_protocol.reachable_safe)

theorem v1_race_free_fifo_witness:
  "\<exists>s. reachable (v1_producer 2) (v1_consumer 2) (system_init (memory_init 2) PushIdle PopIdle) s \<and>
     accepted s = [7 :: u32] \<and> delivered s = [7] \<and>
     v1_producer 2 0 9 (producer s) (mem s) \<noteq> None"
proof -
  have a: "ring_static_assert 2" by (simp add: ring_static_assert_def is_power_of_two_def)
  let ?run = "run_schedule (v1_producer 2) (v1_consumer 2) (system_init (memory_init 2) PushIdle PopIdle)
    [(Producer, 0, 7 :: u32), (Producer, 0, 7), (Producer, 0, 7), (Producer, 0, 7), (Producer, 0, 8), (Consumer, 0, 0), (Consumer, 1, 0), (Consumer, 0, 0), (Consumer, 0, 0)]"
  obtain s where s: "?run = Some s" and r: "reachable (v1_producer 2) (v1_consumer 2) (system_init (memory_init 2) PushIdle PopIdle) s"
    using v1_protocol.schedule_safe [OF a] by blast
  have "map_option (\<lambda>s. (accepted s, delivered s)) ?run = Some ([7], [7])" by code_simp
  then show ?thesis using s r v1_race_free_fifo [OF a r, of 0 9] by auto
qed

text \<open>
  C28. The four lock-free variants are wait-free. Every schedule of the two threads can be executed to its
  end, and a thread that has made \<open>n\<close> steps of its own has finished at least \<open>n div 4\<close> calls (\<open>n div 3\<close> with the
  local counters of the last variant), whatever the other thread did or did not do meanwhile.
\<close>

theorem queues_wait_free:
  fixes xs :: "(thread \<times> nat \<times> 'a::default) list"
  assumes "ring_static_assert Capacity"
  shows
    "(\<exists>s. run_schedule (v1_producer Capacity) (v1_consumer Capacity) (system_init (memory_init Capacity) PushIdle PopIdle) xs = Some s \<and>
        steps_of Producer xs div 4 \<le> length (pushes s) \<and> steps_of Consumer xs div 4 \<le> length (pops s)) \<and>
     (\<exists>s. run_schedule (v2_producer Capacity) (v2_consumer Capacity) (system_init (memory_init Capacity) PushIdle PopIdle) xs = Some s \<and>
        steps_of Producer xs div 4 \<le> length (pushes s) \<and> steps_of Consumer xs div 4 \<le> length (pops s)) \<and>
     (\<exists>s. run_schedule (v3_producer Capacity) (v3_consumer Capacity) (system_init (memory_init Capacity) (PushIdle, 0) (PopIdle, 0)) xs = Some s \<and>
        steps_of Producer xs div 4 \<le> length (pushes s) \<and> steps_of Consumer xs div 4 \<le> length (pops s)) \<and>
     (\<exists>s. run_schedule (v4_producer Capacity) (v4_consumer Capacity) (system_init (memory_init Capacity) (V4PushIdle, 0, 0) (V4PopIdle, 0, 0)) xs = Some s \<and>
        steps_of Producer xs div 3 \<le> length (pushes s) \<and> steps_of Consumer xs div 3 \<le> length (pops s))"
  by (intro conjI v1_protocol.wait_free v2_protocol.wait_free v3_protocol.wait_free v4_protocol.wait_free assms)

theorem queues_wait_free_witness:
  "\<exists>s. run_schedule (v4_producer 2) (v4_consumer 2) (system_init (memory_init 2) (V4PushIdle, 0, 0) (V4PopIdle, 0, 0))
     (replicate 3 (Producer, 0, 7 :: u32) @ [(Consumer, 0, 0)]) = Some s \<and> 1 \<le> length (pushes s)"
proof -
  have a: "ring_static_assert 2" by (simp add: ring_static_assert_def is_power_of_two_def)
  have "steps_of Producer (replicate 3 (Producer, 0, 7 :: u32) @ [(Consumer, 0, 0)]) div 3 = 1" by code_simp
  then show ?thesis
    using queues_wait_free [OF a, THEN conjunct2, THEN conjunct2, THEN conjunct2,
        of "replicate 3 (Producer, 0, 7 :: u32) @ [(Consumer, 0, 0)]"] by metis
qed

text \<open>
  With sequentially consistent atomics a refused call is exact: when the load of \<^verbatim>\<open>tail_\<close> makes
  \<^verbatim>\<open>push\<close> return \<^verbatim>\<open>false\<close> the queue holds \<open>Capacity - 1\<close> elements at that moment, and when the load
  of \<^verbatim>\<open>head_\<close> makes \<^verbatim>\<open>pop\<close> return \<^verbatim>\<open>false\<close> everything accepted so far has been delivered.
\<close>

theorem v1_refusal_exact:
  fixes s :: "('a::default, _, _) system"
  assumes "ring_static_assert Capacity"
    and "reachable (v1_producer Capacity) (v1_consumer Capacity) (system_init (memory_init Capacity) PushIdle PopIdle) s"
  shows "(v1_producer Capacity k v (producer s) (mem s) = Some (p, M, Some (x, False)) \<longrightarrow>
            length (accepted s) = length (delivered s) + (unat Capacity - 1)) \<and>
         (v1_consumer Capacity k v (consumer s) (mem s) = Some (c, M, Some (x, False)) \<longrightarrow>
            accepted s = delivered s)"
proof -
  have inv: "v1_protocol.sys_inv Capacity s" using assms by (rule v1_protocol.reachable_inv)
  then obtain ts hs w r
    where mi: "index_mem_inv Capacity (accepted s) (length (delivered s)) ts hs w r (mem s)"
      and pok: "push_ok Capacity (producer s) (length (accepted s)) ts w"
      and cok: "pop_ok Capacity (consumer s) (length (delivered s)) hs r"
      and del: "delivered s = take (length (delivered s)) (accepted s)"
    unfolding v1_protocol.sys_inv_def by blast
  show ?thesis
    using v1_push_refused [OF assms(1) mi pok] v1_pop_refused [OF assms(1) mi cok] del by fastforce
qed

theorem v1_refusal_exact_witness:
  "\<exists>s p M. reachable (v1_producer 2) (v1_consumer 2) (system_init (memory_init 2) PushIdle PopIdle) s \<and>
     v1_producer 2 0 (8 :: u32) (producer s) (mem s) = Some (p, M, Some (8, False)) \<and>
     length (accepted s) = length (delivered s) + 1"
proof -
  have a: "ring_static_assert 2" by (simp add: ring_static_assert_def is_power_of_two_def)
  let ?run = "run_schedule (v1_producer 2) (v1_consumer 2) (system_init (memory_init 2) PushIdle PopIdle)
    [(Producer, 0, 7 :: u32), (Producer, 0, 7), (Producer, 0, 7), (Producer, 0, 7), (Producer, 0, 8)]"
  obtain s where s: "?run = Some s" and r: "reachable (v1_producer 2) (v1_consumer 2) (system_init (memory_init 2) PushIdle PopIdle) s"
    using v1_protocol.schedule_safe [OF a] by blast
  have "map_option (\<lambda>s. map_option (\<lambda>x. snd (snd x)) (v1_producer 2 0 8 (producer s) (mem s))) ?run = Some (Some (Some (8, False)))"
    by code_simp
  then obtain p M where "v1_producer 2 0 8 (producer s) (mem s) = Some (p, M, Some (8, False))"
    using s by auto
  then show ?thesis using r v1_refusal_exact [OF a r, of 0 8 p M 8 "consumer s"] by auto
qed

end
