(* ===== verification/Benchmarks.thy ===== *)
theory Benchmarks
  imports Epoll_Server Spsc_Concurrent
begin

text \<open>
  The two benchmark programs: the gateway client \<^verbatim>\<open>epoll_bench_client.cpp\<close> (its command line, its
  order encoder and the frames it sends) and the checksum of the queue benchmark \<^verbatim>\<open>test.cpp\<close>.
  The statistics of the client and its \<^verbatim>\<open>main\<close> are in \<open>Client_Report\<close>, the threads of the queue benchmark in
  \<open>Queue_Benchmark\<close>.
\<close>

section \<open>epoll_bench_client.cpp\<close>

text \<open>\<^verbatim>\<open>std::atoi\<close>: blanks, an optional sign, digits; \<^term>\<open>None\<close> if the value does not fit an \<^verbatim>\<open>int\<close>.\<close>

definition is_space :: "char \<Rightarrow> bool" where
  "is_space c \<longleftrightarrow> c = CHR '' '' \<or> (9 \<le> (of_char c :: nat) \<and> (of_char c :: nat) \<le> 13)"

definition is_digit :: "char \<Rightarrow> bool" where
  "is_digit c \<longleftrightarrow> 48 \<le> (of_char c :: nat) \<and> (of_char c :: nat) \<le> 57"

fun digits_value :: "int \<Rightarrow> string \<Rightarrow> int" where
  "digits_value acc [] = acc"
| "digits_value acc (c # cs) = (if is_digit c then digits_value (10 * acc + (of_char c - 48)) cs else acc)"

definition atoi :: "string \<Rightarrow> int option" where
  "atoi str =
     (let s = dropWhile is_space str;
          v = (case s of
                 [] \<Rightarrow> 0
               | c # cs \<Rightarrow> if c = CHR ''-'' then - digits_value 0 cs
                           else if c = CHR ''+'' then digits_value 0 cs else digits_value 0 s)
      in if - (2 ^ 31) \<le> v \<and> v < 2 ^ 31 then Some v else None)"

record Options =
  host :: string
  port :: int
  messages :: int
  warmup :: int

definition Options_init :: Options where
  "Options_init = \<lparr>host = ''127.0.0.1'', port = 9000, messages = 100000, warmup = 1000\<rparr>"

text \<open>The arguments after the program name, two at a time; a last single one is ignored.\<close>

fun parse_options :: "Options \<Rightarrow> string list \<Rightarrow> Options option" where
  "parse_options opts (k # v # rest) = do {
     opts \<leftarrow>
       (if k = ''--host'' then Some (opts\<lparr>host := v\<rparr>)
        else if k = ''--port'' then do { n \<leftarrow> atoi v; Some (opts\<lparr>port := n\<rparr>) }
        else if k = ''--messages'' then do { n \<leftarrow> atoi v; Some (opts\<lparr>messages := n\<rparr>) }
        else if k = ''--warmup'' then do { n \<leftarrow> atoi v; Some (opts\<lparr>warmup := n\<rparr>) }
        else Some opts);
     parse_options opts rest
   }"
| "parse_options opts _ = Some opts"

definition encode_order :: "span \<Rightarrow> u64 \<Rightarrow> span option" where
  "encode_order frame seq = do {
     let h = (default :: MessageHeader)\<lparr>sequence_number := seq, MessageHeader.session_id := 1\<rparr>;
     let order = (default :: NewOrder)\<lparr>NewOrder.client_order_id := seq, NewOrder.side := Side.Buy,
       NewOrder.price := 10000, NewOrder.quantity := 1\<rparr>;
     (_, frame) \<leftarrow> encode_new_order h order frame;
     Some frame
   }"

text \<open>
  One exchange with the server, as the system calls of \<^verbatim>\<open>send_recv\<close> answer it: how \<^verbatim>\<open>send\<close> comes back, and the bytes
  that \<^verbatim>\<open>recv\<close> writes, a whole frame or fewer if the connection ends or the call fails; \<^term>\<open>None\<close> if a call never
  returns. The client passes no \<^verbatim>\<open>MSG_NOSIGNAL\<close> and installs no handler: a \<^verbatim>\<open>send\<close> on a connection that is known to be broken
  raises \<^verbatim>\<open>SIGPIPE\<close>, which kills it, or fails like any other if the program was started with the signal ignored.
\<close>

datatype send_result = Sent | Send_Error | Broken_Pipe

type_synonym exchange = "send_result \<times> span option"

datatype stop = Killed | Blocked

text \<open>
  \<^verbatim>\<open>send_recv\<close> gives the whole frame to \<^verbatim>\<open>send\<close> and receives into the same buffer; it looks at neither result. The
  value is the buffer afterwards, or the way in which the program stops inside the two calls.
\<close>

definition send_recv :: "exchange \<Rightarrow> span \<Rightarrow> (stop + span) option" where
  "send_recv answer frame =
     (if fst answer = Broken_Pipe then Some (Inl Killed)
      else case snd answer of
        None \<Rightarrow> Some (Inl Blocked)
      | Some received \<Rightarrow> map_option Inr (memcpy frame 0 received 0 (length received)))"

text \<open>
  The two loops of \<^verbatim>\<open>main\<close>: \<open>n\<close> rounds of encoding into the one frame buffer and exchanging it; the result is
  the list of the frames handed to \<^verbatim>\<open>send\<close>, with the buffer and the sequence number at the end or the way the program stops.
\<close>

fun send_orders :: "nat \<Rightarrow> (nat \<Rightarrow> exchange) \<Rightarrow> span \<Rightarrow> u64 \<Rightarrow> (span list \<times> (stop + span \<times> u64)) option" where
  "send_orders 0 net frame seq = Some ([], Inr (frame, seq))"
| "send_orders (Suc n) net frame seq = do {
     frame \<leftarrow> encode_order frame seq;
     r \<leftarrow> send_recv (net 0) frame;
     (case r of
        Inl st \<Rightarrow> Some ([frame], Inl st)
      | Inr frame' \<Rightarrow> do {
          (frames, out) \<leftarrow> send_orders n (\<lambda>k. net (Suc k)) frame' (seq + 1);
          Some (frame # frames, out)
        })
   }"

text \<open>The exchanges in which the program stops, and the first of them among \<open>n\<close>.\<close>

fun stops :: "exchange \<Rightarrow> stop option" where
  "stops (Broken_Pipe, _) = Some Killed"
| "stops (_, None) = Some Blocked"
| "stops (_, Some _) = None"

definition first_stop :: "(nat \<Rightarrow> exchange) \<Rightarrow> nat \<Rightarrow> nat option" where
  "first_stop net n = find (\<lambda>k. stops (net k) \<noteq> None) [0..<n]"

section \<open>test.cpp\<close>

text \<open>The checksum of the consumer thread and the value it is compared with.\<close>

definition checksum :: "u64 list \<Rightarrow> u64" where
  "checksum values = foldl (\<lambda>checksum value. checksum + value) 0 values"

definition expected_checksum :: "u64 \<Rightarrow> u64" where
  "expected_checksum n = n * (n + 1) div 2"

section \<open>Lemmas\<close>

text \<open>What one exchange does: it stops the program, or leaves the reply in the front of the buffer.\<close>

definition replies_fit :: "(nat \<Rightarrow> exchange) \<Rightarrow> bool" where
  "replies_fit net \<longleftrightarrow> (\<forall>k received. snd (net k) = Some received \<longrightarrow> length received \<le> kFrameSize)"

lemma replies_fit_shift: "replies_fit net \<Longrightarrow> replies_fit (\<lambda>k. net (w + k))" "replies_fit net \<Longrightarrow> replies_fit (\<lambda>k. net (Suc k))"
  by (simp_all add: replies_fit_def)

lemma send_recv_cases:
  assumes "length frame = 64" and "replies_fit net"
  obtains (stopped) st where "stops (net k) = Some st" and "send_recv (net k) frame = Some (Inl st)"
    | (reply) frame' where "stops (net k) = None" and "send_recv (net k) frame = Some (Inr frame')" and "length frame' = 64"
proof -
  obtain r v where n: "net k = (r, v)" by (cases "net k")
  show thesis
  proof (cases "r = Broken_Pipe \<or> v = None")
    case True
    show thesis
      by (rule stopped [of "if r = Broken_Pipe then Killed else Blocked"]; use True n in \<open>cases r; auto simp: send_recv_def\<close>)
  next
    case False
    then obtain received where v: "v = Some received" "r \<noteq> Broken_Pipe" by blast
    then have "length received \<le> length frame"
      using assms(2) [unfolded replies_fit_def, rule_format, of k received] n assms(1) by simp
    then show thesis
      by (intro reply [of "blit frame 0 received"]; use v n assms(1) in \<open>cases r; simp add: send_recv_def memcpy_blit\<close>)
  qed
qed

lemma first_stop_0 [simp]: "first_stop net 0 = None"
  by (simp add: first_stop_def)

lemma first_stop_Suc:
  "first_stop net (Suc n) = (if stops (net 0) \<noteq> None then Some 0 else map_option Suc (first_stop (\<lambda>k. net (Suc k)) n))"
proof -
  have shift: "find P (map Suc ks) = map_option Suc (find (\<lambda>k. P (Suc k)) ks)" for P ks by (induction ks) simp_all
  have "[0..<Suc n] = 0 # map Suc [0..<n]" by (simp add: upt_conv_Cons map_Suc_upt del: upt_Suc)
  then show ?thesis unfolding first_stop_def by (simp add: shift del: upt_Suc)
qed

lemma first_stop_add:
  "first_stop net (w + n) = (case first_stop net w of Some k \<Rightarrow> Some k | None \<Rightarrow> map_option ((+) w) (first_stop (\<lambda>k. net (w + k)) n))"
proof (induction w arbitrary: net)
  case 0
  then show ?case by (cases "first_stop net n") simp_all
next
  case (Suc w)
  then show ?case
    by (cases "first_stop (\<lambda>k. net (Suc (w + k))) n") (auto simp: first_stop_Suc split: option.splits)
qed

lemma encode_order_frame:
  assumes "length frame = 64"
  shows "\<exists>out. encode_order frame seq = Some out \<and> length out = 64 \<and>
     spec_request out default = Some ((default :: DecodedMessage)\<lparr>
       header := stamp MessageType.NewOrder ((default :: MessageHeader)\<lparr>sequence_number := seq, MessageHeader.session_id := 1\<rparr>),
       DecodedMessage.type := MessageType.NewOrder,
       new_order := (default :: NewOrder)\<lparr>NewOrder.client_order_id := seq, NewOrder.side := Side.Buy,
         NewOrder.price := 10000, NewOrder.quantity := 1\<rparr>\<rparr>)"
proof -
  let ?h = "(default :: MessageHeader)\<lparr>sequence_number := seq, MessageHeader.session_id := 1\<rparr>"
  let ?o = "(default :: NewOrder)\<lparr>NewOrder.client_order_id := seq, NewOrder.side := Side.Buy,
         NewOrder.price := 10000, NewOrder.quantity := 1\<rparr>"
  obtain out where out: "encode_new_order ?h ?o frame = Some (64, out)"
    using new_order_codec.encode_defined [of frame] assms by simp
  note req = new_order_request [OF assms out]
  then show ?thesis using out by (simp add: encode_order_def header_status_def)
qed

lemma encode_order_client:
  assumes "length frame = 64"
  obtains out where "encode_order frame seq = Some out" and "length out = 64"
    and "\<And>rest. spec_client tok seq (out @ rest) =
           (case spec_client tok (seq + 1) rest of (outs, n, rest') \<Rightarrow>
              (Forward ((default :: EngineCommand)\<lparr>EngineCommand.session := tok, request_sequence := seq,
                 EngineCommand.client_order_id := seq, EngineCommand.price := 10000, EngineCommand.quantity := 1\<rparr>) # outs,
               n, rest'))"
proof -
  obtain out m where out: "encode_order frame seq = Some out" "length out = 64"
    and m: "m = (default :: DecodedMessage)\<lparr>
       header := stamp MessageType.NewOrder ((default :: MessageHeader)\<lparr>sequence_number := seq, MessageHeader.session_id := 1\<rparr>),
       DecodedMessage.type := MessageType.NewOrder,
       new_order := (default :: NewOrder)\<lparr>NewOrder.client_order_id := seq, NewOrder.side := Side.Buy,
         NewOrder.price := 10000, NewOrder.quantity := 1\<rparr>\<rparr>"
    and req: "spec_request out default = Some m"
    using encode_order_frame [OF assms, of seq] by blast
  have parse: "spec_parse (out @ rest) default = (Status.MessageReady, m, rest)" for rest
    using out(2) req by (simp add: spec_parse_def)
  have rule: "gateway_rule tok seq m = (Forward ((default :: EngineCommand)\<lparr>EngineCommand.session := tok, request_sequence := seq,
      EngineCommand.client_order_id := seq, EngineCommand.price := 10000, EngineCommand.quantity := 1\<rparr>), seq + 1, True)"
    by (simp add: m gateway_rule_def command_of_def stamp_def Let_def)
  show thesis
    by (rule that [OF out]) (subst spec_client.simps, simp add: parse rule)
qed

text \<open>The stream of the send loop: how many frames it hands over, how it ends, and what the gateway's rules make of it.\<close>

abbreviation buy_order :: "SessionToken \<Rightarrow> u64 \<Rightarrow> EngineCommand" where
  "buy_order tok seq \<equiv> (default :: EngineCommand)\<lparr>EngineCommand.session := tok, request_sequence := seq,
     EngineCommand.client_order_id := seq, EngineCommand.price := 10000, EngineCommand.quantity := 1\<rparr>"

lemma send_orders_stream:
  assumes "length frame = 64" and "replies_fit net"
  shows "\<exists>frames out. send_orders n net frame seq = Some (frames, out) \<and>
     (case first_stop net n of
        None \<Rightarrow> length frames = n \<and> (\<exists>frame'. length frame' = 64 \<and> out = Inr (frame', seq + of_nat n))
      | Some k \<Rightarrow> k < n \<and> length frames = Suc k \<and> (\<exists>st. stops (net k) = Some st \<and> out = Inl st)) \<and>
     (\<forall>x \<in> set frames. length x = kFrameSize) \<and>
     spec_client tok seq (concat frames) =
       (map (\<lambda>k. Forward (buy_order tok (seq + of_nat k))) [0..<length frames], seq + of_nat (length frames), [])"
  using assms
proof (induction n arbitrary: frame seq net)
  case 0
  then show ?case by (simp add: spec_client.simps [of _ _ "[]"] spec_parse_def)
next
  case (Suc n)
  obtain out where out: "encode_order frame seq = Some out" "length out = 64"
    "\<And>rest. spec_client tok seq (out @ rest) =
           (case spec_client tok (seq + 1) rest of (outs, n, rest') \<Rightarrow> (Forward (buy_order tok seq) # outs, n, rest'))"
    using encode_order_client [OF Suc.prems(1), of seq tok] by blast
  have shift: "map (\<lambda>k. Forward (buy_order tok (seq + of_nat k))) [0..<Suc m] =
      Forward (buy_order tok seq) # map (\<lambda>k. Forward (buy_order tok (seq + 1 + of_nat k))) [0..<m]" for m
    by (simp add: upt_conv_Cons map_Suc_upt [symmetric] comp_def add.assoc del: upt_Suc)
  show ?case
  proof (rule send_recv_cases [OF out(2) Suc.prems(2), of 0], goal_cases stopped reply)
    case (stopped st)
    have "spec_client tok seq (concat [out]) = ([Forward (buy_order tok seq)], seq + 1, [])"
      using out(3) [of "[]"] by (simp add: spec_client.simps [of _ _ "[]"] spec_parse_def)
    then show ?thesis using stopped out(1,2) by (intro exI [of _ "[out]"] exI [of _ "Inl st"]) (simp add: first_stop_Suc)
  next
    case (reply frame')
    obtain frames r where ih: "send_orders n (\<lambda>k. net (Suc k)) frame' (seq + 1) = Some (frames, r)"
      "case first_stop (\<lambda>k. net (Suc k)) n of
          None \<Rightarrow> length frames = n \<and> (\<exists>frame'. length frame' = 64 \<and> r = Inr (frame', seq + 1 + of_nat n))
        | Some k \<Rightarrow> k < n \<and> length frames = Suc k \<and> (\<exists>st. stops (net (Suc k)) = Some st \<and> r = Inl st)"
      "\<forall>x \<in> set frames. length x = kFrameSize"
      "spec_client tok (seq + 1) (concat frames) =
         (map (\<lambda>k. Forward (buy_order tok (seq + 1 + of_nat k))) [0..<length frames], seq + 1 + of_nat (length frames), [])"
      using Suc.IH [OF reply(3) replies_fit_shift(2) [OF Suc.prems(2)], of "seq + 1"] by auto
    have "send_orders (Suc n) net frame seq = Some (out # frames, r)" using out(1) reply(2) ih(1) by simp
    moreover have "case first_stop net (Suc n) of
        None \<Rightarrow> length (out # frames) = Suc n \<and> (\<exists>frame'. length frame' = 64 \<and> r = Inr (frame', seq + of_nat (Suc n)))
      | Some k \<Rightarrow> k < Suc n \<and> length (out # frames) = Suc k \<and> (\<exists>st. stops (net k) = Some st \<and> r = Inl st)"
      using ih(2) reply(1) by (auto simp: first_stop_Suc add.assoc split: option.splits)
    moreover have "spec_client tok seq (concat (out # frames)) =
        (map (\<lambda>k. Forward (buy_order tok (seq + of_nat k))) [0..<length (out # frames)], seq + of_nat (length (out # frames)), [])"
      unfolding list.size(4) Suc_eq_plus1 [symmetric] add_0_right add_Suc_right shift
      using out(3) [of "concat frames"] ih(4) by (simp add: add.assoc)
    ultimately show ?thesis using ih(3) out(2) by (intro exI [of _ "out # frames"] exI [of _ r]) simp
  qed
qed

lemma sum_upto_word: "checksum (map of_nat [1..<Suc n]) = of_nat (n * (n + 1) div 2)"
proof -
  have "foldl (\<lambda>c v. c + v) (0 :: u64) (map of_nat [1..<Suc n]) = of_nat (n * (n + 1) div 2)"
  proof (induction n)
    case (Suc n)
    have "Suc n * (Suc n + 1) div 2 = n * (n + 1) div 2 + Suc n" by simp
    then have "(of_nat (Suc n * (Suc n + 1) div 2) :: u64) = of_nat (n * (n + 1) div 2) + of_nat (Suc n)"
      by (simp only: of_nat_add)
    moreover have "[1..<Suc (Suc n)] = [1..<Suc n] @ [Suc n]" by simp
    ultimately show ?case using Suc.IH by (simp only: map_append list.map foldl_append foldl.simps)
  qed simp
  then show ?thesis by (simp only: checksum_def)
qed

section \<open>Properties\<close>

text \<open>
  C38. The benchmark client speaks the gateway's protocol. Whatever it receives into its frame buffer, short replies included,
  its loop hands one 64-byte frame per message to \<^verbatim>\<open>send\<close>, all \<open>n\<close> of them or, if it is killed or blocks inside an exchange, those up to and
  including that one. The gateway's rules accept the whole stream: a
  connection that expects the client's first sequence number forwards a buy order for each frame, with the
  sequence number as order id, in order, rejects none of them and is left with no unconsumed byte.
\<close>

theorem benchmark_client_accepted:
  assumes "length frame = 64" and "\<forall>k received. snd (net k) = Some received \<longrightarrow> length received \<le> kFrameSize"
  shows "\<exists>frames out. send_orders n net frame seq = Some (frames, out) \<and>
           (case first_stop net n of
              None \<Rightarrow> length frames = n \<and> (\<exists>frame'. out = Inr (frame', seq + of_nat n))
            | Some k \<Rightarrow> length frames = Suc k \<and> (\<exists>st. stops (net k) = Some st \<and> out = Inl st)) \<and>
           (\<forall>x \<in> set frames. length x = kFrameSize) \<and>
           spec_client tok seq (concat frames) =
             (map (\<lambda>k. Forward ((default :: EngineCommand)\<lparr>EngineCommand.session := tok, request_sequence := seq + of_nat k,
                EngineCommand.client_order_id := seq + of_nat k, EngineCommand.price := 10000, EngineCommand.quantity := 1\<rparr>)) [0..<length frames],
              seq + of_nat (length frames), [])"
proof -
  obtain frames out where r: "send_orders n net frame seq = Some (frames, out)"
    "case first_stop net n of
       None \<Rightarrow> length frames = n \<and> (\<exists>frame'. length frame' = 64 \<and> out = Inr (frame', seq + of_nat n))
     | Some k \<Rightarrow> k < n \<and> length frames = Suc k \<and> (\<exists>st. stops (net k) = Some st \<and> out = Inl st)"
    "\<forall>x \<in> set frames. length x = kFrameSize"
    "spec_client tok seq (concat frames) =
       (map (\<lambda>k. Forward (buy_order tok (seq + of_nat k))) [0..<length frames], seq + of_nat (length frames), [])"
    using send_orders_stream [OF assms(1)] assms(2) unfolding replies_fit_def by blast
  have "case first_stop net n of
      None \<Rightarrow> length frames = n \<and> (\<exists>frame'. out = Inr (frame', seq + of_nat n))
    | Some k \<Rightarrow> length frames = Suc k \<and> (\<exists>st. stops (net k) = Some st \<and> out = Inl st)"
    using r(2) by (auto split: option.splits)
  then show ?thesis using r(1,3,4) by blast
qed

theorem benchmark_client_accepted_witness:
  "(\<exists>frames frame'. send_orders 3 (\<lambda>_. (Sent, Some (replicate 64 1))) (replicate 64 0) 1 = Some (frames, Inr (frame', 4)) \<and> length frames = 3) \<and>
   (\<exists>frames. send_orders 3 (\<lambda>k. if k = 1 then (Broken_Pipe, None) else (Sent, Some [])) (replicate 64 0) 1 = Some (frames, Inl Killed) \<and>
      length frames = 2)"
proof -
  let ?net = "\<lambda>k :: nat. (Sent, Some (replicate 64 (1 :: byte)))"
  let ?net' = "\<lambda>k :: nat. if k = 1 then (Broken_Pipe, None) else (Sent, Some ([] :: span))"
  have frame: "length (replicate 64 (0 :: byte)) = 64" by simp
  have fit: "\<forall>k received. snd (?net k) = Some received \<longrightarrow> length received \<le> kFrameSize"
    "\<forall>k received. snd (?net' k) = Some received \<longrightarrow> length received \<le> kFrameSize" by auto
  have "first_stop ?net 3 = None" "first_stop ?net' 3 = Some 1" by (simp_all add: first_stop_def upt_rec)
  then show ?thesis
    using benchmark_client_accepted [OF frame fit(1), of 3 1 default] benchmark_client_accepted [OF frame fit(2), of 3 1 default] by auto
qed

text \<open>
  The queue benchmark accepts a correct run below \<open>2 ^ 32\<close> messages: when the producer has pushed
  \<open>1, \<dots>, n\<close> through the cached-index queue, in any interleaving with the consumer, and the consumer has
  popped \<open>n\<close> elements, its checksum equals the expected value of the program.
\<close>

theorem benchmark_checksum_ok:
  assumes "ring_static_assert Capacity"
    and "reachable (v3_producer Capacity) (v3_consumer Capacity) (system_init (memory_init Capacity) (PushIdle, 0) (PopIdle, 0)) s"
    and "accepted s = map of_nat [1..<Suc n]" and "length (delivered s) = n" and "n < 2 ^ 32"
  shows "checksum (delivered s) = expected_checksum (of_nat n)"
proof -
  obtain rest where rest: "accepted s = delivered s @ rest"
    using v3_protocol.reachable_safe [OF assms(1,2)] by blast
  moreover have "length (accepted s) = n" using assms(3) by (simp del: upt_Suc)
  ultimately have "length rest = 0" using assms(4) by simp
  then have d: "delivered s = map of_nat [1..<Suc n]" using rest assms(3) by (simp del: upt_Suc)
  have "n * (n + 1) < 2 ^ 64"
  proof -
    have "n * (n + 1) \<le> (2 ^ 32 - 1) * 2 ^ 32" using assms(5) by (intro mult_le_mono) auto
    then show ?thesis by simp
  qed
  moreover have "n < 2 ^ 64" using assms(5) by simp
  ultimately have "unat (expected_checksum (of_nat n)) = n * (n + 1) div 2"
    by (simp add: expected_checksum_def unat_div unat_word_ariths unat_of_nat mod_simps)
  moreover have "unat (of_nat (n * (n + 1) div 2) :: u64) = n * (n + 1) div 2"
    using \<open>n * (n + 1) < 2 ^ 64\<close> by (simp add: unat_of_nat)
  ultimately show ?thesis unfolding d sum_upto_word by (simp add: word_unat_eq_iff)
qed

theorem benchmark_checksum_ok_witness:
  "\<exists>s. reachable (v3_producer 2) (v3_consumer 2) (system_init (memory_init 2) (PushIdle, 0) (PopIdle, 0)) s \<and>
     delivered s = [1] \<and> checksum (delivered s) = expected_checksum 1"
proof -
  have a: "ring_static_assert 2" by (simp add: ring_static_assert_def is_power_of_two_def)
  let ?run = "run_schedule (v3_producer 2) (v3_consumer 2) (system_init (memory_init 2) (PushIdle, 0) (PopIdle, 0))
    [(Producer, 0, 1 :: u64), (Producer, 0, 0), (Producer, 0, 0), (Consumer, 0, 0), (Consumer, 1, 0), (Consumer, 0, 0), (Consumer, 0, 0)]"
  obtain s where s: "?run = Some s"
    and r: "reachable (v3_producer 2) (v3_consumer 2) (system_init (memory_init 2) (PushIdle, 0) (PopIdle, 0)) s"
    using v3_protocol.schedule_safe [OF a] by blast
  have "map_option (\<lambda>s. (accepted s, delivered s)) ?run = Some ([1], [1])" by code_simp
  then have d: "accepted s = [1]" "delivered s = [1]" using s by auto
  then show ?thesis using benchmark_checksum_ok [OF a r, of 1] r by auto
qed

text \<open>
  At \<open>2 ^ 32\<close> messages the expected value is wrong: the product \<open>n * (n + 1)\<close> wraps before
  it is halved, so for \<open>n = 2 ^ 32\<close> a run that delivers \<open>1, \<dots>, n\<close> correctly is reported as bad.
\<close>

theorem benchmark_checksum_wraps:
  "checksum (map of_nat [1..<Suc (2 ^ 32)]) \<noteq> expected_checksum (2 ^ 32)"
  unfolding sum_upto_word by (simp add: expected_checksum_def word_unat_eq_iff unat_div unat_word_ariths)

end
