(* ===== verification/Queue_Benchmark.thy ===== *)
theory Queue_Benchmark
  imports Benchmarks
begin

text \<open>
  \<^verbatim>\<open>run_benchmark\<close> and \<^verbatim>\<open>main\<close> of \<^verbatim>\<open>test.cpp\<close>: a producer thread that pushes \<open>1, \<dots>, total\<close> with a retry loop, a
  consumer thread that pops and sums until it has \<open>total\<close> elements, and the main thread that starts
  and joins them, over any of the five queue classes. The queue is a pair of programs for its \<^verbatim>\<open>push\<close>
  and \<^verbatim>\<open>pop\<close> calls, one access per step, as in \<open>Memory_Model\<close>; the locale \<open>benchmark_queue\<close> says what the benchmark
  relies on, and every class is an interpretation.
\<close>

section \<open>The threads\<close>

type_synonym ('l, 'm) call = "nat \<Rightarrow> u64 \<Rightarrow> 'l \<Rightarrow> 'm \<Rightarrow> ('l \<times> 'm \<times> (u64 \<times> bool) option) option"

datatype producer_at = Producer_Waiting | Pushing u64 | Producer_Done

datatype consumer_at = Consumer_Waiting | Counting u64 u64 | Consumer_Done u64

datatype bench_at = Starting | Joining_Producer | Joining_Consumer | Reported bool

record ('p, 'c, 'm) bench =
  queue :: 'm
  push_call :: 'p
  pop_call :: 'c
  started :: bool
  producer_thread :: producer_at
  consumer_thread :: consumer_at
  bench_thread :: bench_at

definition bench_init :: "'p \<Rightarrow> 'c \<Rightarrow> 'm \<Rightarrow> ('p, 'c, 'm) bench" where
  "bench_init p c m =
     \<lparr>queue = m, push_call = p, pop_call = c, started = False, producer_thread = Producer_Waiting,
      consumer_thread = Consumer_Waiting, bench_thread = Starting\<rparr>"

text \<open>The loop conditions of the two threads.\<close>

definition producer_loop :: "u64 \<Rightarrow> u64 \<Rightarrow> producer_at" where
  "producer_loop n value = (if value \<le> n then Pushing value else Producer_Done)"

definition consumer_loop :: "u64 \<Rightarrow> u64 \<Rightarrow> u64 \<Rightarrow> consumer_at" where
  "consumer_loop n count csum = (if count < n then Counting count csum else Consumer_Done csum)"

text \<open>
  A step of each thread; \<open>k\<close> chooses the store that a load reads. The flag \<^verbatim>\<open>start\<close> has two stores, and
  \<open>k = 0\<close> reads the older one. A call that returns \<^verbatim>\<open>false\<close> is made again with the same argument.
\<close>

definition producer_step :: "('p, 'm) call \<Rightarrow> u64 \<Rightarrow> nat \<Rightarrow> ('p, 'c, 'm) bench \<Rightarrow> ('p, 'c, 'm) bench option" where
  "producer_step P n k s =
     (case producer_thread s of
        Producer_Waiting \<Rightarrow> Some (if started s \<and> 0 < k then s\<lparr>producer_thread := producer_loop n 1\<rparr> else s)
      | Pushing value \<Rightarrow> do {
          (p, m, res) \<leftarrow> P k value (push_call s) (queue s);
          Some (s\<lparr>push_call := p, queue := m, producer_thread :=
            (case res of Some (_, True) \<Rightarrow> producer_loop n (value + 1) | _ \<Rightarrow> Pushing value)\<rparr>)
        }
      | Producer_Done \<Rightarrow> Some s)"

definition consumer_step :: "('c, 'm) call \<Rightarrow> u64 \<Rightarrow> nat \<Rightarrow> ('p, 'c, 'm) bench \<Rightarrow> ('p, 'c, 'm) bench option" where
  "consumer_step C n k s =
     (case consumer_thread s of
        Consumer_Waiting \<Rightarrow> Some (if started s \<and> 0 < k then s\<lparr>consumer_thread := consumer_loop n 0 0\<rparr> else s)
      | Counting count csum \<Rightarrow> do {
          (c, m, res) \<leftarrow> C k 0 (pop_call s) (queue s);
          Some (s\<lparr>pop_call := c, queue := m, consumer_thread :=
            (case res of Some (value, True) \<Rightarrow> consumer_loop n (count + 1) (csum + value) | _ \<Rightarrow> Counting count csum)\<rparr>)
        }
      | Consumer_Done _ \<Rightarrow> Some s)"

text \<open>The main thread; the verdict is whether the checksum equals the expected value.\<close>

definition bench_step :: "u64 \<Rightarrow> ('p, 'c, 'm) bench \<Rightarrow> ('p, 'c, 'm) bench" where
  "bench_step n s =
     (case bench_thread s of
        Starting \<Rightarrow> s\<lparr>started := True, bench_thread := Joining_Producer\<rparr>
      | Joining_Producer \<Rightarrow> if producer_thread s = Producer_Done then s\<lparr>bench_thread := Joining_Consumer\<rparr> else s
      | Joining_Consumer \<Rightarrow>
          (case consumer_thread s of
             Consumer_Done csum \<Rightarrow> s\<lparr>bench_thread := Reported (csum = expected_checksum n)\<rparr>
           | _ \<Rightarrow> s)
      | Reported _ \<Rightarrow> s)"

datatype bench_actor = Main_Thread | Producer_Thread nat | Consumer_Thread nat

fun run_benchmark ::
  "('p, 'm) call \<Rightarrow> ('c, 'm) call \<Rightarrow> u64 \<Rightarrow> bench_actor list \<Rightarrow> ('p, 'c, 'm) bench \<Rightarrow> ('p, 'c, 'm) bench option" where
  "run_benchmark P C n [] s = Some s"
| "run_benchmark P C n (Main_Thread # as) s = run_benchmark P C n as (bench_step n s)"
| "run_benchmark P C n (Producer_Thread k # as) s = do { s \<leftarrow> producer_step P n k s; run_benchmark P C n as s }"
| "run_benchmark P C n (Consumer_Thread k # as) s = do { s \<leftarrow> consumer_step C n k s; run_benchmark P C n as s }"

section \<open>main\<close>

text \<open>
  \<^verbatim>\<open>std::strtoull\<close> in base 10: blanks, an optional sign, digits. A value above the range gives the largest
  number, and a minus sign negates in 64 bits.
\<close>

definition strtoull :: "string \<Rightarrow> u64" where
  "strtoull str =
     (let s = dropWhile is_space str;
          value = (\<lambda>ds. let v = digits_value 0 ds in if v < 2 ^ 64 then of_int v else - 1)
      in case s of
           [] \<Rightarrow> 0
         | c # cs \<Rightarrow>
             if c = CHR ''-''
             then (if digits_value 0 cs < 2 ^ 64 then - value cs else - 1)
             else if c = CHR ''+'' then value cs else value s)"

text \<open>The arguments after the program name; the result is the list of queues that are run, and \<^verbatim>\<open>total\<close>.\<close>

datatype queue_class = Mutex | AtomicV1 | AtomicV2 | AtomicV3 | AtomicV4

definition k_capacity :: size_t where
  "k_capacity = 1024"

definition benchmark_main :: "string list \<Rightarrow> queue_class list \<times> u64" where
  "benchmark_main args =
     (let mode = (case args of m # _ \<Rightarrow> m | [] \<Rightarrow> ''all'');
          n = (case args of _ # t # _ \<Rightarrow> strtoull t | _ \<Rightarrow> 20000000)
      in (concat
           [if mode = ''mutex'' \<or> mode = ''all'' then [Mutex] else [],
            if mode = ''atomicv1'' \<or> mode = ''all'' then [AtomicV1] else [],
            if mode = ''atomicv2'' \<or> mode = ''all'' then [AtomicV2] else [],
            if mode = ''atomicv3'' \<or> mode = ''all'' then [AtomicV3] else [],
            if mode = ''atomicv4'' \<or> mode = ''all'' then [AtomicV4] else []], n))"

text \<open>The mutex queue: \<^verbatim>\<open>std::lock_guard\<close> makes a call one step.\<close>

definition mutex_producer :: "(unit, u64 SpscRingBufferMutex) call" where
  "mutex_producer k value _ q = do { (ok, q) \<leftarrow> mutex_push k_capacity q value; Some ((), q, Some (value, ok)) }"

definition mutex_consumer :: "(unit, u64 SpscRingBufferMutex) call" where
  "mutex_consumer k out _ q = do { (ok, out, q) \<leftarrow> mutex_pop k_capacity q out; Some ((), q, Some (out, ok)) }"

section \<open>What the benchmark relies on\<close>

text \<open>
  The invariant of a queue relates its state to the elements accepted so far and the number of those
  delivered. A refusal of a call that has seen the newest stores is exact, a call ends after at most \<open>L\<close> of its
  own steps, and its element is the argument it was begun with.
\<close>

definition numbered :: "u64 list \<Rightarrow> bool" where
  "numbered acc \<longleftrightarrow> acc = map of_nat [1..<Suc (length acc)]"

lemma numbered_Nil [simp]: "numbered []"
  by (simp add: numbered_def)

lemma numbered_snoc: "numbered acc \<Longrightarrow> numbered (acc @ [of_nat (Suc (length acc))])"
proof -
  assume "numbered acc"
  moreover have "[1..<Suc (Suc (length acc))] = [1..<Suc (length acc)] @ [Suc (length acc)]" by simp
  ultimately show ?thesis unfolding numbered_def by (metis length_append_singleton list.map(1,2) map_append)
qed

locale benchmark_queue =
  fixes P :: "('p, 'm) call" and C :: "('c, 'm) call" and p0 :: 'p and c0 :: 'c and m0 :: 'm
    and bound L :: nat and inv :: "'m \<Rightarrow> 'p \<Rightarrow> 'c \<Rightarrow> u64 list \<Rightarrow> nat \<Rightarrow> bool"
    and arg :: "'p \<Rightarrow> u64 option" and p_rank :: "'p \<Rightarrow> nat" and c_rank :: "'c \<Rightarrow> nat" and valid :: bool
  assumes start: "valid \<Longrightarrow> inv m0 p0 c0 [] 0 \<and> arg p0 = None \<and> 0 < bound \<and> p_rank p0 = L \<and> c_rank c0 = L"
    and counts: "inv m p c acc n \<Longrightarrow> n \<le> length acc"
    and push: "inv m p c acc n \<Longrightarrow> \<exists>p' m' res. P k v p m = Some (p', m', res) \<and>
      inv m' p' c (acc @ (case res of Some (x, True) \<Rightarrow> [x] | _ \<Rightarrow> [])) n"
    and push_arg: "P k v p m = Some (p', m', res) \<Longrightarrow>
      (case res of None \<Rightarrow> arg p' = Some (case arg p of None \<Rightarrow> v | Some x \<Rightarrow> x)
       | Some (x, _) \<Rightarrow> arg p' = None \<and> x = (case arg p of None \<Rightarrow> v | Some x \<Rightarrow> x))"
    and push_refused: "inv m p c acc n \<Longrightarrow> P k v p m = Some (p', m', Some (x, False)) \<Longrightarrow> n \<le> k \<Longrightarrow> length acc = n + bound"
    and push_rank: "P k v p m = Some (p', m', res) \<Longrightarrow> if res = None then p_rank p' < p_rank p else p_rank p' = L"
    and pop: "inv m p c acc n \<Longrightarrow> \<exists>c' m' res n'. C k out c m = Some (c', m', res) \<and> inv m' p c' acc n' \<and>
      (if \<exists>x. res = Some (x, True) then n < length acc \<and> n' = Suc n \<and> res = Some (acc ! n, True) else n' = n)"
    and pop_refused: "inv m p c acc n \<Longrightarrow> C k out c m = Some (c', m', Some (x, False)) \<Longrightarrow> length acc \<le> k \<Longrightarrow> n = length acc"
    and pop_rank: "C k out c m = Some (c', m', res) \<Longrightarrow> if res = None then c_rank c' < c_rank c else c_rank c' = L"
begin

text \<open>The producer has pushed \<open>1, 2, \<dots>\<close>, and the consumer has the sum of the first \<open>n\<close> of them.\<close>

definition producer_inv :: "u64 \<Rightarrow> producer_at \<Rightarrow> 'p \<Rightarrow> u64 list \<Rightarrow> bool" where
  "producer_inv N at p acc \<longleftrightarrow> numbered acc \<and>
     (case at of
        Producer_Waiting \<Rightarrow> acc = [] \<and> arg p = None
      | Pushing v \<Rightarrow> v = of_nat (Suc (length acc)) \<and> v \<le> N \<and> (\<forall>x. arg p = Some x \<longrightarrow> x = v) \<and>
          (N < - 1 \<longrightarrow> length acc < unat N)
      | Producer_Done \<Rightarrow> arg p = None \<and> (N < - 1 \<longrightarrow> length acc = unat N) \<and> N < - 1)"

definition consumer_inv :: "u64 \<Rightarrow> consumer_at \<Rightarrow> u64 list \<Rightarrow> nat \<Rightarrow> bool" where
  "consumer_inv N at acc n \<longleftrightarrow>
     (case at of
        Consumer_Waiting \<Rightarrow> n = 0
      | Counting count csum \<Rightarrow> count = of_nat n \<and> n < unat N \<and> csum = checksum (take n acc)
      | Consumer_Done csum \<Rightarrow> n = unat N \<and> csum = checksum (take n acc))"

definition bench_inv :: "u64 \<Rightarrow> ('p, 'c, 'm) bench \<Rightarrow> u64 list \<Rightarrow> nat \<Rightarrow> bool" where
  "bench_inv N s acc n \<longleftrightarrow> inv (queue s) (push_call s) (pop_call s) acc n \<and>
     producer_inv N (producer_thread s) (push_call s) acc \<and> consumer_inv N (consumer_thread s) acc n \<and>
     p_rank (push_call s) \<le> L \<and> c_rank (pop_call s) \<le> L \<and> (bench_thread s \<noteq> Starting \<longrightarrow> started s) \<and>
     (case bench_thread s of
        Starting \<Rightarrow> True
      | Joining_Producer \<Rightarrow> True
      | Joining_Consumer \<Rightarrow> producer_thread s = Producer_Done
      | Reported ok \<Rightarrow> producer_thread s = Producer_Done \<and>
          (\<exists>csum. consumer_thread s = Consumer_Done csum \<and> ok = (csum = expected_checksum N)))"

lemma producer_loop_inv:
  assumes acc: "numbered acc" and "arg p = None"
    and le: "N < - 1 \<Longrightarrow> length acc \<le> unat N" 
  shows "producer_inv N (producer_loop N (of_nat (Suc (length acc)))) p acc"
proof (cases "N < - 1")
  case True
  have "unat (- 1 :: u64) = 18446744073709551615" by (simp add: unsigned_minus_1_eq_mask mask_eq_exp_minus_1)
  moreover have "unat N < unat (- 1 :: u64)" using True by (simp only: word_less_nat_alt)
  ultimately have "Suc (length acc) < 18446744073709551616" using le [OF True] by linarith
  then have small: "Suc (length acc) < 2 ^ 64" by simp
  then have "(of_nat (Suc (length acc)) :: u64) \<le> N \<longleftrightarrow> Suc (length acc) \<le> unat N"
    by (simp add: word_le_nat_alt unat_of_nat del: of_nat_Suc)
  then show ?thesis using assms True le [OF True]
    by (auto simp: producer_inv_def producer_loop_def simp del: of_nat_Suc upt_Suc)
next
  case False
  then have "N = - 1" by (metis word_order.not_eq_extremum)
  then show ?thesis using assms by (auto simp: producer_inv_def producer_loop_def simp del: of_nat_Suc upt_Suc)
qed

lemma pushing_step:
  assumes inv: "bench_inv N s acc n" and at: "producer_thread s = Pushing v"
  shows "\<exists>s' acc'. producer_step P N k s = Some s' \<and> bench_inv N s' acc' n \<and>
           started s' = started s \<and> bench_thread s' = bench_thread s \<and> consumer_thread s' = consumer_thread s \<and>
           (acc' = acc @ [v] \<and> producer_thread s' = producer_loop N (v + 1) \<or>
            acc' = acc \<and> producer_thread s' = Pushing v \<and>
              (p_rank (push_call s') < p_rank (push_call s) \<or> (n \<le> k \<longrightarrow> length acc = n + bound)))"
proof -
  have qi: "inv (queue s) (push_call s) (pop_call s) acc n" and ci: "consumer_inv N (consumer_thread s) acc n"
    using inv by (auto simp: bench_inv_def)
  obtain p m res where st: "P k v (push_call s) (queue s) = Some (p, m, res)"
    and qi': "inv m p (pop_call s) (acc @ (case res of Some (x, True) \<Rightarrow> [x] | _ \<Rightarrow> [])) n"
    using push [OF qi, of k v] by blast
  have v: "v = of_nat (Suc (length acc))" "v \<le> N" "\<forall>x. arg (push_call s) = Some x \<longrightarrow> x = v"
    "N < - 1 \<longrightarrow> length acc < unat N" "numbered acc"
    using inv at by (auto simp: bench_inv_def producer_inv_def)
  have a: "case res of None \<Rightarrow> arg p = Some v | Some (x, _) \<Rightarrow> arg p = None \<and> x = v"
    using push_arg [OF st] v(3) by (auto split: option.splits)
  let ?acc = "acc @ (case res of Some (x, True) \<Rightarrow> [x] | _ \<Rightarrow> [])"
  let ?at = "case res of Some (_, True) \<Rightarrow> producer_loop N (v + 1) | _ \<Rightarrow> Pushing v"
  let ?s = "s\<lparr>push_call := p, queue := m, producer_thread := ?at\<rparr>"
  have step: "producer_step P N k s = Some ?s" using st at by (simp add: producer_step_def)
  have "producer_inv N ?at p ?acc"
  proof (cases "\<exists>x. res = Some (x, True)")
    case True
    then have res: "res = Some (v, True)" "arg p = None" using a by auto
    have "numbered ?acc" using numbered_snoc [OF v(5)] res v(1) by simp
    moreover have "N < - 1 \<Longrightarrow> length ?acc \<le> unat N" using res v(4) by simp
    moreover have "of_nat (Suc (length ?acc)) = v + 1" using res v(1) by simp
    ultimately have "producer_inv N (producer_loop N (v + 1)) p ?acc"
      using producer_loop_inv [of ?acc p N] res(2) by metis
    then show ?thesis using res(1) by simp
  next
    case False
    then show ?thesis using a v by (auto simp: producer_inv_def split: option.splits bool.splits)
  qed
  moreover have "consumer_inv N (consumer_thread s) ?acc n"
    using ci counts [OF qi] by (auto simp: consumer_inv_def split: consumer_at.splits)
  moreover have "p_rank p \<le> L" using push_rank [OF st] inv by (auto simp: bench_inv_def split: if_splits)
  moreover have "bench_thread s = Starting \<or> bench_thread s = Joining_Producer"
    using inv at by (auto simp: bench_inv_def split: bench_at.splits)
  ultimately have inv': "bench_inv N ?s ?acc n" using inv qi' by (auto simp: bench_inv_def)
  have "?acc = acc @ [v] \<and> ?at = producer_loop N (v + 1) \<or>
      ?acc = acc \<and> ?at = Pushing v \<and> (p_rank p < p_rank (push_call s) \<or> (n \<le> k \<longrightarrow> length acc = n + bound))"
  proof (cases res)
    case None
    then show ?thesis using push_rank [OF st] by simp
  next
    case (Some r)
    obtain x b where r: "r = (x, b)" by (cases r)
    then show ?thesis using Some a st by (cases b) (auto dest: push_refused [OF qi])
  qed
  then show ?thesis using step inv' by (intro exI [of _ ?s] exI [of _ ?acc]) simp
qed

lemma producer_step_inv:
  assumes inv: "bench_inv N s acc n"
  shows "\<exists>s' acc'. producer_step P N k s = Some s' \<and> bench_inv N s' acc' n"
proof (cases "producer_thread s")
  case Producer_Waiting
  then have "acc = []" "arg (push_call s) = None" using inv by (auto simp: bench_inv_def producer_inv_def)
  then have "producer_inv N (producer_loop N 1) (push_call s) acc"
    using producer_loop_inv [of acc "push_call s" N] by simp
  then show ?thesis using inv Producer_Waiting
    by (auto simp: producer_step_def bench_inv_def split: bench_at.splits intro!: exI [of _ acc])
next
  case (Pushing v)
  then show ?thesis using pushing_step [OF inv] by blast
next
  case Producer_Done
  then show ?thesis using inv by (auto simp: producer_step_def)
qed

lemma consumer_loop_inv:
  assumes "n \<le> unat N" and "n \<le> length acc"
  shows "consumer_inv N (consumer_loop N (of_nat n) (checksum (take n acc))) acc n"
proof -
  have "n < 2 ^ 64" using assms(1) unsigned_less [of N, where ?'a = nat] by simp
  then have "(of_nat n :: u64) < N \<longleftrightarrow> n < unat N" by (simp add: word_less_nat_alt unat_of_nat)
  then show ?thesis using assms by (auto simp: consumer_inv_def consumer_loop_def)
qed

lemma counting_step:
  assumes inv: "bench_inv N s acc n" and at: "consumer_thread s = Counting count csum"
  shows "\<exists>s' n'. consumer_step C N k s = Some s' \<and> bench_inv N s' acc n' \<and>
           started s' = started s \<and> bench_thread s' = bench_thread s \<and> producer_thread s' = producer_thread s \<and>
           (n' = Suc n \<and> consumer_thread s' \<noteq> Consumer_Waiting \<or>
            n' = n \<and> consumer_thread s' = Counting count csum \<and>
              (c_rank (pop_call s') < c_rank (pop_call s) \<or> (length acc \<le> k \<longrightarrow> n = length acc)))"
proof -
  have qi: "inv (queue s) (push_call s) (pop_call s) acc n" using inv by (auto simp: bench_inv_def)
  obtain c m res n' where st: "C k 0 (pop_call s) (queue s) = Some (c, m, res)" and qi': "inv m (push_call s) c acc n'"
    and n': "if \<exists>x. res = Some (x, True) then n < length acc \<and> n' = Suc n \<and> res = Some (acc ! n, True) else n' = n"
    using pop [OF qi, of k 0] by blast
  have cc: "count = of_nat n" "n < unat N" "csum = checksum (take n acc)" using inv at by (auto simp: bench_inv_def consumer_inv_def)
  let ?at = "case res of Some (value, True) \<Rightarrow> consumer_loop N (count + 1) (csum + value) | _ \<Rightarrow> Counting count csum"
  let ?s = "s\<lparr>pop_call := c, queue := m, consumer_thread := ?at\<rparr>"
  have step: "consumer_step C N k s = Some ?s" using st at by (simp add: consumer_step_def)
  have "consumer_inv N ?at acc n'"
  proof (cases "\<exists>x. res = Some (x, True)")
    case True
    then have r: "res = Some (acc ! n, True)" "n' = Suc n" "n < length acc" using n' by auto
    then have "checksum (take (Suc n) acc) = csum + acc ! n" using cc(3) by (simp add: checksum_def take_Suc_conv_app_nth)
    then show ?thesis using consumer_loop_inv [of "Suc n" N acc] r cc by (simp add: add.commute)
  next
    case False
    then show ?thesis using n' cc by (auto simp: consumer_inv_def split: option.splits bool.splits)
  qed
  moreover have "c_rank c \<le> L" using pop_rank [OF st] inv by (auto simp: bench_inv_def split: if_splits)
  moreover have "\<nexists>ok. bench_thread s = Reported ok" using inv at by (auto simp: bench_inv_def)
  ultimately have inv': "bench_inv N ?s acc n'" using inv qi' by (auto simp: bench_inv_def split: bench_at.splits)
  have "n' = Suc n \<and> ?at \<noteq> Consumer_Waiting \<or>
      n' = n \<and> ?at = Counting count csum \<and> (c_rank c < c_rank (pop_call s) \<or> (length acc \<le> k \<longrightarrow> n = length acc))"
  proof (cases res)
    case None
    then show ?thesis using pop_rank [OF st] n' by simp
  next
    case (Some r)
    obtain x b where r: "r = (x, b)" by (cases r)
    then show ?thesis using Some n' st by (cases b) (auto simp: consumer_loop_def dest: pop_refused [OF qi])
  qed
  then show ?thesis using step inv' by (intro exI [of _ ?s] exI [of _ n']) simp
qed

lemma consumer_step_inv:
  assumes inv: "bench_inv N s acc n"
  shows "\<exists>s' n'. consumer_step C N k s = Some s' \<and> bench_inv N s' acc n'"
proof (cases "consumer_thread s")
  case Consumer_Waiting
  then have "n = 0" using inv by (simp add: bench_inv_def consumer_inv_def)
  then have "consumer_inv N (consumer_loop N 0 0) acc n"
    using consumer_loop_inv [of 0 N acc] by (simp add: checksum_def)
  then show ?thesis using inv Consumer_Waiting
    by (auto simp: consumer_step_def bench_inv_def split: bench_at.splits intro!: exI [of _ n])
next
  case (Counting count csum)
  then show ?thesis using counting_step [OF inv] by blast
next
  case (Consumer_Done csum)
  then show ?thesis using inv by (auto simp: consumer_step_def)
qed

lemma bench_step_inv: "bench_inv N s acc n \<Longrightarrow> bench_inv N (bench_step N s) acc n"
  by (auto simp: bench_inv_def bench_step_def split: bench_at.splits consumer_at.splits)

lemma bench_run_inv:
  "bench_inv N s acc n \<Longrightarrow> \<exists>s' acc' n'. run_benchmark P C N as s = Some s' \<and> bench_inv N s' acc' n'"
proof (induction as arbitrary: s acc n)
  case (Cons a as)
  show ?case
  proof (cases a)
    case Main_Thread
    then show ?thesis using Cons.IH [OF bench_step_inv [OF Cons.prems]] by simp
  next
    case (Producer_Thread k)
    then show ?thesis using producer_step_inv [OF Cons.prems, of k] Cons.IH by fastforce
  next
    case (Consumer_Thread k)
    then show ?thesis using consumer_step_inv [OF Cons.prems, of k] Cons.IH by fastforce
  qed
qed auto

lemma bench_inv_init: "valid \<Longrightarrow> bench_inv N (bench_init p0 c0 m0) [] 0"
  using start by (simp add: bench_inv_def bench_init_def producer_inv_def consumer_inv_def)

text \<open>No run is undefined, and what is reported is the comparison of the true sum with the expected value.\<close>

lemma bench_reports:
  assumes valid
  shows "\<exists>s. run_benchmark P C N as (bench_init p0 c0 m0) = Some s \<and>
           (\<forall>ok. bench_thread s = Reported ok \<longrightarrow> N < - 1 \<and>
              ok = (checksum (map of_nat [1..<Suc (unat N)]) = expected_checksum N))"
proof -
  obtain s acc n where s: "run_benchmark P C N as (bench_init p0 c0 m0) = Some s" "bench_inv N s acc n"
    using bench_run_inv [OF bench_inv_init [OF assms]] by blast
  have "N < - 1 \<and> ok = (checksum (map of_nat [1..<Suc (unat N)]) = expected_checksum N)"
    if rep: "bench_thread s = Reported ok" for ok
  proof -
    obtain csum where c: "producer_thread s = Producer_Done" "consumer_thread s = Consumer_Done csum"
      "ok = (csum = expected_checksum N)"
      using s(2) rep by (auto simp: bench_inv_def)
    then have "N < - 1" "length acc = unat N" "numbered acc" "csum = checksum (take (unat N) acc)"
      using s(2) by (auto simp: bench_inv_def producer_inv_def consumer_inv_def)
    then show ?thesis using c(3) by (metis numbered_def order_refl take_all)
  qed
  then show ?thesis using s(1) by blast
qed

text \<open>A call that reads the newest stores succeeds within its rank, if the queue has room or an element.\<close>

lemma run_benchmark_append:
  "run_benchmark P C N (as @ bs) s = do { t \<leftarrow> run_benchmark P C N as s; run_benchmark P C N bs t }"
  by (induction P C N as s rule: run_benchmark.induct) (auto split: bind_splits)

lemma push_succeeds:
  "bench_inv N s acc n \<Longrightarrow> producer_thread s = Pushing v \<Longrightarrow> length acc < n + bound \<Longrightarrow> p_rank (push_call s) \<le> r \<Longrightarrow>
     \<exists>as s'. length as \<le> Suc r \<and> run_benchmark P C N as s = Some s' \<and> bench_inv N s' (acc @ [v]) n \<and>
       started s' = started s \<and> bench_thread s' = bench_thread s \<and> consumer_thread s' = consumer_thread s \<and>
       producer_thread s' = producer_loop N (v + 1)"
proof (induction r arbitrary: s rule: less_induct)
  case (less r)
  obtain s' acc' where s': "producer_step P N n s = Some s'" "bench_inv N s' acc' n"
    "started s' = started s" "bench_thread s' = bench_thread s" "consumer_thread s' = consumer_thread s"
    "acc' = acc @ [v] \<and> producer_thread s' = producer_loop N (v + 1) \<or>
     acc' = acc \<and> producer_thread s' = Pushing v \<and>
       (p_rank (push_call s') < p_rank (push_call s) \<or> (n \<le> n \<longrightarrow> length acc = n + bound))"
    using pushing_step [OF less.prems(1,2), of n] by blast
  show ?case
  proof (cases "acc' = acc @ [v]")
    case True
    then have "producer_thread s' = producer_loop N (v + 1)" using s'(6) by auto
    then show ?thesis using s' True by (intro exI [of _ "[Producer_Thread n]"] exI [of _ s']) simp
  next
    case False
    then have f: "acc' = acc" "producer_thread s' = Pushing v" "p_rank (push_call s') < p_rank (push_call s)"
      using s'(6) less.prems(3) by auto
    then have "p_rank (push_call s') < r" using less.prems(4) by simp
    from less.IH [OF this s'(2) [unfolded f(1)] f(2) less.prems(3)] obtain as t where
      "length as \<le> Suc (p_rank (push_call s'))" "run_benchmark P C N as s' = Some t" "bench_inv N t (acc @ [v]) n"
      "started t = started s'" "bench_thread t = bench_thread s'" "consumer_thread t = consumer_thread s'"
      "producer_thread t = producer_loop N (v + 1)" by auto
    then show ?thesis using s' \<open>p_rank (push_call s') < r\<close>
      by (intro exI [of _ "Producer_Thread n # as"] exI [of _ t]) simp
  qed
qed

lemma pop_succeeds:
  "bench_inv N s acc n \<Longrightarrow> consumer_thread s = Counting count csum \<Longrightarrow> n < length acc \<Longrightarrow> c_rank (pop_call s) \<le> r \<Longrightarrow>
     \<exists>as s'. length as \<le> Suc r \<and> run_benchmark P C N as s = Some s' \<and> bench_inv N s' acc (Suc n) \<and>
       started s' = started s \<and> bench_thread s' = bench_thread s \<and> producer_thread s' = producer_thread s \<and>
       consumer_thread s' \<noteq> Consumer_Waiting"
proof (induction r arbitrary: s rule: less_induct)
  case (less r)
  obtain s' n' where s': "consumer_step C N (length acc) s = Some s'" "bench_inv N s' acc n'"
    "started s' = started s" "bench_thread s' = bench_thread s" "producer_thread s' = producer_thread s"
    "n' = Suc n \<and> consumer_thread s' \<noteq> Consumer_Waiting \<or>
     n' = n \<and> consumer_thread s' = Counting count csum \<and>
       (c_rank (pop_call s') < c_rank (pop_call s) \<or> (length acc \<le> length acc \<longrightarrow> n = length acc))"
    using counting_step [OF less.prems(1,2), of "length acc"] by blast
  show ?case
  proof (cases "n' = Suc n")
    case True
    then show ?thesis using s' by (intro exI [of _ "[Consumer_Thread (length acc)]"] exI [of _ s']) auto
  next
    case False
    then have f: "n' = n" "consumer_thread s' = Counting count csum" "c_rank (pop_call s') < c_rank (pop_call s)"
      using s'(6) less.prems(3) by auto
    then have "c_rank (pop_call s') < r" using less.prems(4) by simp
    from less.IH [OF this s'(2) [unfolded f(1)] f(2) less.prems(3)] obtain as t where
      "length as \<le> Suc (c_rank (pop_call s'))" "run_benchmark P C N as s' = Some t" "bench_inv N t acc (Suc n)"
      "started t = started s'" "bench_thread t = bench_thread s'" "producer_thread t = producer_thread s'"
      "consumer_thread t \<noteq> Consumer_Waiting" by auto
    then show ?thesis using s' \<open>c_rank (pop_call s') < r\<close>
      by (intro exI [of _ "Consumer_Thread (length acc) # as"] exI [of _ t]) simp
  qed
qed

text \<open>Every message costs at most one push and one pop; the two loops can always be run to their ends.\<close>

definition messages_left :: "u64 \<Rightarrow> u64 list \<Rightarrow> nat \<Rightarrow> nat" where
  "messages_left N acc n = (unat N - length acc) + (unat N - n)"

lemma loops_complete:
  assumes valid and lt: "N < - 1"
  shows "bench_inv N s acc n \<Longrightarrow> producer_thread s \<noteq> Producer_Waiting \<Longrightarrow> consumer_thread s \<noteq> Consumer_Waiting \<Longrightarrow>
    messages_left N acc n = d \<Longrightarrow>
    \<exists>as s' acc' n' csum. length as \<le> d * Suc L \<and> run_benchmark P C N as s = Some s' \<and> bench_inv N s' acc' n' \<and>
      bench_thread s' = bench_thread s \<and> producer_thread s' = Producer_Done \<and> consumer_thread s' = Consumer_Done csum"
proof (induction d arbitrary: s acc n rule: less_induct)
  case (less d)
  note inv = less.prems(1)
  have nle: "n \<le> length acc" using inv counts by (auto simp: bench_inv_def)
  have ranks: "p_rank (push_call s) \<le> L" "c_rank (pop_call s) \<le> L" using inv by (auto simp: bench_inv_def)
  have prod: "(\<exists>v. producer_thread s = Pushing v) \<and> length acc < unat N \<or> producer_thread s = Producer_Done \<and> length acc = unat N"
    using inv less.prems(2) lt by (cases "producer_thread s") (auto simp: bench_inv_def producer_inv_def)
  have cons: "(\<exists>count csum. consumer_thread s = Counting count csum) \<and> n < unat N \<or> (\<exists>csum. consumer_thread s = Consumer_Done csum) \<and> n = unat N"
    using inv less.prems(3) by (cases "consumer_thread s") (auto simp: bench_inv_def consumer_inv_def)
  have go: ?case if g: "length as \<le> Suc L" "run_benchmark P C N as s = Some t" "bench_inv N t acc' n'"
    "bench_thread t = bench_thread s" "producer_thread t \<noteq> Producer_Waiting" "consumer_thread t \<noteq> Consumer_Waiting"
    "messages_left N acc' n' < d" for as t acc' n'
  proof -
    obtain bs u acc'' n'' csum where "length bs \<le> messages_left N acc' n' * Suc L" "run_benchmark P C N bs t = Some u"
      "bench_inv N u acc'' n''" "bench_thread u = bench_thread t" "producer_thread u = Producer_Done"
      "consumer_thread u = Consumer_Done csum"
      using less.IH [OF g(7,3,5,6)] by blast
    moreover have "Suc L + messages_left N acc' n' * Suc L \<le> d * Suc L"
      using g(7) by (metis Suc_leI mult_Suc mult_le_mono1)
    ultimately show ?thesis using g(1,2,4)
      by (intro exI [of _ "as @ bs"] exI [of _ u] exI [of _ acc''] exI [of _ n''] exI [of _ csum]) (simp add: run_benchmark_append)
  qed
  show ?case
  proof (cases "\<exists>csum. consumer_thread s = Consumer_Done csum")
    case True
    then obtain csum where "consumer_thread s = Consumer_Done csum" "producer_thread s = Producer_Done"
      using cons prod nle by fastforce
    then show ?thesis using inv
      by (intro exI [of _ "[]"] exI [of _ s] exI [of _ acc] exI [of _ n] exI [of _ csum]) simp
  next
    case False
    then obtain count csum where c: "consumer_thread s = Counting count csum" "n < unat N" using cons by blast
    show ?thesis
    proof (cases "n < length acc")
      case True
      obtain as t where t: "length as \<le> Suc L" "run_benchmark P C N as s = Some t" "bench_inv N t acc (Suc n)"
        "bench_thread t = bench_thread s" "producer_thread t = producer_thread s" "consumer_thread t \<noteq> Consumer_Waiting"
        using pop_succeeds [OF inv c(1) True ranks(2)] by blast
      moreover have "messages_left N acc (Suc n) < d" using less.prems(4) c(2) by (simp add: messages_left_def)
      ultimately show ?thesis using go [OF t(1-4)] less.prems(2) by simp
    next
      case False
      then have "length acc = n" "0 < bound" using nle start [OF assms(1)] by auto
      moreover from this obtain v where v: "producer_thread s = Pushing v" "length acc < unat N" using prod c(2) by fastforce
      ultimately obtain as t where t: "length as \<le> Suc L" "run_benchmark P C N as s = Some t" "bench_inv N t (acc @ [v]) n"
        "bench_thread t = bench_thread s" "consumer_thread t = consumer_thread s" "producer_thread t = producer_loop N (v + 1)"
        using push_succeeds [OF inv v(1) _ ranks(1)] by auto
      moreover have "messages_left N (acc @ [v]) n < d" using less.prems(4) v(2) by (simp add: messages_left_def)
      ultimately show ?thesis using go [OF t(1-4)] c(1) by (simp add: producer_loop_def)
    qed
  qed
qed

text \<open>From any point of any run the benchmark can be brought to its report.\<close>

lemma bench_completes_from:
  assumes valid and lt: "N < - 1" and inv: "bench_inv N s acc n"
  shows "\<exists>as s' ok. length as \<le> 2 * unat N * Suc L + 5 \<and> run_benchmark P C N as s = Some s' \<and> bench_thread s' = Reported ok"
proof -
  define s1 where "s1 = (if bench_thread s = Starting then bench_step N s else s)"
  have inv1: "bench_inv N s1 acc n" and st1: "started s1" "bench_thread s1 \<noteq> Starting"
    using inv bench_step_inv [OF inv] by (auto simp: s1_def bench_step_def bench_inv_def)
  have run1: "run_benchmark P C N (if bench_thread s = Starting then [Main_Thread] else []) s = Some s1"
    by (simp add: s1_def)
  obtain s2 acc2 where s2: "run_benchmark P C N (if producer_thread s1 = Producer_Waiting then [Producer_Thread 1] else []) s1 = Some s2"
    "bench_inv N s2 acc2 n" "started s2" "bench_thread s2 \<noteq> Starting" "producer_thread s2 \<noteq> Producer_Waiting"
  proof (cases "producer_thread s1 = Producer_Waiting")
    case True
    let ?t = "s1\<lparr>producer_thread := producer_loop N 1\<rparr>"
    have st: "producer_step P N 1 s1 = Some ?t" using True st1 by (simp add: producer_step_def)
    then obtain acc2 where "bench_inv N ?t acc2 n" using producer_step_inv [OF inv1, of 1] by auto
    then show thesis using that [of ?t acc2] st st1 True by (simp add: producer_loop_def)
  qed (use that inv1 st1 in auto)
  obtain s3 n3 where s3: "run_benchmark P C N (if consumer_thread s2 = Consumer_Waiting then [Consumer_Thread 1] else []) s2 = Some s3"
    "bench_inv N s3 acc2 n3" "bench_thread s3 \<noteq> Starting" "producer_thread s3 \<noteq> Producer_Waiting" "consumer_thread s3 \<noteq> Consumer_Waiting"
  proof (cases "consumer_thread s2 = Consumer_Waiting")
    case True
    let ?t = "s2\<lparr>consumer_thread := consumer_loop N 0 0\<rparr>"
    have st: "consumer_step C N 1 s2 = Some ?t" using True s2(3) by (simp add: consumer_step_def)
    then obtain n3 where "bench_inv N ?t acc2 n3" using consumer_step_inv [OF s2(2), of 1] by auto
    then show thesis using that [of ?t n3] st s2 True by (simp add: consumer_loop_def)
  qed (use that s2 in auto)
  obtain as s4 acc4 n4 csum where s4: "length as \<le> messages_left N acc2 n3 * Suc L" "run_benchmark P C N as s3 = Some s4"
    "bench_inv N s4 acc4 n4" "bench_thread s4 = bench_thread s3" "producer_thread s4 = Producer_Done" "consumer_thread s4 = Consumer_Done csum"
    using loops_complete [OF assms(1) lt s3(2,4,5) refl] by blast
  have bt: "bench_thread s4 \<noteq> Starting" using s3(3) s4(4) by simp
  have "bench_thread (bench_step N (bench_step N s4)) \<in> range Reported"
    using bt s4(5,6) by (cases "bench_thread s4") (auto simp: bench_step_def)
  then obtain ok where ok: "bench_thread (bench_step N (bench_step N s4)) = Reported ok" by blast
  have "messages_left N acc2 n3 \<le> 2 * unat N" by (simp add: messages_left_def)
  then have "messages_left N acc2 n3 * Suc L \<le> 2 * unat N * Suc L" by (rule mult_le_mono1)
  then have len: "length as \<le> 2 * unat N * Suc L" using s4(1) by linarith
  let ?as = "(if bench_thread s = Starting then [Main_Thread] else []) @
    (if producer_thread s1 = Producer_Waiting then [Producer_Thread 1] else []) @
    (if consumer_thread s2 = Consumer_Waiting then [Consumer_Thread 1] else []) @ as @ [Main_Thread, Main_Thread]"
  have "run_benchmark P C N ?as s = Some (bench_step N (bench_step N s4))"
    unfolding run_benchmark_append run1 using s2(1) s3(1) s4(2) by simp
  moreover have "length ?as \<le> 2 * unat N * Suc L + 5" using len by simp
  ultimately show ?thesis using ok by blast
qed

lemma bench_completes:
  assumes valid and "N < - 1" and "run_benchmark P C N as (bench_init p0 c0 m0) = Some s"
  shows "\<exists>bs s' ok. length bs \<le> 2 * unat N * Suc L + 5 \<and> run_benchmark P C N bs s = Some s' \<and> bench_thread s' = Reported ok"
  using bench_run_inv [OF bench_inv_init [OF assms(1)], of N as] bench_completes_from [OF assms(1,2)] assms(3) by auto

end

section \<open>The lock-free queues\<close>

text \<open>What a caller sees of a queue of \<open>Spsc_Concurrent\<close>: the argument of the call in progress, and exact refusals.\<close>

locale spsc_caller = wait_free_spsc cap bound enc P C M0 p0 c0 p_ok c_ok valid L p_rank c_rank
  for cap bound :: nat and enc :: "nat \<Rightarrow> size_t" and P :: "(u64, 'p) program" and C :: "(u64, 'c) program"
    and M0 :: "u64 memory" and p0 :: 'p and c0 :: 'c and p_ok :: "'p \<Rightarrow> nat \<Rightarrow> nat \<Rightarrow> u64 option \<Rightarrow> bool"
    and c_ok :: "'c \<Rightarrow> nat \<Rightarrow> nat \<Rightarrow> u64 option \<Rightarrow> bool" and valid :: bool and L :: nat
    and p_rank :: "'p \<Rightarrow> nat" and c_rank :: "'c \<Rightarrow> nat" +
  fixes arg :: "'p \<Rightarrow> u64 option"
  assumes room: "valid \<Longrightarrow> 0 < bound" and arg_init: "arg p0 = None"
    and P_arg: "P k v p M = Some (p', M', res) \<Longrightarrow>
      (case res of None \<Rightarrow> arg p' = Some (case arg p of None \<Rightarrow> v | Some x \<Rightarrow> x)
       | Some (x, _) \<Rightarrow> arg p' = None \<and> x = (case arg p of None \<Rightarrow> v | Some x \<Rightarrow> x))"
    and P_refused: "valid \<Longrightarrow> mem_inv cap bound enc acc m ts hs w r M \<Longrightarrow> p_ok p (length acc) ts w \<Longrightarrow>
      P k v p M = Some (p', M', Some (x, False)) \<Longrightarrow> m \<le> k \<Longrightarrow> length acc = m + bound"
    and C_refused: "valid \<Longrightarrow> mem_inv cap bound enc acc m ts hs w r M \<Longrightarrow> c_ok c m hs r \<Longrightarrow>
      C k out c M = Some (c', M', Some (x, False)) \<Longrightarrow> length acc \<le> k \<Longrightarrow> m = length acc"
begin

definition caller_inv :: "u64 memory \<Rightarrow> 'p \<Rightarrow> 'c \<Rightarrow> u64 list \<Rightarrow> nat \<Rightarrow> bool" where
  "caller_inv M p c acc n \<longleftrightarrow> valid \<and> (\<exists>ts hs w r. mem_inv cap bound enc acc n ts hs w r M \<and>
     p_ok p (length acc) ts w \<and> c_ok c n hs r)"

lemma caller_push:
  assumes "caller_inv M p c acc n"
  shows "\<exists>p' M' res. P k v p M = Some (p', M', res) \<and>
    caller_inv M' p' c (acc @ (case res of Some (x, True) \<Rightarrow> [x] | _ \<Rightarrow> [])) n"
proof -
  obtain ts hs w r where i: valid "mem_inv cap bound enc acc n ts hs w r M" "p_ok p (length acc) ts w" "c_ok c n hs r"
    using assms by (auto simp: caller_inv_def)
  show ?thesis using P_step [OF i(1-3), of k v] i(1,4) unfolding caller_inv_def Let_def by blast
qed

lemma caller_pop:
  assumes "caller_inv M p c acc n"
  shows "\<exists>c' M' res n'. C k out c M = Some (c', M', res) \<and> caller_inv M' p c' acc n' \<and>
    (if \<exists>x. res = Some (x, True) then n < length acc \<and> n' = Suc n \<and> res = Some (acc ! n, True) else n' = n)"
proof -
  obtain ts hs w r where i: valid "mem_inv cap bound enc acc n ts hs w r M" "p_ok p (length acc) ts w" "c_ok c n hs r"
    using assms by (auto simp: caller_inv_def)
  obtain c' M' res hs' r' n' where st: "C k out c M = Some (c', M', res)" "mem_inv cap bound enc acc n' ts hs' w r' M'"
    "c_ok c' n' hs' r'" "if \<exists>x. res = Some (x, True) then n' = Suc n \<and> res = Some (acc ! n, True) else n' = n"
    using C_step [OF i(1,2,4), of k out] by blast
  have "n' \<le> length acc" using mem_inv_order(2,3) [OF st(2)] by simp
  then have "if \<exists>x. res = Some (x, True) then n < length acc \<and> n' = Suc n \<and> res = Some (acc ! n, True) else n' = n"
    using st(4) by (auto split: if_splits)
  then show ?thesis using st(1-3) i(1,3) unfolding caller_inv_def by blast
qed

end

sublocale spsc_caller \<subseteq> calls: benchmark_queue P C p0 c0 M0 bound L caller_inv arg p_rank c_rank valid
proof (unfold_locales, goal_cases)
  case 1
  then have "caller_inv M0 p0 c0 [] 0" using init unfolding caller_inv_def by fastforce
  then show ?case using 1 room arg_init rank_init by blast
next
  case (2 m p c acc n)
  then show ?case using mem_inv_order(2,3) by (fastforce simp: caller_inv_def)
next
  case (3 m p c acc n k v)
  then show ?case by (rule caller_push)
next
  case (4 k v p m p' m' res)
  then show ?case by (rule P_arg)
next
  case (5 m p c acc n k v p' m' x)
  then show ?case using P_refused by (auto simp: caller_inv_def)
next
  case (6 k v p m p' m' res)
  then show ?case by (rule P_rank)
next
  case (7 m p c acc n k out)
  then show ?case by (rule caller_pop)
next
  case (8 m p c acc n k out c' m' x)
  then show ?case using C_refused by (auto simp: caller_inv_def)
next
  case (9 k out c m c' m' res)
  then show ?case by (rule C_rank)
qed

fun push_arg :: "u64 push_pc \<Rightarrow> u64 option" where
  "push_arg PushIdle = None"
| "push_arg (PushLoadTail v _ _) = Some v"
| "push_arg (PushWrite v _ _) = Some v"
| "push_arg (PushStore v _) = Some v"

fun v4_push_arg :: "u64 v4_push_pc \<Rightarrow> u64 option" where
  "v4_push_arg V4PushIdle = None"
| "v4_push_arg (V4PushWrite v) = Some v"
| "v4_push_arg (V4PushStore v) = Some v"

lemma index_push_arg:
  "index_producer own their st Capacity k v p M = Some (p', M', res) \<Longrightarrow>
     (case res of None \<Rightarrow> push_arg p' = Some (case push_arg p of None \<Rightarrow> v | Some x \<Rightarrow> x)
      | Some (x, _) \<Rightarrow> push_arg p' = None \<and> x = (case push_arg p of None \<Rightarrow> v | Some x \<Rightarrow> x))"
  by (cases p) (auto simp: Let_def split: prod.splits if_splits bind_splits)

lemma v3_push_arg:
  "v3_producer Capacity k v p M = Some (p', M', res) \<Longrightarrow>
     (case res of None \<Rightarrow> push_arg (fst p') = Some (case push_arg (fst p) of None \<Rightarrow> v | Some x \<Rightarrow> x)
      | Some (x, _) \<Rightarrow> push_arg (fst p') = None \<and> x = (case push_arg (fst p) of None \<Rightarrow> v | Some x \<Rightarrow> x))"
  by (cases p; cases "fst p") (auto simp: Let_def split: prod.splits if_splits bind_splits)

lemma v4_push_arg:
  "v4_producer Capacity k v p M = Some (p', M', res) \<Longrightarrow>
     (case res of None \<Rightarrow> v4_push_arg (fst p') = Some (case v4_push_arg (fst p) of None \<Rightarrow> v | Some x \<Rightarrow> x)
      | Some (x, _) \<Rightarrow> v4_push_arg (fst p') = None \<and> x = (case v4_push_arg (fst p) of None \<Rightarrow> v | Some x \<Rightarrow> x))"
  by (cases p; cases "fst p") (auto simp: Let_def v4_write_def split: prod.splits if_splits bind_splits)

lemma v3_push_refused:
  assumes sa: "ring_static_assert Capacity" and newest: "m \<le> k"
    and inv: "index_mem_inv Capacity acc m ts hs w r M" and pok: "v3_push_ok Capacity p (length acc) ts w"
    and res: "v3_producer Capacity k v p M = Some (p', M', Some (x, False))"
  shows "length acc = m + (unat Capacity - 1)"
proof -
  obtain y h nx cache where p: "p = (PushLoadTail y h nx, cache)"
    using res by (cases p; cases "fst p") (auto simp: Let_def split: prod.splits bind_splits if_splits)
  then have w: "w = None" and nx: "nx = slot_index Capacity (Suc (length acc))" using pok by (auto simp: v3_push_ok_def)
  obtain i M2 where "load memory_order_acquire Producer Tail k M = (slot_index Capacity i, M2)" and "i = m"
    and "slot_index Capacity (Suc (length acc)) = slot_index Capacity i \<Longrightarrow> length acc = i + (unat Capacity - 1)"
    using index_check_tail [OF sa inv [unfolded w] orders_sync(1), of k] newest by metis
  then show ?thesis using res p nx by (auto split: if_splits)
qed

lemma v3_pop_refused:
  assumes sa: "ring_static_assert Capacity" and newest: "length acc \<le> k"
    and inv: "index_mem_inv Capacity acc m ts hs w r M" and cok: "v3_pop_ok Capacity c m hs r"
    and res: "v3_consumer Capacity k out c M = Some (c', M', Some (x, False))"
  shows "m = length acc"
proof -
  obtain y t cache where c: "c = (PopLoadHead y t, cache)"
    using res by (cases c; cases "fst c") (auto simp: Let_def split: prod.splits bind_splits if_splits)
  then have r: "r = None" and t: "t = slot_index Capacity m" using cok by (auto simp: v3_pop_ok_def)
  obtain i M2 where "load memory_order_acquire Consumer Head k M = (slot_index Capacity i, M2)" and "i = length acc"
    and "slot_index Capacity m = slot_index Capacity i \<Longrightarrow> m = i"
    using index_check_head [OF sa inv [unfolded r] orders_sync(1), of k] newest by metis
  then show ?thesis using res c t by (auto split: if_splits)
qed

lemma v4_push_refused:
  assumes sa: "ring_static_assert Capacity" and newest: "m \<le> k"
    and inv: "counter_mem_inv Capacity acc m ts hs w r M" and pok: "v4_push_ok Capacity p (length acc) ts w"
    and res: "v4_producer Capacity k v p M = Some (p', M', Some (x, False))"
  shows "length acc = m + unat Capacity"
proof -
  obtain pc ph pt where p: "p = (pc, ph, pt)" by (cases p)
  have pc: "pc = V4PushIdle" "ph - pt = Capacity"
    using res p by (cases pc; auto simp: Let_def v4_write_def split: prod.splits bind_splits if_splits)+
  then have ok: "ph = of_nat (length acc)" using pok p by simp
  obtain i M2 where ld: "load memory_order_acquire Producer Tail k M = (of_nat i, M2)" and i: "i = m"
    and mi: "counter_mem_inv Capacity acc m i hs w r M2"
    using load_tail_producer [OF inv orders_sync(1), of k] newest by metis
  have oi: "i \<le> length acc" "length acc \<le> i + unat Capacity" using mem_inv_order(1-4) [OF mi] by auto
  show ?thesis using res p pc ok ld i counter_full [OF oi] by (auto split: if_splits)
qed

lemma v4_pop_refused:
  assumes sa: "ring_static_assert Capacity" and newest: "length acc \<le> k"
    and inv: "counter_mem_inv Capacity acc m ts hs w r M" and cok: "v4_pop_ok Capacity c m hs r"
    and res: "v4_consumer Capacity k out c M = Some (c', M', Some (x, False))"
  shows "m = length acc"
proof -
  obtain pc ch ct where c: "c = (pc, ch, ct)" by (cases c)
  have pc: "pc = V4PopIdle" "ch = ct"
    using res c by (cases pc; auto simp: Let_def v4_read_def split: prod.splits bind_splits if_splits)+
  then have ok: "ct = of_nat m" using cok unfolding c pc(1) v4_pop_ok.simps by blast
  obtain i M2 where ld: "load memory_order_acquire Consumer Head k M = (of_nat i, M2)" and i: "i = length acc"
    and mi: "counter_mem_inv Capacity acc m ts i w r M2"
    using load_head_consumer [OF inv orders_sync(1), of k] newest by metis
  have oi: "m \<le> i" "i \<le> m + unat Capacity" using mem_inv_order(1-4) [OF mi] by auto
  show ?thesis using res c pc ok ld i counter_empty [OF oi] by (auto split: if_splits)
qed

lemma ring_room: "ring_static_assert Capacity \<Longrightarrow> 0 < unat Capacity - 1"
  by (elim ring_static_assertE) auto

interpretation v1_bench: spsc_caller "unat Capacity" "unat Capacity - 1" "slot_index Capacity"
    "v1_producer Capacity" "v1_consumer Capacity" "memory_init Capacity" PushIdle PopIdle
    "push_ok Capacity" "pop_ok Capacity" "ring_static_assert Capacity" 4 push_rank pop_rank push_arg for Capacity
proof (unfold_locales, goal_cases)
  case 3
  then show ?case unfolding v1_producer_def by (rule index_push_arg)
next
  case 4
  show ?case by (rule v1_push_refused [OF 4(1-4)])
next
  case 5
  show ?case by (rule v1_pop_refused [OF 5(1-4)])
qed (simp_all only: ring_room push_arg.simps)

interpretation v2_bench: spsc_caller "unat Capacity" "unat Capacity - 1" "slot_index Capacity"
    "v2_producer Capacity" "v2_consumer Capacity" "memory_init Capacity" PushIdle PopIdle
    "push_ok Capacity" "pop_ok Capacity" "ring_static_assert Capacity" 4 push_rank pop_rank push_arg for Capacity
proof (unfold_locales, goal_cases)
  case 3
  then show ?case unfolding v2_producer_def by (rule index_push_arg)
next
  case 4
  show ?case
    by (rule index_push_refused [OF 4(1) orders_sync(1) disjI2 [OF 4(5)] 4(2,3) 4(4) [unfolded v2_producer_def]])
next
  case 5
  show ?case
    by (rule index_pop_refused [OF 5(1) orders_sync(1) disjI2 [OF 5(5)] 5(2,3) 5(4) [unfolded v2_consumer_def]])
qed (simp_all only: ring_room push_arg.simps)

interpretation v3_bench: spsc_caller "unat Capacity" "unat Capacity - 1" "slot_index Capacity"
    "v3_producer Capacity" "v3_consumer Capacity" "memory_init Capacity" "(PushIdle, 0)" "(PopIdle, 0)"
    "v3_push_ok Capacity" "v3_pop_ok Capacity" "ring_static_assert Capacity" 4
    "\<lambda>p. push_rank (fst p)" "\<lambda>c. pop_rank (fst c)" "\<lambda>p. push_arg (fst p)" for Capacity
proof (unfold_locales, goal_cases)
  case 3
  then show ?case by (rule v3_push_arg)
next
  case 4
  show ?case by (rule v3_push_refused [OF 4(1,5,2,3,4)])
next
  case 5
  show ?case by (rule v3_pop_refused [OF 5(1,5,2,3,4)])
qed (simp_all only: ring_room push_arg.simps fst_conv)

interpretation v4_bench: spsc_caller "unat Capacity" "unat Capacity" of_nat
    "v4_producer Capacity" "v4_consumer Capacity" "memory_init Capacity" "(V4PushIdle, 0, 0)" "(V4PopIdle, 0, 0)"
    "v4_push_ok Capacity" "v4_pop_ok Capacity" "ring_static_assert Capacity" 3
    "\<lambda>p. v4_push_rank (fst p)" "\<lambda>c. v4_pop_rank (fst c)" "\<lambda>p. v4_push_arg (fst p)" for Capacity
proof (unfold_locales, goal_cases)
  case 1
  then show ?case using ring_room by fastforce
next
  case 3
  then show ?case by (rule v4_push_arg)
next
  case 4
  show ?case by (rule v4_push_refused [OF 4(1,5,2,3,4)])
next
  case 5
  show ?case by (rule v4_pop_refused [OF 5(1,5,2,3,4)])
qed (simp_all only: v4_push_arg.simps fst_conv)

section \<open>The mutex queue\<close>

lemma k_capacity_ok: "ring_static_assert k_capacity"
  by code_simp

abbreviation mutex_ok :: "u64 SpscRingBufferMutex \<Rightarrow> bool" where
  "mutex_ok q \<equiv> index_inv k_capacity (SpscRingBufferMutex.buffer q) (SpscRingBufferMutex.head q) (SpscRingBufferMutex.tail q)"

abbreviation mutex_contents :: "u64 SpscRingBufferMutex \<Rightarrow> u64 list" where
  "mutex_contents q \<equiv> index_contents (SpscRingBufferMutex.buffer q) (SpscRingBufferMutex.head q) (SpscRingBufferMutex.tail q)"

definition mutex_inv :: "u64 SpscRingBufferMutex \<Rightarrow> unit \<Rightarrow> unit \<Rightarrow> u64 list \<Rightarrow> nat \<Rightarrow> bool" where
  "mutex_inv q p c acc n \<longleftrightarrow> mutex_ok q \<and> mutex_contents q = drop n acc \<and> n \<le> length acc"

interpretation mutex_bench: benchmark_queue mutex_producer mutex_consumer "()" "()" "mutex_init k_capacity"
    "unat k_capacity - 1" 1 mutex_inv "\<lambda>_. None" "\<lambda>_. 1" "\<lambda>_. 1" True
proof (unfold_locales, goal_cases)
  case 1
  then show ?case
    using mutex_fifo.init_inv [OF k_capacity_ok] mutex_fifo.init_contents [OF k_capacity_ok] ring_room [OF k_capacity_ok]
    by (simp add: mutex_inv_def)
next
  case (2 m p c acc n)
  then show ?case by (simp add: mutex_inv_def)
next
  case (3 q p c acc n k v)
  then have i: "mutex_ok q" "mutex_contents q = drop n acc" "n \<le> length acc" by (auto simp: mutex_inv_def)
  obtain q' where "mutex_push k_capacity q v = Some (length (mutex_contents q) < unat k_capacity - 1, q')" "mutex_ok q'"
    "mutex_contents q' = (if length (mutex_contents q) < unat k_capacity - 1 then mutex_contents q @ [v] else mutex_contents q)"
    using mutex_fifo.push_any [OF i(1), of v] by blast
  then show ?case using i(2,3) by (auto simp: mutex_producer_def mutex_inv_def)
next
  case (4 k v p m p' m' res)
  then show ?case by (auto simp: mutex_producer_def split: bind_splits)
next
  case (5 q p c acc n k v p' m' x)
  then have i: "mutex_ok q" "mutex_contents q = drop n acc" "n \<le> length acc" by (auto simp: mutex_inv_def)
  obtain q' where "mutex_push k_capacity q v = Some (length (mutex_contents q) < unat k_capacity - 1, q')"
    using mutex_fifo.push_any [OF i(1), of v] by blast
  moreover have "length (mutex_contents q) \<le> unat k_capacity - 1" using mutex_fifo.bounded [OF i(1)] by blast
  ultimately have "length (drop n acc) = unat k_capacity - 1" using 5(2) i(2) by (simp add: mutex_producer_def)
  then show ?case using i(3) by simp
next
  case (6 k v p m p' m' res)
  then show ?case by (auto simp: mutex_producer_def split: bind_splits)
next
  case (7 q p c acc n k out)
  then have i: "mutex_ok q" "mutex_contents q = drop n acc" "n \<le> length acc" by (auto simp: mutex_inv_def)
  obtain q' where q': "mutex_ok q'" "mutex_contents q' = tl (mutex_contents q)"
    "mutex_pop k_capacity q out = Some (mutex_contents q \<noteq> [], case mutex_contents q of [] \<Rightarrow> out | x # _ \<Rightarrow> x, q')"
    using mutex_fifo.pop_any [OF i(1), of out] by blast
  show ?case
  proof (cases "n < length acc")
    case True
    then have "drop n acc = acc ! n # drop (Suc n) acc" by (simp add: Cons_nth_drop_Suc)
    then show ?thesis using q' i True
      by (intro exI [of _ "()"] exI [of _ q'] exI [of _ "Some (acc ! n, True)"] exI [of _ "Suc n"])
        (simp add: mutex_consumer_def mutex_inv_def)
  next
    case False
    then show ?thesis using q' i
      by (intro exI [of _ "()"] exI [of _ q'] exI [of _ "Some (out, False)"] exI [of _ n])
        (simp add: mutex_consumer_def mutex_inv_def)
  qed
next
  case (8 q p c acc n k out c' m' x)
  then have i: "mutex_ok q" "mutex_contents q = drop n acc" "n \<le> length acc" by (auto simp: mutex_inv_def)
  obtain q' where "mutex_pop k_capacity q out = Some (mutex_contents q \<noteq> [], case mutex_contents q of [] \<Rightarrow> out | x # _ \<Rightarrow> x, q')"
    using mutex_fifo.pop_any [OF i(1), of out] by blast
  then show ?case using 8(2) i by (simp add: mutex_consumer_def)
next
  case (9 k out c m c' m' res)
  then show ?case by (auto simp: mutex_consumer_def split: bind_splits)
qed

section \<open>The five benchmarks\<close>

definition mutex_benchmark :: "u64 \<Rightarrow> bench_actor list \<Rightarrow> (unit, unit, u64 SpscRingBufferMutex) bench option" where
  "mutex_benchmark n as = run_benchmark mutex_producer mutex_consumer n as (bench_init () () (mutex_init k_capacity))"

definition v1_benchmark :: "u64 \<Rightarrow> bench_actor list \<Rightarrow> (u64 push_pc, u64 pop_pc, u64 memory) bench option" where
  "v1_benchmark n as = run_benchmark (v1_producer k_capacity) (v1_consumer k_capacity) n as
     (bench_init PushIdle PopIdle (memory_init k_capacity))"

definition v2_benchmark :: "u64 \<Rightarrow> bench_actor list \<Rightarrow> (u64 push_pc, u64 pop_pc, u64 memory) bench option" where
  "v2_benchmark n as = run_benchmark (v2_producer k_capacity) (v2_consumer k_capacity) n as
     (bench_init PushIdle PopIdle (memory_init k_capacity))"

definition v3_benchmark :: "u64 \<Rightarrow> bench_actor list \<Rightarrow> (u64 push_pc \<times> size_t, u64 pop_pc \<times> size_t, u64 memory) bench option" where
  "v3_benchmark n as = run_benchmark (v3_producer k_capacity) (v3_consumer k_capacity) n as
     (bench_init (PushIdle, 0) (PopIdle, 0) (memory_init k_capacity))"

definition v4_benchmark ::
  "u64 \<Rightarrow> bench_actor list \<Rightarrow> (u64 v4_push_pc \<times> size_t \<times> size_t, u64 v4_pop_pc \<times> size_t \<times> size_t, u64 memory) bench option" where
  "v4_benchmark n as = run_benchmark (v4_producer k_capacity) (v4_consumer k_capacity) n as
     (bench_init (V4PushIdle, 0, 0) (V4PopIdle, 0, 0) (memory_init k_capacity))"

text \<open>A run is defined, and a verdict is the truth about the sum of \<open>1, \<dots>, n\<close> and the expected value.\<close>

definition reports_correctly :: "u64 \<Rightarrow> ('p, 'c, 'm) bench option \<Rightarrow> bool" where
  "reports_correctly n r \<longleftrightarrow> (\<exists>s. r = Some s \<and> (\<forall>ok. bench_thread s = Reported ok \<longrightarrow>
     n < - 1 \<and> ok = (checksum (map of_nat [1..<Suc (unat n)]) = expected_checksum n)))"

definition completes_within :: "('p, 'm) call \<Rightarrow> ('c, 'm) call \<Rightarrow> u64 \<Rightarrow> nat \<Rightarrow> ('p, 'c, 'm) bench option \<Rightarrow> bool" where
  "completes_within P C n b r \<longleftrightarrow> (\<exists>s bs s' ok. r = Some s \<and> length bs \<le> b \<and> run_benchmark P C n bs s = Some s' \<and>
     bench_thread s' = Reported ok)"

lemmas bench_reports_all =
  mutex_bench.bench_reports [OF TrueI, folded mutex_benchmark_def reports_correctly_def]
  v1_bench.calls.bench_reports [OF k_capacity_ok, folded v1_benchmark_def reports_correctly_def]
  v2_bench.calls.bench_reports [OF k_capacity_ok, folded v2_benchmark_def reports_correctly_def]
  v3_bench.calls.bench_reports [OF k_capacity_ok, folded v3_benchmark_def reports_correctly_def]
  v4_bench.calls.bench_reports [OF k_capacity_ok, folded v4_benchmark_def reports_correctly_def]

lemma completes_withinI:
  assumes "reports_correctly n r"
    and "\<And>s. r = Some s \<Longrightarrow> \<exists>bs s' ok. length bs \<le> b \<and> run_benchmark P C n bs s = Some s' \<and> bench_thread s' = Reported ok"
    and "b \<le> b'"
  shows "completes_within P C n b' r"
proof -
  obtain s where s: "r = Some s" using assms(1) by (auto simp: reports_correctly_def)
  obtain bs s' ok where "length bs \<le> b" "run_benchmark P C n bs s = Some s'" "bench_thread s' = Reported ok"
    using assms(2) [OF s] by blast
  then show ?thesis unfolding completes_within_def using s assms(3) order_trans by blast
qed

lemma checksum_expected:
  assumes "unat n < 2 ^ 32"
  shows "checksum (map of_nat [1..<Suc (unat n)]) = expected_checksum n"
proof -
  have "unat n * (unat n + 1) < 2 ^ 64"
  proof -
    have "unat n * (unat n + 1) \<le> (2 ^ 32 - 1) * 2 ^ 32" using assms by (intro mult_le_mono) auto
    then show ?thesis by simp
  qed
  moreover have "unat (n + 1) = unat n + 1" using assms by (simp add: unat_word_ariths)
  ultimately have "unat (expected_checksum n) = unat n * (unat n + 1) div 2"
    by (simp add: expected_checksum_def unat_div unat_word_ariths)
  moreover have "unat (of_nat (unat n * (unat n + 1) div 2) :: u64) = unat n * (unat n + 1) div 2"
    using \<open>unat n * (unat n + 1) < 2 ^ 64\<close> by (simp add: unat_of_nat)
  ultimately show ?thesis unfolding sum_upto_word by (simp add: word_unat_eq_iff)
qed

section \<open>Properties\<close>

text \<open>
  C12. The queue benchmark reports the truth about every queue class, in every interleaving of its three threads and
  with every stale value the memory model allows: a run is never undefined, and when the main thread reports, the
  verdict is whether \<open>1 + \<dots> + total\<close> in 64 bits equals the expected value, so it is positive
  below \<open>2 ^ 32\<close> messages. For \<open>total = 2 ^ 64 - 1\<close>, which \<^verbatim>\<open>strtoull\<close> returns for a number that is too large, no run
  ever reports.
\<close>

theorem queue_benchmark_reports:
  "reports_correctly n (mutex_benchmark n as) \<and> reports_correctly n (v1_benchmark n as) \<and>
   reports_correctly n (v2_benchmark n as) \<and> reports_correctly n (v3_benchmark n as) \<and> reports_correctly n (v4_benchmark n as) \<and>
   (unat n < 2 ^ 32 \<longrightarrow> checksum (map of_nat [1..<Suc (unat n)]) = expected_checksum n) \<and>
   strtoull ''18446744073709551616'' = - 1"
proof -
  have "strtoull ''18446744073709551616'' = - 1" by code_simp
  then show ?thesis by (intro conjI impI bench_reports_all checksum_expected)
qed

theorem queue_benchmark_reports_witness:
  "checksum (map of_nat [1..<Suc (unat (3 :: u64))]) = expected_checksum 3"
proof -
  have "unat (3 :: u64) < 2 ^ 32" by simp
  then show ?thesis using queue_benchmark_reports [of 3 "[]"] by blast
qed

text \<open>
  C29. The queue benchmark cannot get stuck: from every point of every run with fewer than \<open>2 ^ 64 - 1\<close> messages, whatever
  refusals the retry loops have met, some schedule of at most \<open>10 * total + 5\<close> further steps (two calls of
  at most five steps a message) brings the producer and the consumer to their ends and the main thread to its report.
\<close>

theorem queue_benchmark_completes:
  assumes "n < - 1"
  shows "completes_within mutex_producer mutex_consumer n (10 * unat n + 5) (mutex_benchmark n as) \<and>
         completes_within (v1_producer k_capacity) (v1_consumer k_capacity) n (10 * unat n + 5) (v1_benchmark n as) \<and>
         completes_within (v2_producer k_capacity) (v2_consumer k_capacity) n (10 * unat n + 5) (v2_benchmark n as) \<and>
         completes_within (v3_producer k_capacity) (v3_consumer k_capacity) n (10 * unat n + 5) (v3_benchmark n as) \<and>
         completes_within (v4_producer k_capacity) (v4_consumer k_capacity) n (10 * unat n + 5) (v4_benchmark n as)"
proof (intro conjI)
  show "completes_within mutex_producer mutex_consumer n (10 * unat n + 5) (mutex_benchmark n as)"
    by (rule completes_withinI [OF bench_reports_all(1) mutex_bench.bench_completes [OF TrueI assms, folded mutex_benchmark_def]])
      simp_all
  show "completes_within (v1_producer k_capacity) (v1_consumer k_capacity) n (10 * unat n + 5) (v1_benchmark n as)"
    by (rule completes_withinI [OF bench_reports_all(2) v1_bench.calls.bench_completes [OF k_capacity_ok assms, folded v1_benchmark_def]])
      simp_all
  show "completes_within (v2_producer k_capacity) (v2_consumer k_capacity) n (10 * unat n + 5) (v2_benchmark n as)"
    by (rule completes_withinI [OF bench_reports_all(3) v2_bench.calls.bench_completes [OF k_capacity_ok assms, folded v2_benchmark_def]])
      simp_all
  show "completes_within (v3_producer k_capacity) (v3_consumer k_capacity) n (10 * unat n + 5) (v3_benchmark n as)"
    by (rule completes_withinI [OF bench_reports_all(4) v3_bench.calls.bench_completes [OF k_capacity_ok assms, folded v3_benchmark_def]])
      simp_all
  show "completes_within (v4_producer k_capacity) (v4_consumer k_capacity) n (10 * unat n + 5) (v4_benchmark n as)"
    by (rule completes_withinI [OF bench_reports_all(5) v4_bench.calls.bench_completes [OF k_capacity_ok assms, folded v4_benchmark_def]])
      simp_all
qed

theorem queue_benchmark_completes_witness:
  "completes_within (v3_producer k_capacity) (v3_consumer k_capacity) 3 35
     (v3_benchmark 3 [Main_Thread, Consumer_Thread 1, Consumer_Thread 0, Producer_Thread 0, Consumer_Thread 0])"
proof -
  have "(3 :: u64) < - 1" by code_simp
  from queue_benchmark_completes [OF this] show ?thesis by simp
qed

end
