(* ===== verification/Client_Report.thy ===== *)
theory Client_Report
  imports Benchmarks "HOL-Library.Log_Nat" "HOL-Library.Signed_Division" "HOL-Library.Multiset"
begin

text \<open>
  The rest of \<^verbatim>\<open>epoll_bench_client.cpp\<close>: \<^verbatim>\<open>main\<close> around the send loops, and the statistics it prints. The
  measured round trips are an argument. The percentile index is computed in \<^verbatim>\<open>double\<close> arithmetic,
  modelled exactly on natural numbers: a constant \<open>p\<close> between 0 and 1 is a multiple of \<open>2 ^ -53\<close>, and a
  product is rounded to 53 significant bits, ties to even.
\<close>

section \<open>Double arithmetic\<close>

definition round53 :: "nat \<Rightarrow> nat" where
  "round53 x =
     (let sh = floorlog 2 x - 53; q = x div 2 ^ sh; r = x mod 2 ^ sh
      in (if 2 ^ sh < 2 * r \<or> 2 * r = 2 ^ sh \<and> odd q then q + 1 else q) * 2 ^ sh)"

text \<open>The constants of \<^verbatim>\<open>main\<close> in units of \<open>2 ^ -53\<close>: the nearest doubles to 0, 0.5, 0.9, 0.95, 0.99, 0.999 and 1.\<close>

definition percentiles :: "(string \<times> nat) list" where
  "percentiles =
     [(''min'', 0), (''p50'', 4503599627370496), (''p90'', 8106479329266893), (''p95'', 8556839292003942),
      (''p99'', 8917127262193582), (''p999'', 8998192055486251), (''max'', 9007199254740992)]"

text \<open>\<^verbatim>\<open>print_percentile\<close>: the index into the sorted vector of \<open>n\<close> elements.\<close>

definition percentile_index :: "nat \<Rightarrow> nat \<Rightarrow> nat" where
  "percentile_index n p = round53 (round53 (n - 1) * p) div 2 ^ 53"

text \<open>\<^term>\<open>None\<close> is an access outside the vector; that of an empty one is, as \<^verbatim>\<open>size() - 1\<close> wraps.\<close>

definition print_percentile :: "int list \<Rightarrow> string \<times> nat \<Rightarrow> (string \<times> int) option" where
  "print_percentile vs l =
     (if vs = [] then None
      else map_option (Pair (fst l)) (span_get vs (percentile_index (length vs) (snd l))))"

fun print_percentiles :: "int list \<Rightarrow> (string \<times> nat) list \<Rightarrow> (string \<times> int) list option" where
  "print_percentiles vs [] = Some []"
| "print_percentiles vs (l # ls) = do {
     x \<leftarrow> print_percentile vs l;
     xs \<leftarrow> print_percentiles vs ls;
     Some (x # xs)
   }"

text \<open>The sum is an \<^verbatim>\<open>int64_t\<close>; signed overflow is undefined.\<close>

fun sum_int64 :: "int \<Rightarrow> int list \<Rightarrow> int option" where
  "sum_int64 acc [] = Some acc"
| "sum_int64 acc (v # vs) = (if - (2 ^ 63) \<le> acc + v \<and> acc + v < 2 ^ 63 then sum_int64 (acc + v) vs else None)"

text \<open>Division in C++ truncates toward zero.\<close>

definition client_report :: "int \<Rightarrow> int list \<Rightarrow> (string \<times> int) list option" where
  "client_report msgs rtts = do {
     let vs = sort rtts;
     acc \<leftarrow> sum_int64 0 vs;
     lines \<leftarrow> print_percentiles vs percentiles;
     if msgs = 0 then None else Some (lines @ [(''mean'', acc sdiv msgs)])
   }"

section \<open>main\<close>

text \<open>
  How the program ends: its exit code with the lines of statistics, an exception of the vector's constructor, or stopped inside an exchange.
\<close>

datatype client_outcome = Exit int "(string \<times> int) list" | Length_Error | Bad_Alloc | Stopped stop

text \<open>
  \<open>connects\<close> is the answer of \<^verbatim>\<open>connect\<close>; the port is cut to 16 bits.
  \<^verbatim>\<open>vector(opts.messages)\<close> converts a negative number to a huge size and throws; otherwise it allocates 8 bytes an
  element, nothing for none, and \<open>allocates\<close> says whether that succeeds. \<open>net k\<close> is exchange number \<open>k\<close>, \<open>rtt k\<close> the time of
  measured round trip \<open>k\<close>. The first component of the value are the frames handed to \<^verbatim>\<open>send\<close>.
\<close>

definition client_main ::
  "string list \<Rightarrow> (string \<Rightarrow> u16 \<Rightarrow> bool) \<Rightarrow> (nat \<Rightarrow> bool) \<Rightarrow> (nat \<Rightarrow> exchange) \<Rightarrow> (nat \<Rightarrow> int) \<Rightarrow>
   (span list \<times> client_outcome) option" where
  "client_main args connects allocates net rtt = do {
     opts \<leftarrow> parse_options Options_init args;
     if \<not> connects (host opts) (word_of_int (port opts)) then Some ([], Exit 1 [])
     else do {
       let w = nat (warmup opts);
       (warm, out) \<leftarrow> send_orders w net (replicate kFrameSize 0) 1;
       (case out of
          Inl st \<Rightarrow> Some (warm, Stopped st)
        | Inr (frame, seq) \<Rightarrow> do {
            let n = nat (messages opts);
            if messages opts < 0 then Some (warm, Length_Error)
            else if 0 < n \<and> \<not> allocates (8 * n) then Some (warm, Bad_Alloc)
            else do {
              (frames, out) \<leftarrow> send_orders n (\<lambda>k. net (w + k)) frame seq;
              (case out of
                 Inl st \<Rightarrow> Some (warm @ frames, Stopped st)
               | Inr _ \<Rightarrow> do {
                   report \<leftarrow> client_report (messages opts) (map rtt [0..<n]);
                   Some (warm @ frames, Exit 0 report)
                 })
            }
          })
     }
   }"

section \<open>Rounding\<close>

lemma round53_exact:
  assumes "2 ^ (floorlog 2 x - 53) dvd x"
  shows "round53 x = x"
proof -
  have "x mod 2 ^ (floorlog 2 x - 53) = 0" using assms by simp
  then show ?thesis by (simp add: round53_def Let_def dvd_div_mult_self assms)
qed

lemma round53_small: "x < 2 ^ 53 \<Longrightarrow> round53 x = x"
  by (rule round53_exact) (simp add: floorlog_leI)

lemma round53_scaled:
  assumes "x < 2 ^ 53"
  shows "round53 (x * 2 ^ 53) = x * 2 ^ 53"
proof (cases "x = 0")
  case False
  then have "floorlog 2 (x * 2 ^ 53) = floorlog 2 x + 53" by (intro floorlog_power) simp_all
  moreover have "floorlog 2 x \<le> 53" using assms by (simp add: floorlog_leI)
  then have "2 ^ floorlog 2 x dvd (2 :: nat) ^ 53" by (rule le_imp_power_dvd)
  ultimately have "2 ^ (floorlog 2 (x * 2 ^ 53) - 53) dvd (2 :: nat) ^ 53" by (simp only: add_diff_cancel_right')
  then show ?thesis by (intro round53_exact) (rule dvd_mult)
qed (simp add: round53_def)

lemma round53_bounds:
  assumes "0 < x"
  shows "2 ^ (floorlog 2 x - 1) \<le> round53 x" and "round53 x \<le> 2 ^ floorlog 2 x"
proof -
  let ?L = "floorlog 2 x"
  have b: "2 ^ (?L - 1) \<le> x" "x < 2 ^ ?L" using floorlog_bounds [of x 2] assms by auto
  have "2 ^ (?L - 1) \<le> round53 x \<and> round53 x \<le> 2 ^ ?L"
  proof (cases "?L \<le> 53")
    case True
    then have "round53 x = x" by (intro round53_exact) simp
    then show ?thesis using b by auto
  next
    case False
    let ?sh = "?L - 53"
    let ?q = "x div 2 ^ ?sh"
    have "?L = 53 + ?sh" "?L - 1 = 52 + ?sh" using False by simp_all
    then have L: "2 ^ ?L = 2 ^ 53 * (2 :: nat) ^ ?sh" "2 ^ (?L - 1) = 2 ^ 52 * (2 :: nat) ^ ?sh"
      by (metis power_add)+
    have "2 ^ 52 \<le> ?q" using b(1) unfolding L(2) by (metis div_le_mono nonzero_mult_div_cancel_right power_not_zero zero_neq_numeral)
    then have lo: "2 ^ 52 * 2 ^ ?sh \<le> ?q * 2 ^ ?sh" by (rule mult_le_mono1)
    have "?q < 2 ^ 53" using b(2) unfolding L(1) by (simp add: less_mult_imp_div_less)
    then have "Suc ?q * 2 ^ ?sh \<le> 2 ^ 53 * 2 ^ ?sh" by (intro mult_le_mono1) simp
    then have hi: "?q * 2 ^ ?sh \<le> 2 ^ ?L" "(?q + 1) * 2 ^ ?sh \<le> 2 ^ ?L" unfolding L(1) by simp_all
    have "round53 x = ?q * 2 ^ ?sh \<or> round53 x = (?q + 1) * 2 ^ ?sh" by (simp add: round53_def Let_def)
    then show ?thesis using lo hi unfolding L(2) by auto
  qed
  then show "2 ^ (?L - 1) \<le> round53 x" and "round53 x \<le> 2 ^ ?L" by auto
qed

lemma round53_mono:
  assumes "x \<le> y"
  shows "round53 x \<le> round53 y"
proof (cases "x = 0")
  case False
  then have pos: "0 < x" "0 < y" using assms by auto
  have le: "floorlog 2 x \<le> floorlog 2 y" using assms by (rule floorlog_mono)
  show ?thesis
  proof (cases "floorlog 2 x = floorlog 2 y")
    case True
    let ?p = "(2 :: nat) ^ (floorlog 2 y - 53)"
    have q: "x div ?p \<le> y div ?p" using assms by (rule div_le_mono)
    have "(if ?p < 2 * (x mod ?p) \<or> 2 * (x mod ?p) = ?p \<and> odd (x div ?p) then x div ?p + 1 else x div ?p)
        \<le> (if ?p < 2 * (y mod ?p) \<or> 2 * (y mod ?p) = ?p \<and> odd (y div ?p) then y div ?p + 1 else y div ?p)"
    proof (cases "x div ?p = y div ?p")
      case True
      then have "x mod ?p \<le> y mod ?p" using assms by (metis add_le_cancel_left div_mult_mod_eq)
      then show ?thesis using True by auto
    next
      case False
      then show ?thesis using q by auto
    qed
    then show ?thesis unfolding round53_def Let_def True by (rule mult_le_mono1)
  next
    case False
    then have "floorlog 2 x \<le> floorlog 2 y - 1" using le by simp
    then have "(2 :: nat) ^ floorlog 2 x \<le> 2 ^ (floorlog 2 y - 1)" by simp
    then show ?thesis using round53_bounds(2) [OF pos(1)] round53_bounds(1) [OF pos(2)] by linarith
  qed
qed (simp add: round53_def)

text \<open>The index of a percentile is in range, grows with the percentile and reaches the ends.\<close>

lemma percentile_index_le:
  assumes "0 < n" and "n \<le> 2 ^ 53" and "p \<le> 2 ^ 53"
  shows "percentile_index n p \<le> n - 1"
proof -
  have n: "n - 1 < 2 ^ 53" using assms(1,2) by simp
  have "round53 ((n - 1) * p) \<le> round53 ((n - 1) * 2 ^ 53)" using assms(3) by (intro round53_mono mult_le_mono2)
  then have "round53 ((n - 1) * p) \<le> (n - 1) * 2 ^ 53" unfolding round53_scaled [OF n] .
  then show ?thesis unfolding percentile_index_def round53_small [OF n] by (metis div_le_mono div_mult_self_is_m zero_less_numeral zero_less_power)
qed

lemma percentile_index_mono: "p \<le> p' \<Longrightarrow> percentile_index n p \<le> percentile_index n p'"
  unfolding percentile_index_def by (intro div_le_mono round53_mono mult_le_mono2)

lemma percentile_index_ends:
  assumes "0 < n" and "n \<le> 2 ^ 53"
  shows "percentile_index n 0 = 0" and "percentile_index n (2 ^ 53) = n - 1"
proof -
  have n: "n - 1 < 2 ^ 53" using assms by simp
  show "percentile_index n 0 = 0" by (simp add: percentile_index_def round53_def)
  show "percentile_index n (2 ^ 53) = n - 1"
    unfolding percentile_index_def round53_small [OF n] round53_scaled [OF n] by simp
qed

section \<open>The statistics\<close>

lemma sum_int64_nonneg:
  "0 \<le> a \<Longrightarrow> \<forall>v \<in> set vs. 0 \<le> v \<Longrightarrow> a + sum_list vs < 2 ^ 63 \<Longrightarrow> sum_int64 a vs = Some (a + sum_list vs)"
proof (induction vs arbitrary: a)
  case (Cons v vs)
  have "0 \<le> sum_list vs" using Cons.prems(2) by (simp add: sum_list_nonneg)
  then show ?case using Cons by simp
qed simp

lemma sum_list_between:
  fixes xs :: "int list"
  assumes "\<forall>x \<in> set xs. a \<le> x \<and> x \<le> b"
  shows "int (length xs) * a \<le> sum_list xs" and "sum_list xs \<le> int (length xs) * b"
  using assms by (induction xs) (auto simp: algebra_simps)

lemma sdiv_nonneg: "0 \<le> (k :: int) \<Longrightarrow> 0 < l \<Longrightarrow> k sdiv l = k div l"
  by (cases "k = 0") (simp_all add: signed_divide_int_def)

lemma sorted_ends:
  fixes xs :: "int list"
  assumes "xs \<noteq> []"
  shows "sort xs ! 0 = Min (set xs)" and "sort xs ! (length xs - 1) = Max (set xs)"
proof -
  have s: "sorted (sort xs)" "set (sort xs) = set xs" "length (sort xs) = length xs" by simp_all
  have n: "0 < length (sort xs)" "length xs - 1 < length (sort xs)" using assms by simp_all
  have lo: "sort xs ! 0 \<le> x" and hi: "x \<le> sort xs ! (length xs - 1)" if member: "x \<in> set xs" for x
  proof -
    obtain i where i: "i < length (sort xs)" "sort xs ! i = x" using member s(2) by (metis in_set_conv_nth)
    show "sort xs ! 0 \<le> x" using sorted_nth_mono [OF s(1) _ i(1), of 0] i(2) by simp
    have "i \<le> length xs - 1" using i(1) by simp
    then show "x \<le> sort xs ! (length xs - 1)" using sorted_nth_mono [OF s(1) _ n(2)] i(2) by blast
  qed
  have "sort xs ! 0 \<in> set xs" "sort xs ! (length xs - 1) \<in> set xs"
    using nth_mem [OF n(1)] nth_mem [OF n(2)] unfolding s(2) by blast+
  then show "sort xs ! 0 = Min (set xs)" "sort xs ! (length xs - 1) = Max (set xs)"
    using lo hi by (metis List.finite_set Min_eqI, metis List.finite_set Max_eqI)
qed

text \<open>The element that is printed for a percentile.\<close>

definition percentile :: "int list \<Rightarrow> nat \<Rightarrow> int" where
  "percentile rtts p = sort rtts ! percentile_index (length rtts) p"

lemma print_percentile_eq:
  assumes "rtts \<noteq> []" and "length rtts \<le> 2 ^ 53" and "snd l \<le> 2 ^ 53"
  shows "print_percentile (sort rtts) l = Some (fst l, percentile rtts (snd l))"
proof -
  have n: "0 < length rtts" using assms(1) by simp
  have "percentile_index (length rtts) (snd l) < length (sort rtts)"
    unfolding length_sort using percentile_index_le [OF n assms(2,3)] n by linarith
  moreover have "sort rtts \<noteq> []" using assms(1) by (metis length_0_conv length_sort)
  ultimately show ?thesis by (simp add: print_percentile_def span_get_def percentile_def)
qed

lemma percentile_mono:
  assumes "rtts \<noteq> []" and "length rtts \<le> 2 ^ 53" and "p \<le> p'" and "p' \<le> 2 ^ 53"
  shows "percentile rtts p \<le> percentile rtts p'" and "percentile rtts p' \<in> set rtts"
proof -
  have n: "0 < length rtts" using assms(1) by simp
  have "percentile_index (length rtts) p' < length (sort rtts)"
    unfolding length_sort using percentile_index_le [OF n assms(2,4)] n by linarith
  note i = percentile_index_mono [OF assms(3), of "length rtts"] this
  show "percentile rtts p \<le> percentile rtts p'" unfolding percentile_def by (rule sorted_nth_mono [OF _ i]) simp
  show "percentile rtts p' \<in> set rtts" unfolding percentile_def using nth_mem [OF i(2)] by simp
qed

lemma print_percentiles_eq:
  assumes "rtts \<noteq> []" and "length rtts \<le> 2 ^ 53"
  shows "\<forall>l \<in> set ls. snd l \<le> 2 ^ 53 \<Longrightarrow>
    print_percentiles (sort rtts) ls = Some (map (\<lambda>l. (fst l, percentile rtts (snd l))) ls)"
  by (induction ls) (simp_all add: print_percentile_eq [OF assms])

lemma client_report_eq:
  assumes "0 < msgs" and "length rtts = nat msgs" and "msgs \<le> 2 ^ 53" and "\<forall>v \<in> set rtts. 0 \<le> v" and "sum_list rtts < 2 ^ 63"
  shows "client_report msgs rtts = Some (map (\<lambda>l. (fst l, percentile rtts (snd l))) percentiles @ [(''mean'', sum_list rtts div msgs)])"
proof -
  have ne: "rtts \<noteq> []" "length rtts \<le> 2 ^ 53" using assms(1-3) by auto
  have "sum_list (sort rtts) = sum_list rtts" by (metis mset_sort sum_mset_sum_list)
  then have "sum_int64 0 (sort rtts) = Some (sum_list rtts)" using sum_int64_nonneg [of 0 "sort rtts"] assms(4,5) by simp
  moreover have "print_percentiles (sort rtts) percentiles = Some (map (\<lambda>l. (fst l, percentile rtts (snd l))) percentiles)"
    by (rule print_percentiles_eq [OF ne]) (simp add: percentiles_def)
  moreover have "sum_list rtts sdiv msgs = sum_list rtts div msgs"
    using assms(1,4) by (simp add: sdiv_nonneg sum_list_nonneg)
  ultimately show ?thesis using assms(1) by (simp add: client_report_def Let_def)
qed

text \<open>The frames of the two loops are those of one loop.\<close>

lemma send_orders_append:
  "send_orders (w + n) net frame seq = do {
     (fs, out) \<leftarrow> send_orders w net frame seq;
     (case out of
        Inl st \<Rightarrow> Some (fs, Inl st)
      | Inr (frame, seq) \<Rightarrow> do {
          (gs, out) \<leftarrow> send_orders n (\<lambda>k. net (w + k)) frame seq;
          Some (fs @ gs, out)
        })
   }"
proof (induction w arbitrary: net frame seq)
  case 0
  then show ?case by (simp split: bind_splits)
next
  case (Suc w)
  show ?case
  proof (cases "encode_order frame seq")
    case (Some out)
    show ?thesis
    proof (cases "send_recv (net 0) out")
      case r: (Some r)
      show ?thesis
      proof (cases r)
        case (Inr frame')
        then show ?thesis using Some r Suc.IH [of "\<lambda>k. net (Suc k)" frame' "seq + 1"]
          by (cases "send_orders w (\<lambda>k. net (Suc k)) frame' (seq + 1)")
            (auto simp: case_prod_unfold split: bind_splits sum.splits)
      qed (simp add: Some r)
    qed (simp add: Some)
  qed simp
qed

text \<open>The two loops of \<open>client_main\<close> read as the loop of all their frames.\<close>

lemma client_loops:
  assumes "send_orders (w + n) net frame seq = Some (frames, out)" and "send_orders w net frame seq = Some (warm, Inr (frame', seq'))"
  obtains gs where "send_orders n (\<lambda>k. net (w + k)) frame' seq' = Some (gs, out)" and "frames = warm @ gs"
  using assms by (auto simp: send_orders_append split: bind_splits)

lemma atoi_range: "atoi str = Some n \<Longrightarrow> - (2 ^ 31) \<le> n \<and> n < 2 ^ 31"
  unfolding atoi_def Let_def by (simp split: if_splits)

lemma parse_options_range:
  "parse_options opts args = Some opts' \<Longrightarrow> messages opts < 2 ^ 31 \<Longrightarrow> messages opts' < 2 ^ 31"
proof (induction opts args rule: parse_options.induct)
  case (1 opts k v rest)
  then show ?case by (auto split: if_splits bind_splits dest: atoi_range)
qed simp_all

section \<open>Properties\<close>

text \<open>
  C39. The statistics of the benchmark client are in range and in order. For any positive number of measurements below
  \<open>2 ^ 31\<close>, with non-negative times whose sum fits, the index computed in floating point never leaves the
  vector; the lines are the minimum, five measured values in increasing order, and the
  maximum, and the mean lies between the two.
\<close>

theorem client_statistics:
  assumes "0 < msgs" and "msgs < 2 ^ 31" and "length rtts = nat msgs" and "\<forall>v \<in> set rtts. 0 \<le> v" and "sum_list rtts < 2 ^ 63"
  shows "\<exists>p50 p90 p95 p99 p999 mean.
     client_report msgs rtts = Some [(''min'', Min (set rtts)), (''p50'', p50), (''p90'', p90), (''p95'', p95), (''p99'', p99),
       (''p999'', p999), (''max'', Max (set rtts)), (''mean'', mean)] \<and>
     Min (set rtts) \<le> p50 \<and> p50 \<le> p90 \<and> p90 \<le> p95 \<and> p95 \<le> p99 \<and> p99 \<le> p999 \<and> p999 \<le> Max (set rtts) \<and>
     {p50, p90, p95, p99, p999} \<subseteq> set rtts \<and> Min (set rtts) \<le> mean \<and> mean \<le> Max (set rtts)"
proof -
  have small: "msgs \<le> 2 ^ 53" using assms(2) by simp
  have ne: "rtts \<noteq> []" "length rtts \<le> 2 ^ 53" using assms(1,3) small by auto
  have ends: "percentile rtts 0 = Min (set rtts)" "percentile rtts (2 ^ 53) = Max (set rtts)"
    using percentile_index_ends [of "length rtts"] sorted_ends [OF ne(1)] ne by (simp_all add: percentile_def)
  have between: "\<forall>x \<in> set rtts. Min (set rtts) \<le> x \<and> x \<le> Max (set rtts)" by simp
  have len: "int (length rtts) = msgs" using assms(1,3) by simp
  have sums: "msgs * Min (set rtts) \<le> sum_list rtts" "sum_list rtts \<le> msgs * Max (set rtts)"
    using sum_list_between [OF between] unfolding len by auto
  have mean: "Min (set rtts) \<le> sum_list rtts div msgs" "sum_list rtts div msgs \<le> Max (set rtts)"
    using zdiv_mono1 [OF sums(1) assms(1)] zdiv_mono1 [OF sums(2) assms(1)] assms(1) by simp_all
  let ?P = "percentile rtts"
  note mono = percentile_mono [OF ne]
  have order: "?P 0 \<le> ?P 4503599627370496" "?P 4503599627370496 \<le> ?P 8106479329266893" "?P 8106479329266893 \<le> ?P 8556839292003942"
    "?P 8556839292003942 \<le> ?P 8917127262193582" "?P 8917127262193582 \<le> ?P 8998192055486251" "?P 8998192055486251 \<le> ?P (2 ^ 53)"
    by (rule mono(1); simp)+
  have members: "{?P 4503599627370496, ?P 8106479329266893, ?P 8556839292003942, ?P 8917127262193582, ?P 8998192055486251} \<subseteq> set rtts"
    unfolding insert_subset by (intro conjI mono(2) [of 0] empty_subsetI) simp_all
  have "client_report msgs rtts = Some (map (\<lambda>l. (fst l, percentile rtts (snd l))) percentiles @ [(''mean'', sum_list rtts div msgs)])"
    by (rule client_report_eq [OF assms(1,3) small assms(4,5)])
  moreover have "map (\<lambda>l. (fst l, ?P (snd l))) percentiles = [(''min'', ?P 0), (''p50'', ?P 4503599627370496), (''p90'', ?P 8106479329266893),
      (''p95'', ?P 8556839292003942), (''p99'', ?P 8917127262193582), (''p999'', ?P 8998192055486251), (''max'', ?P (2 ^ 53))]"
    by (simp add: percentiles_def)
  ultimately have "client_report msgs rtts = Some [(''min'', Min (set rtts)), (''p50'', ?P 4503599627370496), (''p90'', ?P 8106479329266893),
      (''p95'', ?P 8556839292003942), (''p99'', ?P 8917127262193582), (''p999'', ?P 8998192055486251), (''max'', Max (set rtts)),
      (''mean'', sum_list rtts div msgs)]"
    by (simp only: ends append.simps)
  then show ?thesis using order members mean unfolding ends by blast
qed

theorem client_statistics_witness:
  "\<exists>p50 p90 p95 p99 p999 mean. client_report 3 [30, 10, 20] = Some [(''min'', 10), (''p50'', p50), (''p90'', p90), (''p95'', p95),
     (''p99'', p99), (''p999'', p999), (''max'', 30), (''mean'', mean)]"
  using client_statistics [of 3 "[30, 10, 20]"] by auto

text \<open>
  C40. How a run of the benchmark client ends, with arguments that parse. Without a connection it
  returns 1. A broken connection during the warm-up kills it in the next exchange, and one that neither answers nor ends blocks it;
  then a negative number of messages throws \<^verbatim>\<open>length_error\<close> and a positive one \<^verbatim>\<open>bad_alloc\<close> if the memory is refused; then a broken or silent connection
  stops the measured loop, with no line printed. Otherwise it has handed over the frames of all messages and prints its
  eight lines, the statistics of its measurements, if at least one message is measured; with \<^verbatim>\<open>--messages 0\<close>
  it indexes an empty vector (undefined behaviour, after the warm-up). In each case the gateway's rules accept the frames that it
  hands over, with the sequence numbers from 1.
\<close>

theorem client_main_outcomes:
  assumes "parse_options Options_init args = Some opts"
    and "\<forall>k received. snd (net k) = Some received \<longrightarrow> length received \<le> kFrameSize"
    and "\<forall>k. 0 \<le> rtt k" and "sum_list (map rtt [0..<nat (messages opts)]) < 2 ^ 63"
  shows "\<exists>frames.
     spec_client tok 1 (concat frames) =
       (map (\<lambda>k. Forward (buy_order tok (1 + of_nat k))) [0..<length frames], 1 + of_nat (length frames), []) \<and>
     (let run = client_main args connects allocates net rtt; w = nat (warmup opts); n = nat (messages opts)
      in if \<not> connects (host opts) (word_of_int (port opts)) then run = Some (frames, Exit 1 []) \<and> frames = []
         else case first_stop net w of
           Some k \<Rightarrow> length frames = Suc k \<and> (\<exists>st. stops (net k) = Some st \<and> run = Some (frames, Stopped st))
         | None \<Rightarrow>
             if messages opts < 0 then length frames = w \<and> run = Some (frames, Length_Error)
             else if 0 < messages opts \<and> \<not> allocates (8 * n) then length frames = w \<and> run = Some (frames, Bad_Alloc)
             else case first_stop net (w + n) of
               Some k \<Rightarrow> length frames = Suc k \<and> (\<exists>st. stops (net k) = Some st \<and> run = Some (frames, Stopped st))
             | None \<Rightarrow>
                 length frames = w + n \<and>
                 (if messages opts = 0 then run = None
                  else \<exists>lines. run = Some (frames, Exit 0 lines) \<and> client_report (messages opts) (map rtt [0..<n]) = Some lines \<and>
                    map fst lines = [''min'', ''p50'', ''p90'', ''p95'', ''p99'', ''p999'', ''max'', ''mean'']))"
proof -
  let ?w = "nat (warmup opts)" and ?n = "nat (messages opts)" and ?f0 = "replicate kFrameSize (0 :: byte)"
  let ?run = "client_main args connects allocates net rtt"
  let ?accepted = "\<lambda>frames. spec_client tok 1 (concat frames) =
       (map (\<lambda>k. Forward (buy_order tok (1 + of_nat k))) [0..<length frames], 1 + of_nat (length frames), [])"
  have frame0: "length ?f0 = 64" by simp
  have fit: "replies_fit net" using assms(2) by (simp only: replies_fit_def)
  note stream = send_orders_stream [OF frame0 fit, of _ 1 tok]
  obtain warm out1 where w: "send_orders ?w net ?f0 1 = Some (warm, out1)" "?accepted warm"
    "case first_stop net ?w of
       None \<Rightarrow> length warm = ?w \<and> (\<exists>frame'. length frame' = 64 \<and> out1 = Inr (frame', 1 + of_nat ?w))
     | Some k \<Rightarrow> k < ?w \<and> length warm = Suc k \<and> (\<exists>st. stops (net k) = Some st \<and> out1 = Inl st)"
    using stream [of ?w] by blast
  obtain frames out2 where m: "send_orders (?w + ?n) net ?f0 1 = Some (frames, out2)" "?accepted frames"
    "case first_stop net (?w + ?n) of
       None \<Rightarrow> length frames = ?w + ?n \<and> (\<exists>frame'. length frame' = 64 \<and> out2 = Inr (frame', 1 + of_nat (?w + ?n)))
     | Some k \<Rightarrow> k < ?w + ?n \<and> length frames = Suc k \<and> (\<exists>st. stops (net k) = Some st \<and> out2 = Inl st)"
    using stream [of "?w + ?n"] by blast
  have empty: "?accepted []" by (simp add: spec_client.simps [of _ _ "[]"] spec_parse_def)
  show ?thesis
  proof (cases "connects (host opts) (word_of_int (port opts))")
    case False
    then show ?thesis using empty by (intro exI [of _ "[]"]) (simp add: client_main_def assms(1))
  next
    case conn: True
    note main = client_main_def assms(1) conn Let_def
    show ?thesis
    proof (cases "first_stop net ?w")
      case (Some k)
      then show ?thesis using w conn by (intro exI [of _ warm]) (auto simp: main w(1) w(1) [simplified])
    next
      case none: None
      then obtain f1 where f1: "out1 = Inr (f1, 1 + of_nat ?w)" "length warm = ?w" using w(3) by auto
      note start = w(1) [unfolded f1(1)]
      obtain gs where gs: "send_orders ?n (\<lambda>k. net (?w + k)) f1 (1 + of_nat ?w) = Some (gs, out2)" "frames = warm @ gs"
        by (rule client_loops [OF m(1) start])
      consider (throws) "messages opts < 0 \<or> 0 < messages opts \<and> \<not> allocates (8 * ?n)"
        | (loop) "\<not> messages opts < 0" "\<not> (0 < messages opts \<and> \<not> allocates (8 * ?n))" by blast
      then show ?thesis
      proof cases
        case throws
        then show ?thesis using w(2) none conn f1(2) by (intro exI [of _ warm]) (auto simp: main start start [simplified])
      next
        case loop
        have run: "?run = (case out2 of Inl st \<Rightarrow> Some (frames, Stopped st)
            | Inr _ \<Rightarrow> client_report (messages opts) (map rtt [0..<?n]) \<bind> (\<lambda>report. Some (frames, Exit 0 report)))"
          using loop unfolding gs(2) by (auto simp: main start start [simplified] gs(1))
        have empty_report: "client_report 0 [] = None" by (simp add: client_report_def print_percentile_def percentiles_def)
        have "\<exists>lines. client_report (messages opts) (map rtt [0..<?n]) = Some lines \<and>
            map fst lines = [''min'', ''p50'', ''p90'', ''p95'', ''p99'', ''p999'', ''max'', ''mean'']" if "0 < messages opts"
        proof -
          have "messages opts \<le> 2 ^ 53" using parse_options_range [OF assms(1)] by (simp add: Options_init_def)
          then show ?thesis
            using client_report_eq [of "messages opts" "map rtt [0..<?n]"] that assms(3,4) by (simp add: percentiles_def)
        qed
        then show ?thesis using loop m(2,3) none conn empty_report
          by (intro exI [of _ frames]) (cases "first_stop net (?w + ?n)"; auto simp: Let_def run)
      qed
    qed
  qed
qed

text \<open>Three runs: two messages that are answered, two of which the second breaks, and no measured message.\<close>

theorem client_main_outcomes_witness:
  "(\<exists>frames lines. client_main [''--messages'', ''2'', ''--warmup'', ''0''] (\<lambda>_ _. True) (\<lambda>_. True) (\<lambda>_. (Sent, Some (replicate 64 0))) (\<lambda>_. 5) =
      Some (frames, Exit 0 lines) \<and> length frames = 2) \<and>
   (\<exists>frames. client_main [''--messages'', ''2'', ''--warmup'', ''0''] (\<lambda>_ _. True) (\<lambda>_. True)
        (\<lambda>k. if k = 0 then (Sent, Some []) else (Broken_Pipe, None)) (\<lambda>_. 5) = Some (frames, Stopped Killed) \<and> length frames = 2) \<and>
   client_main [''--messages'', ''0'', ''--warmup'', ''1''] (\<lambda>_ _. True) (\<lambda>_. True) (\<lambda>_. (Sent, Some (replicate 64 0))) (\<lambda>_. 5) = None"
proof -
  let ?net = "\<lambda>k :: nat. (Sent, Some (replicate 64 (0 :: byte)))"
  let ?net' = "\<lambda>k :: nat. if k = 0 then (Sent, Some ([] :: span)) else (Broken_Pipe, None)"
  have fit: "\<forall>k received. snd (?net k) = Some received \<longrightarrow> length received \<le> kFrameSize"
    "\<forall>k received. snd (?net' k) = Some received \<longrightarrow> length received \<le> kFrameSize" by auto
  have args: "parse_options Options_init [''--messages'', ''2'', ''--warmup'', ''0''] = Some \<lparr>host = ''127.0.0.1'', port = 9000, messages = 2, warmup = 0\<rparr>"
    "parse_options Options_init [''--messages'', ''0'', ''--warmup'', ''1''] = Some \<lparr>host = ''127.0.0.1'', port = 9000, messages = 0, warmup = 1\<rparr>"
    by code_simp+
  have none: "first_stop ?net k = None" for k by (simp add: first_stop_def find_None_iff)
  have killed: "first_stop ?net' (Suc (Suc 0)) = Some 1" "first_stop ?net' 0 = None" by (simp_all add: first_stop_def upt_rec)
  note run = client_main_outcomes [where tok = default and connects = "\<lambda>_ _. True" and allocates = "\<lambda>_. True" and rtt = "\<lambda>_. 5"]
  have "\<exists>frames lines. client_main [''--messages'', ''2'', ''--warmup'', ''0''] (\<lambda>_ _. True) (\<lambda>_. True) ?net (\<lambda>_. 5) =
      Some (frames, Exit 0 lines) \<and> length frames = 2"
    using run [OF args(1) fit(1)] by (simp add: Let_def none sum_list_triv numeral_2_eq_2) blast
  moreover have "\<exists>frames. client_main [''--messages'', ''2'', ''--warmup'', ''0''] (\<lambda>_ _. True) (\<lambda>_. True) ?net' (\<lambda>_. 5) =
      Some (frames, Stopped Killed) \<and> length frames = 2"
    using run [OF args(1) fit(2)] by (simp add: Let_def killed sum_list_triv numeral_2_eq_2) blast
  moreover have "client_main [''--messages'', ''0'', ''--warmup'', ''1''] (\<lambda>_ _. True) (\<lambda>_. True) ?net (\<lambda>_. 5) = None"
    using run [OF args(2) fit(1)] by (simp add: Let_def none sum_list_triv) blast
  ultimately show ?thesis by blast
qed

end
