(* ===== verification/Spec2Isabelle.thy ===== *)
theory Spec2Isabelle
  imports Server_Main Pipeline Isolation Queue_Benchmark Client_Report
begin

text \<open>
  A verification of the low-latency trading gateway. The program receives binary order-entry
  frames over TCP, cuts the byte stream into frames, checks them, passes orders to a matching
  thread through a lock-free queue and sends the responses back to the session they belong to.

  \<^bold>\<open>Parts and theories.\<close> The headers lie under \<^verbatim>\<open>src/core/order_entry/include/lltg/order_entry\<close>, the
  queues under \<^verbatim>\<open>src/core/SPSC\<close>, the programs under \<^verbatim>\<open>src/core/order_entry/examples\<close>.

  \<^item> \<open>Gateway_Prelude\<close> and \<open>Ring\<close>: machine types, bounds-checked arrays, \<^verbatim>\<open>memcpy\<close>, little-endian bytes,
    masks of powers of two, and a circular buffer read as a list; shared by all components.
  \<^item> \<open>Protocol\<close> (\<^verbatim>\<open>protocol.hpp\<close>): constants, enumerations, message structs, wire offsets.
  \<^item> \<open>Codec\<close> (\<^verbatim>\<open>codec.hpp\<close>): load and store helpers, the header codec, validation, the eight message codecs.
    The locales \<open>message_codec\<close> and \<open>full_codec\<close> are what a user of a codec relies on; each of the
    eight is an interpretation.
  \<^item> \<open>Frame_Parser\<close> (\<^verbatim>\<open>frame_parser.hpp\<close>): the byte ring of a connection. The locale \<open>frame_stream\<close> is the
    queue of bytes it refines; \<open>spec_request\<close> is the meaning of a frame, \<open>spec_messages\<close> that of a stream.
  \<^item> \<open>Session\<close> (\<^verbatim>\<open>session.hpp\<close>): \<^verbatim>\<open>OrderEntrySession\<close>, refining the rule book \<open>spec_handle\<close>. The session is
    a library class; the epoll server has its own, simpler rules.
  \<^item> \<open>Engine_Messages\<close> (\<^verbatim>\<open>engine_messages.hpp\<close>): commands, responses and session tokens.
  \<^item> \<open>Spsc\<close> (\<^verbatim>\<open>spsc_ring_buffer.hpp\<close>): the five queue classes, one call at a time. The locale
    \<open>bounded_fifo\<close> is the contract of a queue and \<open>index_ring\<close> the implementation by two indices, from which the
    contract follows; all five classes are interpretations.
  \<^item> \<open>Memory_Model\<close>: two threads, release/acquire atomics with stale reads, data-race detection by vector
    clocks, and the invariant of a single-producer single-consumer protocol; the locale \<open>spsc_protocol\<close> carries
    it from the steps of two thread programs to the reachable states, \<open>wait_free_spsc\<close> adds progress.
  \<^item> \<open>Spsc_Concurrent\<close> (\<^verbatim>\<open>spsc_ring_buffer.hpp\<close> again): the four lock-free classes as thread programs with
    the memory orders of the source, each an interpretation of these locales.
  \<^item> \<open>Epoll_Server\<close> (\<^verbatim>\<open>epoll_server.cpp\<close>): the matching thread, the three branches of the event loop, closing of
    connections and the shutdown sequence. The record \<open>Server\<close> holds what the handlers capture from \<^verbatim>\<open>main\<close>;
    system calls are arguments (their results) and a trace (their effects).
  \<^item> \<open>Event_Loop\<close> (\<^verbatim>\<open>epoll_server.cpp\<close>): the event loop and the matching thread as two interleaved threads with the
    counter of the \<^verbatim>\<open>eventfd\<close> between them, and the shutdown. The handlers of \<open>Epoll_Server\<close> are its undisturbed runs.
  \<^item> \<open>Pipeline\<close> (\<^verbatim>\<open>epoll_server.cpp\<close>): the way of a command through both queues, with history variables for what was
    submitted, refused and delivered.
  \<^item> \<open>Isolation\<close> (\<^verbatim>\<open>epoll_server.cpp\<close>): the footprint of a step; what clients share is the slot table, whose
    entries are reused.
  \<^item> \<open>Server_Main\<close> (\<^verbatim>\<open>epoll_server.cpp\<close>): the start-up of \<^verbatim>\<open>main\<close> with its error returns, and the descriptors from
    \<^verbatim>\<open>accept\<close> to \<^verbatim>\<open>close\<close>.
  \<^item> \<open>Benchmarks\<close> (\<^verbatim>\<open>epoll_bench_client.cpp\<close> and \<^verbatim>\<open>test.cpp\<close>): options, the order stream with the ways in which an exchange
    stops the client, the checksum.
  \<^item> \<open>Queue_Benchmark\<close> (\<^verbatim>\<open>test.cpp\<close>): the three threads of \<^verbatim>\<open>run_benchmark\<close> with their retry loops. The locale
    \<open>benchmark_queue\<close> is what the benchmark relies on, and \<open>spsc_caller\<close> gives it for a lock-free queue; all five classes
    are interpretations.
  \<^item> \<open>Client_Report\<close> (\<^verbatim>\<open>epoll_bench_client.cpp\<close>): \<^verbatim>\<open>main\<close> and its statistics, with the \<^verbatim>\<open>double\<close> product of the
    percentile index rounded as the machine does.
  \<^item> this theory: an order, a cancel and a modify from the client through codec, parser, gateway, queues and engine and back.

  \<^bold>\<open>Conventions.\<close> Structs are records with the members of the source, enumerations datatypes with one more
  constructor for the values without an enumerator where a value is cast from the wire, integers are words of
  their width and wrap. \<^term>\<open>None\<close> in the result of an operation is undefined behaviour of the C++
  code (an access outside an array, a data race, a dangling reference) or a loop that outlives its fuel; theorems
  show that it does not occur.

  \<^bold>\<open>What is shown.\<close> Codec: round trips, exact byte layout, totality. Parser: it refines a byte queue across
  physical wrap-around and counter overflow, and delivers the same messages however the stream is cut into
  chunks. Session: it refines its rules, handles are unique. Queues: first-in-first-out, bounds, equivalence with
  a bounded list; with two threads absence of data races, no loss, duplication or reordering, wait-freedom,
  and exactness of a refusal for sequentially consistent atomics. Gateway: no handler gets stuck
  or leaves its arrays in any reachable state, received bytes have the effect of the gateway's rules,
  responses go to the session they are for, tokens are unique, the matching thread answers in order. With the two
  threads interleaved: no step is undefined, commands are answered in order and all of them if no queue is full, no response
  stays without a wake-up, every handler ends, serving a client touches no other connection and no slot but the one that its token names, no
  client descriptor is leaked or used after its close, and the shutdown completes if its command fits. Benchmarks: the verdict on every
  queue is the truth, the retry loops can always finish, the gateway accepts the client's frames, the statistics are in range, every end of the client's run is named. The
  theorems named \<open>logout_keeps_connection\<close>, \<open>protocol_error_keeps_connection\<close>, \<open>slot_reuse_cuts_live_session\<close>,
  \<open>shutdown_lost_hangs\<close>, \<open>startup_outcomes\<close>, \<open>client_main_outcomes\<close>, \<open>benchmark_checksum_wraps\<close> and \<open>reserved_payload_not_cleared\<close> state behaviour that is not what the
  code or its documents intend.

  \<^bold>\<open>Bounds and fuel.\<close> \<open>client_loop\<close> runs at most 65 rounds, since a parser of 4096 bytes holds 64 frames and
  each round but the last consumes one; \<open>drain_responses\<close> runs at most 4096 rounds, since the queue holds 4095
  responses; \<open>matching_thread n\<close> is the first \<open>n\<close> rounds of a loop that spins until a \<^verbatim>\<open>Shutdown\<close>. In
  \<open>Event_Loop\<close> a step is one round of a loop or one queue operation. 8192 steps of the gateway end any handler: at most 4095
  responses are queued, one is in the hands of the matching thread and 4095 more can come from the commands that are queued.
  12287 steps of the matching thread reach the \<^verbatim>\<open>Shutdown\<close>: three for each command before it. The queue benchmark needs at
  most five steps for each of two calls a message. Order handles are unique below \<open>2 ^ 64 - 1\<close> requests, tokens below \<open>2 ^ 42\<close> connections.

  \<^bold>\<open>What is not modelled.\<close> The kernel: results of system calls are arguments, and it is assumed to hand out
  descriptors that are not open (\<open>fresh_fds\<close>). The results of \<^verbatim>\<open>fcntl\<close> and \<^verbatim>\<open>setsockopt\<close>, and of \<^verbatim>\<open>epoll_ctl\<close> after the start-up, which the code
  ignores, console output and elapsed time, the size of the event array, which bounds nothing but the length of a list, and
  cache-line padding. A \<^verbatim>\<open>recv\<close> of the gateway may deliver any number of bytes, where the code asks for at most 1024. Where the two threads of the gateway interleave, a queue operation is one step whose refusal is exact; that the lock-free
  queue delivers in order without a race under weak memory is shown on its own. The build files and the
  benchmark script hold no logic of the program.

  \<^bold>\<open>Plan.\<close> Still to come: stale refusals of the queues inside the event loop.
\<close>

section \<open>Across the components\<close>

text \<open>Draining one response for a session that owns its slot.\<close>

lemma drain_one:
  assumes inv: "server_inv s" and one: "v3_contents (rsp_queue s) = [rsp]"
    and owner: "SessionSlot.generation (slots s ! unat (slot (EngineResponse.session rsp)))
          = SessionToken.generation (EngineResponse.session rsp)"
      "SessionSlot.fd (slots s ! unat (slot (EngineResponse.session rsp))) = f" "0 \<le> f"
    and reply: "encode_response rsp (replicate 64 0) = Some reply" "length reply = 64"
  obtains s' where "drain_responses 4096 (\<lambda>_. 64) 0 default s = Some s'" and "io s' = io s @ [Send f reply]"
    and "connections s' = connections s" and "cmd_queue s' = cmd_queue s" and "v3_contents (rsp_queue s') = []"
proof -
  have vi: "v3_inv kQueueCapacity (rsp_queue s)" and len: "length (slots s) = 1024"
    and tok: "token_ok (EngineResponse.session rsp)" using inv one by (auto simp: server_inv_def)
  obtain q1 where q1: "v3_pop kQueueCapacity (rsp_queue s) default = Some (True, rsp, q1)" "v3_inv kQueueCapacity q1"
    "v3_contents q1 = []" using v3_fifo.pop_some [OF vi one] by blast
  obtain q2 where q2: "v3_pop kQueueCapacity q1 rsp = Some (False, rsp, q2)" "v3_contents q2 = []"
    using v3_fifo.pop_empty [OF q1(2,3)] by blast
  let ?s = "perform [Send f reply] (s\<lparr>rsp_queue := q1\<rparr>)"
  have "on_response 64 rsp (s\<lparr>rsp_queue := q1\<rparr>) = Some ?s"
    using owner reply tok len by (simp add: on_response_def span_get_def token_ok_def)
  then have "drain_responses (Suc (Suc 4094)) (\<lambda>_. 64) 0 default s = Some (?s\<lparr>rsp_queue := q2\<rparr>)"
    unfolding drain_responses.simps using q1(1) q2(1) by (simp add: Let_def)
  then show thesis using that [of "?s\<lparr>rsp_queue := q2\<rparr>"] q2(2) by simp
qed

text \<open>
  A request of a client that owns its slot, in an idle gateway: the way from its bytes through both queues to the answer.
\<close>

lemma request_through_gateway:
  assumes "server_inv s" and "map_of (connections s) f = Some c" and "0 \<le> f"
    and "SessionSlot.fd (slots s ! unat (slot (token c))) = f"
    and "SessionSlot.generation (slots s ! unat (slot (token c))) = SessionToken.generation (token c)"
    and "pending (parser c) = []" and "v3_contents (cmd_queue s) = []" and "v3_contents (rsp_queue s) = []"
    and "length frame = 64" and "spec_request frame default = Some m" and "sequence_number (header m) = expected_sequence c"
    and "DecodedMessage.type m \<in> {MessageType.NewOrder, MessageType.CancelOrder, MessageType.ModifyOrder}"
  obtains s1 rsp cq rq s2 reply where "on_client f True (Received frame) s = Some s1"
    and "v3_contents (cmd_queue s1) = [command_of (token c) m]"
    and "matching_iteration (cmd_queue s1) (rsp_queue s1) = Some (True, 1, cq, rq)"
    and "drain_responses 4096 (\<lambda>_. 64) 0 default (s1\<lparr>cmd_queue := cq, rsp_queue := rq\<rparr>) = Some s2"
    and "io s2 = io s @ [Send f reply]"
    and "matching_response (command_of (token c) m) = Some rsp" and "encode_response rsp (replicate 64 0) = Some reply"
proof -
  let ?cmd = "command_of (token c) m"
  have "spec_client (token c) (expected_sequence c) frame = ([Forward ?cmd], expected_sequence c + 1, [])"
    using assms(9-12)
    by (auto simp: spec_client.simps [of _ _ frame] spec_client.simps [of _ _ "[]"] spec_parse_def gateway_rule_def Let_def)
  then obtain s1 where s1: "on_client f True (Received frame) s = Some s1" "server_inv s1" "slots s1 = slots s"
    "rsp_queue s1 = rsp_queue s" "io s1 = io s" "v3_contents (cmd_queue s1) = [?cmd]"
    using on_client_received [OF assms(1,2), of frame] assms(6,7,9) by force
  have q: "v3_inv kQueueCapacity (cmd_queue s1)" "v3_inv kQueueCapacity (rsp_queue s1)"
    using s1(2) by (auto simp: server_inv_def)
  obtain rsp where rsp: "matching_response ?cmd = Some rsp" "EngineResponse.session rsp = token c"
    and run: "EngineCommand.type ?cmd \<noteq> EngineCommandType.Shutdown"
    using assms(12) by (auto simp: matching_response_def command_of_def Let_def)
  have ans: "engine_answers (take 1 [?cmd]) = [rsp]" using rsp(1) run by simp
  obtain run k cq rq where it: "matching_iteration (cmd_queue s1) (rsp_queue s1) = Some (run, k, cq, rq)"
      "run \<longleftrightarrow> v3_contents (cmd_queue s1) = [] \<or> EngineCommand.type (hd (v3_contents (cmd_queue s1))) \<noteq> EngineCommandType.Shutdown"
      "v3_contents rq = v3_contents (rsp_queue s1) @ (if length (v3_contents (rsp_queue s1)) < 4095
        then engine_answers (take 1 (v3_contents (cmd_queue s1))) else [])"
      "k = length (engine_answers (take 1 (v3_contents (cmd_queue s1))))"
    using matching_iteration_cases [OF q] by metis
  have step: "matching_iteration (cmd_queue s1) (rsp_queue s1) = Some (True, 1, cq, rq)" "v3_contents rq = [rsp]"
    using it run unfolding s1(4,6) assms(8) ans by simp_all
  let ?s = "s1\<lparr>cmd_queue := cq, rsp_queue := rq\<rparr>"
  have inv': "server_inv ?s" using matching_iteration_inv [OF s1(2)] it(1) by auto
  obtain reply where reply: "encode_response rsp (replicate 64 0) = Some reply" "length reply = 64"
    using engine_frame [of rsp] by auto
  obtain s2 where s2: "drain_responses 4096 (\<lambda>_. 64) 0 default ?s = Some s2" "io s2 = io ?s @ [Send f reply]"
    by (rule drain_one [OF inv', of rsp f reply]) (use step(2) s1(3) assms(3-5) reply rsp(2) in simp_all)
  show thesis by (rule that [OF s1(1,6) step(1) s2(1) _ rsp(1) reply(1)]) (use s1(5) s2(2) in simp)
qed

text \<open>
  One request on its way: the event handler turns the frame into the command \<open>cmd\<close>, alone on the queue, a round of the matching thread into
  one response and one notification, and the drain loop into the one frame that is sent, to the same client, which reads
  \<open>answer\<close> in it.
\<close>

definition travels :: "int \<Rightarrow> Server \<Rightarrow> span \<Rightarrow> EngineCommand \<Rightarrow> MessageHeader \<times> response \<Rightarrow> bool" where
  "travels f s frame cmd answer \<longleftrightarrow>
     (\<exists>s1 cq rq s2 reply.
        on_client f True (Received frame) s = Some s1 \<and> v3_contents (cmd_queue s1) = [cmd] \<and>
        matching_iteration (cmd_queue s1) (rsp_queue s1) = Some (True, 1, cq, rq) \<and>
        drain_responses 4096 (\<lambda>_. 64) 0 default (s1\<lparr>cmd_queue := cq, rsp_queue := rq\<rparr>) = Some s2 \<and>
        io s2 = io s @ [Send f reply] \<and> read_response reply = Some answer)"

lemma request_travels:
  assumes "server_inv s" and "map_of (connections s) f = Some c" and "0 \<le> f"
    and "SessionSlot.fd (slots s ! unat (slot (token c))) = f"
    and "SessionSlot.generation (slots s ! unat (slot (token c))) = SessionToken.generation (token c)"
    and "pending (parser c) = []" and "v3_contents (cmd_queue s) = []" and "v3_contents (rsp_queue s) = []"
    and "length frame = 64" and "spec_request frame default = Some m" and "sequence_number (header m) = expected_sequence c"
    and "DecodedMessage.type m \<in> {MessageType.NewOrder, MessageType.CancelOrder, MessageType.ModifyOrder}"
    and "command_of (token c) m = cmd"
    and "\<And>rsp reply. matching_response cmd = Some rsp \<Longrightarrow> encode_response rsp (replicate 64 0) = Some reply \<Longrightarrow>
           read_response reply = Some answer"
  shows "travels f s frame cmd answer"
proof (rule request_through_gateway [OF assms(1-12)], unfold assms(13))
  fix s1 rsp cq rq s2 reply
  assume "on_client f True (Received frame) s = Some s1" "v3_contents (cmd_queue s1) = [cmd]"
    "matching_iteration (cmd_queue s1) (rsp_queue s1) = Some (True, 1, cq, rq)"
    "drain_responses 4096 (\<lambda>_. 64) 0 default (s1\<lparr>cmd_queue := cq, rsp_queue := rq\<rparr>) = Some s2" "io s2 = io s @ [Send f reply]"
    and r: "matching_response cmd = Some rsp" "encode_response rsp (replicate 64 0) = Some reply"
  then show ?thesis unfolding travels_def using assms(14) [OF r] by blast
qed

section \<open>Properties\<close>

text \<open>
  C2. An order travels through the whole gateway. Let a client whose connection owns its slot send a new order,
  encoded by the library, under the next sequence number, in an idle server. Then the event handler
  puts exactly one command with all fields of the order on the queue, one round of the matching thread turns it
  into one response and one notification, and draining the responses sends exactly one frame,
  to the same client, which decodes it as the acceptance of its order.
\<close>

theorem order_through_gateway:
  assumes "server_reachable event_fd listen_fd s" and "map_of (connections s) f = Some c" and "0 \<le> f"
    and "SessionSlot.fd (slots s ! unat (slot (token c))) = f"
    and "SessionSlot.generation (slots s ! unat (slot (token c))) = SessionToken.generation (token c)"
    and "pending (parser c) = []" and "v3_contents (cmd_queue s) = []" and "v3_contents (rsp_queue s) = []"
    and "header_status hdr = DecodeStatus.Ok" and "sequence_number hdr = expected_sequence c"
    and "Side_ok (NewOrder.side order)" and "encode_new_order hdr order (replicate 64 0) = Some (64, frame)"
  shows "\<exists>s1 cmd cq rq s2 reply.
     on_client f True (Received frame) s = Some s1 \<and> v3_contents (cmd_queue s1) = [cmd] \<and>
     EngineCommand.type cmd = EngineCommandType.NewLimit \<and> EngineCommand.session cmd = token c \<and>
     EngineCommand.client_order_id cmd = NewOrder.client_order_id order \<and> EngineCommand.side cmd = NewOrder.side order \<and>
     EngineCommand.price cmd = NewOrder.price order \<and> EngineCommand.quantity cmd = NewOrder.quantity order \<and>
     request_sequence cmd = sequence_number hdr \<and>
     matching_iteration (cmd_queue s1) (rsp_queue s1) = Some (True, 1, cq, rq) \<and>
     drain_responses 4096 (\<lambda>_. 64) 0 default (s1\<lparr>cmd_queue := cq, rsp_queue := rq\<rparr>) = Some s2 \<and>
     io s2 = io s @ [Send f reply] \<and>
     read_response reply = Some (stamp MessageType.Accepted default, RAccepted (NewOrder.client_order_id order) 0)"
proof -
  have inv: "server_inv s" using server_reachable_inv [OF assms(1)] .
  note req = new_order_request [OF length_replicate assms(12,9,11)]
  let ?m = "(default :: DecodedMessage)\<lparr>header := stamp MessageType.NewOrder hdr,
           DecodedMessage.type := MessageType.NewOrder, new_order := order\<rparr>"
  let ?cmd = "command_of (token c) ?m"
  have "travels f s frame ?cmd (stamp MessageType.Accepted default, RAccepted (NewOrder.client_order_id order) 0)"
  proof (rule request_travels [OF inv assms(2-8) req _ _ refl])
    fix rsp reply
    assume "matching_response ?cmd = Some rsp" and reply: "encode_response rsp (replicate 64 0) = Some reply"
    then have "EngineResponse.type rsp = EngineResponseType.Accepted"
      "EngineResponse.client_order_id rsp = NewOrder.client_order_id order"
      by (auto simp: matching_response_def command_of_def Let_def)
    then show "read_response reply = Some (stamp MessageType.Accepted default, RAccepted (NewOrder.client_order_id order) 0)"
      using engine_frame [of rsp] reply by auto
  qed (simp_all add: assms(10) stamp_def)
  then show ?thesis unfolding travels_def by (fastforce simp: command_of_def stamp_def)
qed

theorem order_through_gateway_witness:
  "\<exists>s s1 cmd frame. server_reachable 4 3 s \<and>
     encode_new_order (default\<lparr>sequence_number := 1\<rparr>) (default\<lparr>NewOrder.price := 100\<rparr>) (replicate 64 0) = Some (64, frame) \<and>
     on_client 7 True (Received frame) s = Some s1 \<and> v3_contents (cmd_queue s1) = [cmd] \<and> EngineCommand.price cmd = 100"
proof -
  obtain s where r: "server_reachable 4 3 s"
    and c: "map_of (connections s) 7 = Some (Connection_init 7 \<lparr>slot = 0, generation = 1\<rparr>)"
    and sl: "SessionSlot.fd (slots s ! 0) = 7" "SessionSlot.generation (slots s ! 0) = 1"
    and q: "v3_contents (cmd_queue s) = []" "v3_contents (rsp_queue s) = []"
    using one_client by metis
  let ?o = "(default :: NewOrder)\<lparr>NewOrder.price := 100\<rparr>" and ?h = "(default :: MessageHeader)\<lparr>sequence_number := 1\<rparr>"
  obtain frame where frame: "encode_new_order ?h ?o (replicate 64 0) = Some (64, frame)"
    using new_order_codec.encode_defined [of "replicate 64 0"] by simp
  have "header_status ?h = DecodeStatus.Ok" "Side_ok (NewOrder.side ?o)" by (simp_all add: header_status_def)
  from order_through_gateway [OF r c _ _ _ _ q this(1) _ this(2) frame] show ?thesis
    using r frame sl by (auto simp: Connection_init_def)
qed

text \<open>
  C13. A cancel and a modify travel through the whole gateway. Under the conditions of a new order, a cancel that the library
  encodes over any 64 bytes becomes a \<^verbatim>\<open>Cancel\<close> command for the same order with no other field set, answered
  by the frame that the client decodes as the cancellation of that order; a modify becomes a \<^verbatim>\<open>Modify\<close> command with
  the new price and the new quantity, answered by the frame that the client decodes as the modification of that order.
  Nothing else is queued or sent.
\<close>

theorem changes_through_gateway:
  assumes "server_reachable event_fd listen_fd s" and "map_of (connections s) f = Some c" and "0 \<le> f"
    and "SessionSlot.fd (slots s ! unat (slot (token c))) = f"
    and "SessionSlot.generation (slots s ! unat (slot (token c))) = SessionToken.generation (token c)"
    and "pending (parser c) = []" and "v3_contents (cmd_queue s) = []" and "v3_contents (rsp_queue s) = []"
    and "header_status hdr = DecodeStatus.Ok" and "sequence_number hdr = expected_sequence c" and "length out = 64"
    and "encode_cancel_order hdr cancel out = Some (64, cancel_frame)" and "encode_modify_order hdr change out = Some (64, modify_frame)"
  shows "travels f s cancel_frame
       \<lparr>request_sequence = sequence_number hdr, client_order_id = CancelOrder.client_order_id cancel, price = 0, quantity = 0,
        side = Side.Buy, session = token c, type = EngineCommandType.Cancel\<rparr>
       (stamp MessageType.Cancelled default, RCancelled (CancelOrder.client_order_id cancel) 0) \<and>
     travels f s modify_frame
       \<lparr>request_sequence = sequence_number hdr, client_order_id = ModifyOrder.client_order_id change,
        price = new_price change, quantity = new_quantity change,
        side = Side.Buy, session = token c, type = EngineCommandType.Modify\<rparr>
       (stamp MessageType.Modified default, RModified (ModifyOrder.client_order_id change) 0)"
proof -
  have inv: "server_inv s" using server_reachable_inv [OF assms(1)] .
  note travel = request_travels [OF inv assms(2-8)]
  have "travels f s cancel_frame
       \<lparr>request_sequence = sequence_number hdr, client_order_id = CancelOrder.client_order_id cancel, price = 0, quantity = 0,
        side = Side.Buy, session = token c, type = EngineCommandType.Cancel\<rparr>
       (stamp MessageType.Cancelled default, RCancelled (CancelOrder.client_order_id cancel) 0)" (is "travels _ _ _ ?cmd ?answer")
  proof (rule travel [OF cancel_order_request [OF assms(11,12,9)]])
    fix rsp reply
    assume "matching_response ?cmd = Some rsp" and reply: "encode_response rsp (replicate 64 0) = Some reply"
    then show "read_response reply = Some ?answer"
      using engine_frame [of rsp] by (auto simp: matching_response_def Let_def)
  qed (simp_all add: assms(10) stamp_def command_of_def cancel_order_transfer_def default_EngineCommand_ext_def)
  moreover have "travels f s modify_frame
       \<lparr>request_sequence = sequence_number hdr, client_order_id = ModifyOrder.client_order_id change,
        price = new_price change, quantity = new_quantity change,
        side = Side.Buy, session = token c, type = EngineCommandType.Modify\<rparr>
       (stamp MessageType.Modified default, RModified (ModifyOrder.client_order_id change) 0)" (is "travels _ _ _ ?cmd ?answer")
  proof (rule travel [OF modify_order_request [OF assms(11,13,9)]])
    fix rsp reply
    assume "matching_response ?cmd = Some rsp" and reply: "encode_response rsp (replicate 64 0) = Some reply"
    then show "read_response reply = Some ?answer"
      using engine_frame [of rsp] by (auto simp: matching_response_def Let_def)
  qed (simp_all add: assms(10) stamp_def command_of_def modify_order_transfer_def default_EngineCommand_ext_def)
  ultimately show ?thesis ..
qed

theorem changes_through_gateway_witness:
  "\<exists>s frame frame'. server_reachable 4 3 s \<and>
     travels 7 s frame \<lparr>request_sequence = 1, client_order_id = 9, price = 0, quantity = 0, side = Side.Buy,
       session = \<lparr>slot = 0, generation = 1\<rparr>, type = EngineCommandType.Cancel\<rparr>
       (stamp MessageType.Cancelled default, RCancelled 9 0) \<and>
     travels 7 s frame' \<lparr>request_sequence = 1, client_order_id = 9, price = 101, quantity = 5, side = Side.Buy,
       session = \<lparr>slot = 0, generation = 1\<rparr>, type = EngineCommandType.Modify\<rparr>
       (stamp MessageType.Modified default, RModified 9 0)"
proof -
  obtain s where r: "server_reachable 4 3 s"
    and c: "map_of (connections s) 7 = Some (Connection_init 7 \<lparr>slot = 0, generation = 1\<rparr>)"
    and sl: "SessionSlot.fd (slots s ! 0) = 7" "SessionSlot.generation (slots s ! 0) = 1"
    and q: "v3_contents (cmd_queue s) = []" "v3_contents (rsp_queue s) = []"
    using one_client by metis
  let ?c = "(default :: CancelOrder)\<lparr>CancelOrder.client_order_id := 9\<rparr>" and ?h = "(default :: MessageHeader)\<lparr>sequence_number := 1\<rparr>"
    and ?m = "(default :: ModifyOrder)\<lparr>ModifyOrder.client_order_id := 9, new_price := 101, new_quantity := 5\<rparr>"
  have h: "header_status ?h = DecodeStatus.Ok" by (simp add: header_status_def)
  have len: "length (replicate 64 (0 :: byte)) = 64" by simp
  obtain frame frame' where frames: "encode_cancel_order ?h ?c (replicate 64 0) = Some (64, frame)"
      "encode_modify_order ?h ?m (replicate 64 0) = Some (64, frame')"
    using cancel_order_codec.encode_defined [of "replicate 64 0"] modify_order_codec.encode_defined [of "replicate 64 0"] by simp
  from changes_through_gateway [OF r c _ _ _ _ q h _ len frames]
  have "travels 7 s frame \<lparr>request_sequence = 1, client_order_id = 9, price = 0, quantity = 0, side = Side.Buy,
       session = \<lparr>slot = 0, generation = 1\<rparr>, type = EngineCommandType.Cancel\<rparr>
       (stamp MessageType.Cancelled default, RCancelled 9 0) \<and>
     travels 7 s frame' \<lparr>request_sequence = 1, client_order_id = 9, price = 101, quantity = 5, side = Side.Buy,
       session = \<lparr>slot = 0, generation = 1\<rparr>, type = EngineCommandType.Modify\<rparr>
       (stamp MessageType.Modified default, RModified 9 0)"
    using sl by (simp add: Connection_init_def)
  then show ?thesis using r by blast
qed

text \<open>
  From the wire to the session's answer. A new order that is encoded by the library, appended to an empty
  frame parser and parsed reaches the session as it was; if it is in sequence, has a positive price and
  quantity and a fresh id, the session writes a frame that the client decodes as the acceptance of that id under the
  next handle, with the sequence number of the request, and the order is in the book.
\<close>

theorem order_through_session:
  assumes "parser_inv Capacity p" and "pending p = []" and "header_status hdr = DecodeStatus.Ok"
    and "Side_ok (NewOrder.side order)" and "encode_new_order hdr order (replicate 64 0) = Some (64, frame)"
    and "sequence_number hdr = expected_sequence_number s" and "NewOrder.price order \<noteq> 0" and "NewOrder.quantity order \<noteq> 0"
    and "Mapping.lookup (orders s) (NewOrder.client_order_id order) = None"
  shows "\<exists>p1 p2 msg s' out h.
     append_bytes Capacity p frame = Some (True, p1) \<and> try_parse Capacity p1 default = Some (Status.MessageReady, msg, p2) \<and>
     pending p2 = [] \<and> handle_message s msg (replicate 64 0) = Some (True, s', out) \<and>
     read_response out = Some (h, RAccepted (NewOrder.client_order_id order) (next_order_handle s)) \<and>
     sequence_number h = sequence_number hdr \<and>
     Mapping.lookup (orders s') (NewOrder.client_order_id order) = Some (next_order_handle s)"
proof -
  note req = new_order_request [OF length_replicate assms(5,3,4)]
  let ?m = "(default :: DecodedMessage)\<lparr>header := stamp MessageType.NewOrder hdr,
           DecodedMessage.type := MessageType.NewOrder, new_order := order\<rparr>"
  have sa: "FrameParser_static_assert Capacity" using assms(1) by (simp add: parser_inv_def)
  then have cap: "64 \<le> unat Capacity" by (elim static_assertE) (auto dest: dvd_imp_le)
  obtain p1 where p1: "append_bytes Capacity p frame = Some (True, p1)" "parser_inv Capacity p1" "pending p1 = frame"
    using fp.append_fits [OF assms(1), of frame] assms(2) req(1) cap by auto
  have sp: "spec_parse frame default = (Status.MessageReady, ?m, [])" using req by (simp add: spec_parse_def)
  obtain p2 where p2: "try_parse Capacity p1 default = Some (Status.MessageReady, ?m, p2)" "pending p2 = []"
    using fp.parse_queued [OF p1(2), of default] p1(3) sp by auto
  have "spec_handle s ?m = (True, s\<lparr>expected_sequence_number := expected_sequence_number s + 1,
      next_order_handle := next_order_handle s + 1,
      orders := Mapping.update (NewOrder.client_order_id order) (next_order_handle s) (orders s)\<rparr>,
      RAccepted (NewOrder.client_order_id order) (next_order_handle s))"
    using assms(6-9) by (simp add: spec_handle_def request_id_def refusal_def stamp_def Let_def)
  then obtain out where "handle_message s ?m (replicate 64 0) = Some (True,
      s\<lparr>expected_sequence_number := expected_sequence_number s + 1, next_order_handle := next_order_handle s + 1,
        orders := Mapping.update (NewOrder.client_order_id order) (next_order_handle s) (orders s)\<rparr>, out)"
    "read_response out = Some (stamp MessageType.Accepted (response_header (OrderEntrySession.session_id s) (stamp MessageType.NewOrder hdr)),
       RAccepted (NewOrder.client_order_id order) (next_order_handle s))"
    using handle_message_refines [of "replicate 64 0" s ?m] assms(3) by (auto simp: Session.writes_def)
  then show ?thesis using p1(1) p2 by (fastforce simp: stamp_def response_header_def lookup_update')
qed

theorem order_through_session_witness:
  "\<exists>p1 p2 frame msg s' out h.
     encode_new_order (default\<lparr>sequence_number := 1\<rparr>) (default\<lparr>NewOrder.price := 100, NewOrder.quantity := 5\<rparr>) (replicate 64 0)
       = Some (64, frame) \<and>
     append_bytes 64 (FrameParser_init 64) frame = Some (True, p1) \<and> try_parse 64 p1 default = Some (Status.MessageReady, msg, p2) \<and>
     handle_message (OrderEntrySession_init 3) msg (replicate 64 0) = Some (True, s', out) \<and>
     read_response out = Some (h, RAccepted 0 1)"
proof -
  have inv: "parser_inv 64 (FrameParser_init 64)" by (rule parser_inv_init) code_simp
  let ?o = "(default :: NewOrder)\<lparr>NewOrder.price := 100, NewOrder.quantity := 5\<rparr>"
    and ?h = "(default :: MessageHeader)\<lparr>sequence_number := 1\<rparr>"
  obtain frame where frame: "encode_new_order ?h ?o (replicate 64 0) = Some (64, frame)"
    using new_order_codec.encode_defined [of "replicate 64 0"] by simp
  have "header_status ?h = DecodeStatus.Ok" "Side_ok (NewOrder.side ?o)" by (simp_all add: header_status_def)
  from order_through_session [OF inv _ this frame, of "OrderEntrySession_init 3"] show ?thesis
    using frame by (auto simp: OrderEntrySession_init_def)
qed

end
